(* ===== verification/Prelude.thy ===== *)
theory Prelude imports Main "HOL-Library.Word" "HOL-Library.Sublist" begin

text \<open>
  Shared ground of the edge-dns development.

  This theory holds what every component uses: the type names of the model (bytes, times,
  Go panics), Go's built-in slice expressions as bounds-checked operations, the functions of
  Go's package \<^verbatim>\<open>strings\<close> that the source calls, and the generic lemmas about them.
  A Go expression that can panic is a value of \<open>go_panic + 'a\<close>, so that a panic is an
  explicit branch of the model.
\<close>

named_theorems go_defs \<open>definitions of Go built-ins, unfolded by the component proofs\<close>

type_synonym byte = "8 word"
type_synonym time = int \<comment> \<open>nanoseconds, as in Go's \<^verbatim>\<open>time.Time\<close> and \<^verbatim>\<open>time.Duration\<close>\<close>

abbreviation (input) second :: time where
  "second \<equiv> 1000000000"

abbreviation (input) millisecond :: time where
  "millisecond \<equiv> 1000000"

datatype go_panic = IndexOutOfRange | TypeAssertion | NilDereference | RuntimePanic string

section \<open>Slices\<close>

text \<open>Go's \<^verbatim>\<open>b[i]\<close>, \<^verbatim>\<open>b[i:]\<close> and \<^verbatim>\<open>b[i:j]\<close>: each panics outside the bounds of the slice.\<close>

definition slice_index :: "'a list \<Rightarrow> nat \<Rightarrow> go_panic + 'a" where
  "slice_index b i = (if i < length b then Inr (b ! i) else Inl IndexOutOfRange)"

definition slice_from :: "'a list \<Rightarrow> nat \<Rightarrow> go_panic + 'a list" where
  "slice_from b i = (if i \<le> length b then Inr (drop i b) else Inl IndexOutOfRange)"

definition slice_range :: "'a list \<Rightarrow> nat \<Rightarrow> nat \<Rightarrow> go_panic + 'a list" where
  "slice_range b i j =
     (if i \<le> j \<and> j \<le> length b then Inr (take (j - i) (drop i b)) else Inl IndexOutOfRange)"

lemmas slice_defs [go_defs] = slice_index_def slice_from_def slice_range_def

lemma take_append_ge: "length xs \<le> n \<Longrightarrow> take n (xs @ ys) = xs @ take (n - length xs) ys"
  by simp

section \<open>Package strings\<close>

text \<open>
  \<^verbatim>\<open>strings.HasPrefix\<close>, \<^verbatim>\<open>strings.HasSuffix\<close> and \<^verbatim>\<open>strings.TrimSuffix\<close> compare bytes.
  \<^verbatim>\<open>strings.ToLower\<close> is modelled on ASCII, where it maps the 26 capital letters and nothing
  else; DNS names reach the program in presentation format, which is ASCII.
\<close>

definition HasPrefix :: "string \<Rightarrow> string \<Rightarrow> bool" where
  "HasPrefix s p \<longleftrightarrow> length p \<le> length s \<and> take (length p) s = p"

definition HasSuffix :: "string \<Rightarrow> string \<Rightarrow> bool" where
  "HasSuffix s x \<longleftrightarrow> length x \<le> length s \<and> drop (length s - length x) s = x"

definition TrimSuffix :: "string \<Rightarrow> string \<Rightarrow> string" where
  "TrimSuffix s x = (if HasSuffix s x then take (length s - length x) s else s)"

definition lower_char :: "char \<Rightarrow> char" where
  "lower_char c =
     (let n = of_char c :: nat in if 65 \<le> n \<and> n \<le> 90 then char_of (n + 32) else c)"

definition ToLower :: "string \<Rightarrow> string" where
  "ToLower s = map lower_char s"

text \<open>\<^verbatim>\<open>strings.Split(s, sep)\<close> for a separator of one byte, and \<^verbatim>\<open>strings.Join(xs, sep)\<close>.\<close>

fun Split :: "char \<Rightarrow> string \<Rightarrow> string list" where
  "Split sep [] = [[]]"
| "Split sep (x # xs) =
     (if x = sep then [] # Split sep xs
      else case Split sep xs of [] \<Rightarrow> [[x]] | y # ys \<Rightarrow> (x # y) # ys)"

fun Join :: "string list \<Rightarrow> string \<Rightarrow> string" where
  "Join [] sep = []"
| "Join [x] sep = x"
| "Join (x # y # ys) sep = x @ sep @ Join (y # ys) sep"

subsection \<open>Prefixes and suffixes\<close>

lemma HasPrefix_iff: "HasPrefix s p \<longleftrightarrow> prefix p s"
  by (auto simp: HasPrefix_def prefix_def) (metis append_take_drop_id)

lemma HasPrefix_append [simp]: "HasPrefix (p @ s) p"
  by (simp add: HasPrefix_iff)

lemma HasSuffix_iff: "HasSuffix s x \<longleftrightarrow> suffix x s"
  by (auto simp: HasSuffix_def suffix_def) (metis append_take_drop_id)

lemma TrimSuffix_append [simp]: "TrimSuffix (s @ x) x = s"
  by (simp add: TrimSuffix_def HasSuffix_def)

lemma TrimSuffix_id: "\<not> suffix x s \<Longrightarrow> TrimSuffix s x = s"
  by (simp add: TrimSuffix_def HasSuffix_iff)

text \<open>A byte that does not occur in the two words decides where a key is cut.\<close>

lemma append_sep_eq:
  assumes "c \<notin> set u" and "c \<notin> set v"
  shows "u @ c # x = v @ c # y \<longleftrightarrow> u = v \<and> x = y"
  using assms by (induction u arbitrary: v) (case_tac v; auto)+

lemma prefix_sep_iff:
  assumes "c \<notin> set u" and "c \<notin> set v"
  shows "prefix (u @ [c]) (v @ c # y) \<longleftrightarrow> u = v"
proof
  assume "prefix (u @ [c]) (v @ c # y)"
  then obtain z where "v @ c # y = u @ c # z" by (auto simp: prefix_def)
  with assms show "u = v" by (simp add: append_sep_eq eq_commute)
qed (simp add: prefix_def)

subsection \<open>Lower case\<close>

lemma lower_char_idem [simp]: "lower_char (lower_char c) = lower_char c"
  by (simp add: lower_char_def Let_def)

lemma lower_char_fixes [simp]: "lower_char c = CHR ''.'' \<longleftrightarrow> c = CHR ''.''"
proof
  assume "lower_char c = CHR ''.''"
  then show "c = CHR ''.''"
  proof (cases "65 \<le> (of_char c :: nat) \<and> (of_char c :: nat) \<le> 90")
    case True
    then have "(of_char (lower_char c) :: nat) = of_char c + 32"
      by (simp add: lower_char_def Let_def)
    moreover have "(of_char CHR ''.'' :: nat) = 46" by simp
    ultimately show ?thesis using \<open>lower_char c = CHR ''.''\<close> True by simp
  qed (simp add: lower_char_def Let_def)
qed (simp add: lower_char_def)

lemma ToLower_idem [simp]: "ToLower (ToLower s) = ToLower s"
  by (simp add: ToLower_def comp_def)

lemma ToLower_append [simp]: "ToLower (s @ t) = ToLower s @ ToLower t"
  by (simp add: ToLower_def)

lemma ToLower_Nil [simp]: "ToLower [] = []"
  by (simp add: ToLower_def)

lemma suffix_dot_ToLower: "suffix ''.'' (ToLower s) \<longleftrightarrow> suffix ''.'' s"
proof (cases s rule: rev_cases)
  case (snoc ys y)
  then show ?thesis by (simp add: ToLower_def suffix_def)
qed simp

subsection \<open>Splitting and joining\<close>

lemma Split_not_Nil [simp]: "Split sep s \<noteq> []"
  by (cases s) (auto split: list.splits)

lemma Split_sep_free: "x \<in> set (Split sep s) \<Longrightarrow> sep \<notin> set x"
  by (induction s arbitrary: x) (auto split: if_splits list.splits)

lemma Join_Cons: "xs \<noteq> [] \<Longrightarrow> Join (x # xs) sep = x @ sep @ Join xs sep"
  by (cases xs) auto

lemma Join_Split [simp]: "Join (Split sep s) [sep] = s"
proof (induction s)
  case (Cons x xs)
  show ?case
  proof (cases "Split sep xs")
    case (Cons y ys)
    then have "Join ((x # y) # ys) [sep] = x # Join (y # ys) [sep]"
      by (cases ys) auto
    with Cons \<open>Join (Split sep xs) [sep] = xs\<close> show ?thesis
      by (auto simp: Join_Cons)
  qed simp
qed simp

lemma Split_append_sep: "Split sep (s @ sep # t) = Split sep s @ Split sep t"
proof (induction s)
  case (Cons x xs)
  then show ?case by (cases "Split sep xs") auto
qed simp

lemma Join_append: "xs \<noteq> [] \<Longrightarrow> ys \<noteq> [] \<Longrightarrow> Join (xs @ ys) sep = Join xs sep @ sep @ Join ys sep"
proof (induction xs)
  case (Cons x xs)
  then show ?case by (cases "xs = []") (auto simp: Join_Cons)
qed simp

lemma Split_sep_free_id: "sep \<notin> set s \<Longrightarrow> Split sep s = [s]"
  by (induction s) auto

lemma Split_Join:
  "xs \<noteq> [] \<Longrightarrow> (\<And>x. x \<in> set xs \<Longrightarrow> sep \<notin> set x) \<Longrightarrow> Split sep (Join xs [sep]) = xs"
proof (induction xs)
  case (Cons x xs)
  show ?case
  proof (cases "xs = []")
    case False
    with Cons have "Split sep (Join xs [sep]) = xs" by auto
    with False Cons.prems show ?thesis
      by (simp add: Join_Cons Split_append_sep Split_sep_free_id)
  qed (use Cons.prems in \<open>simp add: Split_sep_free_id\<close>)
qed simp

lemma length_Split: "length (Split sep s) = Suc (count_list s sep)"
  by (induction s) (auto split: list.splits)

end
