(* ===== verification/TTL_Cache.thy ===== *)
theory TTL_Cache imports Prelude "HOL-Library.AList" begin

text \<open>
  The interface of the in-memory cache with expiry.

  The resolver keeps its caches in the third-party package \<^verbatim>\<open>go-cache\<close>, which is not part of
  the repository. It is therefore a parameter of the model: a record of operations on an abstract
  cache state \<open>'c\<close>, with the clock reading of each call as an explicit argument. The
  locale \<open>ttl_cache\<close> names the documented behaviour the source relies on, stated through
  \<open>entry\<close> (the stored value and its expiry instant) and \<open>dflt\<close> (the default
  lifetime). \<open>mem_cache\<close> is an executable cache with exactly that behaviour; it
  interprets the locale and instantiates the parameter where a concrete run is evaluated.
\<close>

section \<open>Operations\<close>

record ('c, 'v) cache_ops =
  cache_New :: "time \<Rightarrow> time \<Rightarrow> 'c"
  cache_Get :: "'c \<Rightarrow> time \<Rightarrow> string \<Rightarrow> 'v option"
  cache_Set :: "'c \<Rightarrow> time \<Rightarrow> string \<Rightarrow> 'v \<Rightarrow> time \<Rightarrow> 'c"
  cache_Delete :: "'c \<Rightarrow> string \<Rightarrow> 'c"
  cache_Items :: "'c \<Rightarrow> time \<Rightarrow> string list"
  cache_Flush :: "'c \<Rightarrow> 'c"

abbreviation (input) DefaultExpiration :: time where
  "DefaultExpiration \<equiv> 0"

text \<open>An expiry instant of 0 never expires; a lifetime of 0 asks for the cache's default.\<close>

definition expired :: "time \<Rightarrow> time \<Rightarrow> bool" where
  "expired e t \<longleftrightarrow> 0 < e \<and> e < t"

definition expiry :: "time \<Rightarrow> time \<Rightarrow> time \<Rightarrow> time" where
  "expiry df t d = (let d' = if d = DefaultExpiration then df else d
                    in if 0 < d' then t + d' else 0)"

definition live :: "('v \<times> time) option \<Rightarrow> time \<Rightarrow> 'v option" where
  "live x t = (case x of None \<Rightarrow> None | Some (v, e) \<Rightarrow> if expired e t then None else Some v)"

lemma live_None [simp]: "live None t = None"
  by (simp add: live_def)

lemma live_SomeD: "live x t = Some v \<Longrightarrow> \<exists>e. x = Some (v, e) \<and> \<not> expired e t"
  by (auto simp: live_def split: option.splits if_splits)

lemma live_mono: "live x t = None \<Longrightarrow> t \<le> t' \<Longrightarrow> live x t' = None"
  by (auto simp: live_def expired_def split: option.splits if_splits)

section \<open>The documented behaviour\<close>

locale ttl_cache =
  fixes C :: "('c, 'v) cache_ops"
    and entry :: "'c \<Rightarrow> string \<Rightarrow> ('v \<times> time) option"
    and dflt :: "'c \<Rightarrow> time"
  assumes entry_New: "entry (cache_New C d i) k = None"
    and dflt_New: "0 < d \<Longrightarrow> dflt (cache_New C d i) = d"
    and Get_live: "cache_Get C c t k = live (entry c k) t"
    and entry_Set: "entry (cache_Set C c t k v d) = (entry c)(k \<mapsto> (v, expiry (dflt c) t d))"
    and dflt_Set: "dflt (cache_Set C c t k v d) = dflt c"
    and entry_Delete: "entry (cache_Delete C c k) = (entry c)(k := None)"
    and dflt_Delete: "dflt (cache_Delete C c k) = dflt c"
    and Items_live: "set (cache_Items C c t) = {k. live (entry c k) t \<noteq> None}"
    and entry_Flush: "entry (cache_Flush C c) k = None"
    and dflt_Flush: "dflt (cache_Flush C c) = dflt c"
begin

lemmas cache_laws = Get_live entry_New entry_Set entry_Delete entry_Flush
  dflt_Set dflt_Delete dflt_Flush Items_live

lemma Get_New: "cache_Get C (cache_New C d i) t k = None"
  by (simp add: cache_laws)

lemma Get_Set_same:
  assumes "0 < dflt c" and "0 \<le> t"
  shows "cache_Get C (cache_Set C c t k v DefaultExpiration) t' k =
         (if t' \<le> t + dflt c then Some v else None)"
  using assms by (simp add: cache_laws live_def expired_def expiry_def)

lemma Get_Set_other:
  "k' \<noteq> k \<Longrightarrow> cache_Get C (cache_Set C c t k v d) t' k' = cache_Get C c t' k'"
  by (simp add: cache_laws)

lemma Get_Delete:
  "cache_Get C (cache_Delete C c k) t k' = (if k' = k then None else cache_Get C c t k')"
  by (simp add: cache_laws)

text \<open>Deleting a list of keys one after the other, as a loop over the items does.\<close>

lemma entry_delete_keys:
  "entry (fold (\<lambda>k c. cache_Delete C c k) ks c) k = (if k \<in> set ks then None else entry c k)"
  by (induction ks arbitrary: c) (auto simp: cache_laws)

lemma dflt_delete_keys: "dflt (fold (\<lambda>k c. cache_Delete C c k) ks c) = dflt c"
  by (induction ks arbitrary: c) (auto simp: cache_laws)

end

section \<open>An executable cache\<close>

record 'v mem_cache =
  mc_items :: "(string \<times> 'v \<times> time) list"
  mc_default :: time

definition mc_entry :: "'v mem_cache \<Rightarrow> string \<Rightarrow> ('v \<times> time) option" where
  "mc_entry c = map_of (mc_items c)"

definition mem_cache_ops :: "('v mem_cache, 'v) cache_ops" where
  "mem_cache_ops =
     \<lparr>cache_New = (\<lambda>d i. \<lparr>mc_items = [], mc_default = d\<rparr>),
      cache_Get = (\<lambda>c t k. live (map_of (mc_items c) k) t),
      cache_Set = (\<lambda>c t k v d.
        c\<lparr>mc_items := AList.update k (v, expiry (mc_default c) t d) (mc_items c)\<rparr>),
      cache_Delete = (\<lambda>c k. c\<lparr>mc_items := AList.delete k (mc_items c)\<rparr>),
      cache_Items = (\<lambda>c t. filter (\<lambda>k. live (map_of (mc_items c) k) t \<noteq> None)
                                  (map fst (mc_items c))),
      cache_Flush = (\<lambda>c. c\<lparr>mc_items := []\<rparr>)\<rparr>"

lemma live_in_keys: "live (map_of xs k) t \<noteq> None \<Longrightarrow> k \<in> set (map fst xs)"
  by (cases "map_of xs k") (auto dest: map_of_SomeD intro: rev_image_eqI)

interpretation mc: ttl_cache mem_cache_ops mc_entry mc_default
proof unfold_locales
  fix c :: "'a mem_cache" and t
  have "live (map_of (mc_items c) k) t \<noteq> None \<Longrightarrow> k \<in> set (map fst (mc_items c))" for k
    by (rule live_in_keys)
  then show "set (cache_Items mem_cache_ops c t) = {k. live (mc_entry c k) t \<noteq> None}"
    by (auto simp: mem_cache_ops_def mc_entry_def simp del: set_map)
qed (auto simp: mem_cache_ops_def mc_entry_def update_conv delete_conv fun_eq_iff)

end
