(* ===== verification/Redis_Client.thy ===== *)
theory Redis_Client imports Prelude "HOL-Library.AList" begin

text \<open>
  The interface of the Redis client.

  Redis and the \<^verbatim>\<open>go-redis\<close> package are not part of the repository. They are a parameter of the
  model: a record of operations over an abstract world \<open>'r\<close> (server contents, connection,
  failures), each of which returns its reply and the next world. The locale
  \<open>redis_server\<close> names the documented behaviour of the commands the source sends, through
  \<open>sets_of\<close> and \<open>hashes_of\<close> (the server's sets and hashes, by key) and
  \<open>pub_log\<close> (what has been published). The client sends a command again when its reply is lost,
  three times with the default options the source uses. A failing command may therefore have been
  executed or not, and a message may have been published up to four times; the other commands
  that write have the same effect when they are executed again. \<open>mem_redis\<close> is an executable server whose connection fails on a given
  script; it interprets the locale and instantiates the parameter where a run is evaluated.
\<close>

section \<open>Operations\<close>

datatype redis_error = RedisNil | RedisErr string

record 'r redis_client =
  rdb_Ping :: "'r \<Rightarrow> redis_error option \<times> 'r"
  rdb_SMIsMember :: "'r \<Rightarrow> string \<Rightarrow> string list \<Rightarrow> (redis_error + bool list) \<times> 'r"
  rdb_SMembers :: "'r \<Rightarrow> string \<Rightarrow> (redis_error + string list) \<times> 'r"
  rdb_SAdd :: "'r \<Rightarrow> string \<Rightarrow> string list \<Rightarrow> redis_error option \<times> 'r"
  rdb_SRem :: "'r \<Rightarrow> string \<Rightarrow> string list \<Rightarrow> redis_error option \<times> 'r"
  rdb_HGet :: "'r \<Rightarrow> string \<Rightarrow> string \<Rightarrow> (redis_error + string) \<times> 'r"
  rdb_HGetAll :: "'r \<Rightarrow> string \<Rightarrow> (redis_error + (string \<times> string) list) \<times> 'r"
  rdb_HSet :: "'r \<Rightarrow> string \<Rightarrow> string \<Rightarrow> string \<Rightarrow> redis_error option \<times> 'r"
  rdb_HDel :: "'r \<Rightarrow> string \<Rightarrow> string \<Rightarrow> redis_error option \<times> 'r"
  rdb_Publish :: "'r \<Rightarrow> string \<Rightarrow> string \<Rightarrow> (redis_error + nat) \<times> 'r"

section \<open>The documented behaviour\<close>

locale redis_server =
  fixes R :: "'r redis_client"
    and sets_of :: "'r \<Rightarrow> string \<Rightarrow> string set"
    and hashes_of :: "'r \<Rightarrow> string \<Rightarrow> string \<Rightarrow> string option"
    and pub_log :: "'r \<Rightarrow> (string \<times> string) list"
  assumes Ping_frame: "rdb_Ping R r = (x, r') \<Longrightarrow>
      sets_of r' = sets_of r \<and> hashes_of r' = hashes_of r \<and> pub_log r' = pub_log r"
    and SMIsMember_ok: "rdb_SMIsMember R r k ms = (Inr bs, r') \<Longrightarrow>
      bs = map (\<lambda>m. m \<in> sets_of r k) ms"
    and SMIsMember_frame: "rdb_SMIsMember R r k ms = (x1, r') \<Longrightarrow>
      sets_of r' = sets_of r \<and> hashes_of r' = hashes_of r \<and> pub_log r' = pub_log r"
    and SMembers_ok: "rdb_SMembers R r k = (Inr xs, r') \<Longrightarrow> set xs = sets_of r k"
    and SMembers_frame: "rdb_SMembers R r k = (x2, r') \<Longrightarrow>
      sets_of r' = sets_of r \<and> hashes_of r' = hashes_of r \<and> pub_log r' = pub_log r"
    and SAdd_ok: "rdb_SAdd R r k ms = (None, r') \<Longrightarrow>
      sets_of r' = (sets_of r)(k := sets_of r k \<union> set ms)"
    and SAdd_err: "rdb_SAdd R r k ms = (Some e, r') \<Longrightarrow>
      sets_of r' = sets_of r \<or> sets_of r' = (sets_of r)(k := sets_of r k \<union> set ms)"
    and SAdd_frame: "rdb_SAdd R r k ms = (x3, r') \<Longrightarrow>
      hashes_of r' = hashes_of r \<and> pub_log r' = pub_log r"
    and SRem_ok: "rdb_SRem R r k ms = (None, r') \<Longrightarrow>
      sets_of r' = (sets_of r)(k := sets_of r k - set ms)"
    and SRem_err: "rdb_SRem R r k ms = (Some e, r') \<Longrightarrow>
      sets_of r' = sets_of r \<or> sets_of r' = (sets_of r)(k := sets_of r k - set ms)"
    and SRem_frame: "rdb_SRem R r k ms = (x3, r') \<Longrightarrow>
      hashes_of r' = hashes_of r \<and> pub_log r' = pub_log r"
    and HGet_ok: "rdb_HGet R r k f = (Inr v, r') \<Longrightarrow> hashes_of r k f = Some v"
    and HGet_nil: "rdb_HGet R r k f = (Inl RedisNil, r') \<Longrightarrow> hashes_of r k f = None"
    and HGet_frame: "rdb_HGet R r k f = (x4, r') \<Longrightarrow>
      sets_of r' = sets_of r \<and> hashes_of r' = hashes_of r \<and> pub_log r' = pub_log r"
    and HGetAll_ok: "rdb_HGetAll R r k = (Inr kvs, r') \<Longrightarrow> map_of kvs = hashes_of r k"
    and HGetAll_frame: "rdb_HGetAll R r k = (x5, r') \<Longrightarrow>
      sets_of r' = sets_of r \<and> hashes_of r' = hashes_of r \<and> pub_log r' = pub_log r"
    and HSet_ok: "rdb_HSet R r k f v = (None, r') \<Longrightarrow>
      hashes_of r' = (hashes_of r)(k := (hashes_of r k)(f \<mapsto> v))"
    and HSet_err: "rdb_HSet R r k f v = (Some e, r') \<Longrightarrow>
      hashes_of r' = hashes_of r \<or> hashes_of r' = (hashes_of r)(k := (hashes_of r k)(f \<mapsto> v))"
    and HSet_frame: "rdb_HSet R r k f v = (x3, r') \<Longrightarrow>
      sets_of r' = sets_of r \<and> pub_log r' = pub_log r"
    and HDel_ok: "rdb_HDel R r k f = (None, r') \<Longrightarrow>
      hashes_of r' = (hashes_of r)(k := (hashes_of r k)(f := None))"
    and HDel_err: "rdb_HDel R r k f = (Some e, r') \<Longrightarrow>
      hashes_of r' = hashes_of r \<or> hashes_of r' = (hashes_of r)(k := (hashes_of r k)(f := None))"
    and HDel_frame: "rdb_HDel R r k f = (x3, r') \<Longrightarrow>
      sets_of r' = sets_of r \<and> pub_log r' = pub_log r"
    and Publish_ok: "rdb_Publish R r ch p = (Inr n, r') \<Longrightarrow> \<exists>m. 1 \<le> m \<and> m \<le> 4 \<and> pub_log r' = pub_log r @ replicate m (ch, p)"
    and Publish_err: "rdb_Publish R r ch p = (Inl e, r') \<Longrightarrow> \<exists>m \<le> 4. pub_log r' = pub_log r @ replicate m (ch, p)"
    and Publish_frame: "rdb_Publish R r ch p = (x6, r') \<Longrightarrow>
      sets_of r' = sets_of r \<and> hashes_of r' = hashes_of r"
begin

lemmas read_frames = Ping_frame SMIsMember_frame SMembers_frame HGet_frame HGetAll_frame

text \<open>\<^verbatim>\<open>SMISMEMBER\<close> answers whether any of the asked members is in the set.\<close>

lemma SMIsMember_any:
  assumes "rdb_SMIsMember R r k ms = (Inr bs, r')"
  shows "True \<in> set bs \<longleftrightarrow> set ms \<inter> sets_of r k \<noteq> {}"
  using SMIsMember_ok [OF assms] by auto

end

section \<open>An executable server with a script of connection failures\<close>

record mem_redis =
  mr_sets :: "string \<Rightarrow> string list"
  mr_hashes :: "string \<Rightarrow> (string \<times> string) list"
  mr_log :: "(string \<times> string) list"
  mr_faults :: "bool list" \<comment> \<open>does the next command fail? An empty script never fails.\<close>

definition mem_redis_empty :: mem_redis where
  "mem_redis_empty = \<lparr>mr_sets = (\<lambda>_. []), mr_hashes = (\<lambda>_. []), mr_log = [], mr_faults = []\<rparr>"

definition mr_fails :: "mem_redis \<Rightarrow> bool" where
  "mr_fails r = (case mr_faults r of [] \<Rightarrow> False | b # _ \<Rightarrow> b)"

definition mr_next :: "mem_redis \<Rightarrow> mem_redis" where
  "mr_next r = r\<lparr>mr_faults := tl (mr_faults r)\<rparr>"

abbreviation conn_refused :: redis_error where
  "conn_refused \<equiv> RedisErr ''connection refused''"

definition mr_query :: "mem_redis \<Rightarrow> 'a \<Rightarrow> (redis_error + 'a) \<times> mem_redis" where
  "mr_query r x = (if mr_fails r then (Inl conn_refused, mr_next r) else (Inr x, mr_next r))"

definition mr_exec :: "mem_redis \<Rightarrow> (mem_redis \<Rightarrow> mem_redis) \<Rightarrow> redis_error option \<times> mem_redis" where
  "mr_exec r f = (if mr_fails r then (Some conn_refused, mr_next r) else (None, mr_next (f r)))"

definition mem_redis_ops :: "mem_redis redis_client" where
  "mem_redis_ops =
     \<lparr>rdb_Ping = (\<lambda>r. mr_exec r id),
      rdb_SMIsMember = (\<lambda>r k ms. mr_query r (map (\<lambda>m. m \<in> set (mr_sets r k)) ms)),
      rdb_SMembers = (\<lambda>r k. mr_query r (mr_sets r k)),
      rdb_SAdd = (\<lambda>r k ms. mr_exec r
        (\<lambda>r. r\<lparr>mr_sets := (mr_sets r)(k := fold List.insert ms (mr_sets r k))\<rparr>)),
      rdb_SRem = (\<lambda>r k ms. mr_exec r
        (\<lambda>r. r\<lparr>mr_sets := (mr_sets r)(k := filter (\<lambda>m. m \<notin> set ms) (mr_sets r k))\<rparr>)),
      rdb_HGet = (\<lambda>r k f. case map_of (mr_hashes r k) f of
        None \<Rightarrow> if mr_fails r then (Inl conn_refused, mr_next r) else (Inl RedisNil, mr_next r)
      | Some v \<Rightarrow> mr_query r v),
      rdb_HGetAll = (\<lambda>r k. mr_query r (mr_hashes r k)),
      rdb_HSet = (\<lambda>r k f v. mr_exec r
        (\<lambda>r. r\<lparr>mr_hashes := (mr_hashes r)(k := AList.update f v (mr_hashes r k))\<rparr>)),
      rdb_HDel = (\<lambda>r k f. mr_exec r
        (\<lambda>r. r\<lparr>mr_hashes := (mr_hashes r)(k := AList.delete f (mr_hashes r k))\<rparr>)),
      rdb_Publish = (\<lambda>r ch p.
        if mr_fails r then (Inl conn_refused, mr_next r)
        else (Inr 1, mr_next (r\<lparr>mr_log := mr_log r @ [(ch, p)]\<rparr>)))\<rparr>"

definition mr_sets_of :: "mem_redis \<Rightarrow> string \<Rightarrow> string set" where
  "mr_sets_of r k = set (mr_sets r k)"

definition mr_hashes_of :: "mem_redis \<Rightarrow> string \<Rightarrow> string \<Rightarrow> string option" where
  "mr_hashes_of r k = map_of (mr_hashes r k)"

lemmas mem_redis_defs = mem_redis_ops_def mr_query_def mr_exec_def mr_next_def mr_fails_def
  mr_sets_of_def mr_hashes_of_def mem_redis_empty_def

lemma set_fold_insert: "set (fold List.insert xs ys) = set ys \<union> set xs"
  by (induction xs arbitrary: ys) auto

interpretation mr: redis_server mem_redis_ops mr_sets_of mr_hashes_of mr_log
  by unfold_locales
    (auto simp: mem_redis_ops_def mr_query_def mr_exec_def mr_next_def mr_sets_of_def
        mr_hashes_of_def fun_eq_iff update_conv delete_conv set_fold_insert
      split: if_splits option.splits intro: exI [of _ 0] exI [of _ 1])

end
