(* ===== verification/Rule.thy ===== *)
theory Rule imports TTL_Cache Redis_Client begin

text \<open>
  The rule checker: \<^verbatim>\<open>internal/rule/checker.go\<close> and \<^verbatim>\<open>internal/rule/rule.go\<close>.

  The definitions follow the source function by function. The cache and the Redis client are the
  parameters \<open>C\<close> and \<open>R\<close> (theories \<open>TTL_Cache\<close> and \<open>Redis_Client\<close>);
  the checker's own state is passed explicitly, next to the Redis world. Where a call reads the
  clock more than once, each reading is an argument. The cache stores Go values of type
  \<^verbatim>\<open>interface{}\<close>; the two dynamic types the package stores are the constructors of
  \<open>cache_val\<close>, and an unchecked type assertion that fails is a panic.
\<close>

section \<open>Data\<close>

datatype cache_val = CBool bool | CStr string

record 'c checker =
  cache :: 'c
  fallback :: "string list"
  enabled :: bool

datatype rule_error = CheckerNotInitialized | RedisNotAvailable | HSetRedirect redis_error
  | HDelRedirect redis_error | RedisFailure redis_error

definition defaultFallback :: "string list" where
  "defaultFallback =
     [''example-blocked.com'', ''malware.test'', ''ads.tracker.com'', ''pornhub.com'',
      ''xvideos.com'', ''doubleclick.net'', ''google-analytics.com'']"

definition blocked_key :: "string \<Rightarrow> string" where
  "blocked_key userID = ''user:settings:'' @ userID @ '':blocked''"

definition redirects_key :: "string \<Rightarrow> string" where
  "redirects_key userID = ''user:settings:'' @ userID @ '':redirects''"

definition check_cacheKey :: "string \<Rightarrow> string \<Rightarrow> string" where
  "check_cacheKey userID domain = userID @ '':'' @ domain"

definition redirect_cacheKey :: "string \<Rightarrow> string \<Rightarrow> string" where
  "redirect_cacheKey userID domain = ''redirect:'' @ userID @ '':'' @ domain"

definition norm_domain :: "string \<Rightarrow> string" where
  "norm_domain domain = ToLower (TrimSuffix domain ''.'')"

section \<open>The checker\<close>

definition generatePatterns :: "string \<Rightarrow> string list" where
  "generatePatterns domain =
     (let labels0 = Split CHR ''.'' domain;
          labels = (if length labels0 > 10 then drop (length labels0 - 10) labels0 else labels0)
      in domain # map (\<lambda>i. ''*.'' @ Join (drop i labels) ''.'') [1..<length labels])"

definition NewChecker ::
  "('c, cache_val) cache_ops \<Rightarrow> 'r redis_client \<Rightarrow> 'r \<Rightarrow> 'c checker \<times> 'r" where
  "NewChecker C R r =
     (let c = \<lparr>cache = cache_New C (60 * second) (120 * second),
               fallback = [''example-blocked.com'', ''malware.test'', ''ads.tracker.com'',
                           ''pornhub.com'', ''xvideos.com'', ''doubleclick.net'',
                           ''google-analytics.com''],
               enabled = True\<rparr>
      in case rdb_Ping R r of
           (Some err, r') \<Rightarrow> (c\<lparr>enabled := False\<rparr>, r')
         | (None, r') \<Rightarrow> (c, r'))"

fun anyBlocked :: "bool list \<Rightarrow> bool" where
  "anyBlocked [] = False"
| "anyBlocked (isBlocked # vals) = (if isBlocked then True else anyBlocked vals)"

definition checkRedis ::
  "'r redis_client \<Rightarrow> 'r \<Rightarrow> string \<Rightarrow> string \<Rightarrow> (bool \<times> redis_error option) \<times> 'r" where
  "checkRedis R r domain userID =
     (case rdb_SMIsMember R r (blocked_key userID) (generatePatterns domain) of
        (Inl err, r') \<Rightarrow> ((False, Some err), r')
      | (Inr vals, r') \<Rightarrow> ((anyBlocked vals, None), r'))"

fun fallbackLoop :: "string list \<Rightarrow> string \<Rightarrow> int" where
  "fallbackLoop [] domain = 0"
| "fallbackLoop (blocked # bs) domain =
     (if domain = blocked \<or> HasSuffix domain (''.'' @ blocked) then 1 else fallbackLoop bs domain)"

definition fallbackCheck :: "'c checker \<Rightarrow> string \<Rightarrow> int" where
  "fallbackCheck c domain = fallbackLoop (fallback c) domain"

definition Check ::
  "('c, cache_val) cache_ops \<Rightarrow> 'r redis_client \<Rightarrow> time \<Rightarrow> time \<Rightarrow> 'c checker \<Rightarrow> 'r \<Rightarrow>
   string \<Rightarrow> string \<Rightarrow> (go_panic + int) \<times> 'c checker \<times> 'r" where
  "Check C R t0 t1 c r userID domain0 =
     (let domain = ToLower (TrimSuffix domain0 ''.'');
          cacheKey = check_cacheKey userID domain
      in case cache_Get C (cache c) t0 cacheKey of
           Some val \<Rightarrow>
             (case val of
                CBool b \<Rightarrow> (Inr (if b then 1 else 0), c, r)
              | CStr s \<Rightarrow> (Inl TypeAssertion, c, r))
         | None \<Rightarrow>
             (let ((blocked0, err), r1) =
                    (if enabled c then checkRedis R r domain userID else ((False, None), r));
                  blocked = (if \<not> blocked0 then fallbackCheck c domain = 1 else blocked0);
                  c1 = c\<lparr>cache := cache_Set C (cache c) t1 cacheKey (CBool blocked) DefaultExpiration\<rparr>
              in (Inr (if blocked then 1 else 0), c1, r1)))"

definition SeedUserBlocklist ::
  "'r redis_client \<Rightarrow> 'r \<Rightarrow> string \<Rightarrow> string list \<Rightarrow> 'r" where
  "SeedUserBlocklist R r userID domains = snd (rdb_SAdd R r (blocked_key userID) domains)"

definition ClearUserCache ::
  "('c, cache_val) cache_ops \<Rightarrow> time \<Rightarrow> 'c checker \<Rightarrow> string \<Rightarrow> 'c checker" where
  "ClearUserCache C t c userID =
     (let pre = userID @ '':'';
          redirectPrefix = ''redirect:'' @ userID @ '':'';
          ks = filter (\<lambda>k. HasPrefix k pre \<or> HasPrefix k redirectPrefix)
                 (cache_Items C (cache c) t)
      in c\<lparr>cache := fold (\<lambda>k ca. cache_Delete C ca k) ks (cache c)\<rparr>)"

fun redisGetRedirectLoop ::
  "'r redis_client \<Rightarrow> 'r \<Rightarrow> string \<Rightarrow> string list \<Rightarrow> (redis_error + string) \<times> 'r" where
  "redisGetRedirectLoop R r key [] = (Inr [], r)"
| "redisGetRedirectLoop R r key (pattern # patterns) =
     (case rdb_HGet R r key pattern of
        (Inl RedisNil, r') \<Rightarrow> redisGetRedirectLoop R r' key patterns
      | (Inl (RedisErr e), r') \<Rightarrow> (Inl (RedisErr e), r')
      | (Inr ip, r') \<Rightarrow>
          (if ip \<noteq> [] then (Inr ip, r') else redisGetRedirectLoop R r' key patterns))"

definition redisGetRedirect ::
  "'r redis_client \<Rightarrow> 'r \<Rightarrow> string \<Rightarrow> string \<Rightarrow> (redis_error + string) \<times> 'r" where
  "redisGetRedirect R r userID domain =
     redisGetRedirectLoop R r (redirects_key userID) (generatePatterns domain)"

definition GetRedirect ::
  "('c, cache_val) cache_ops \<Rightarrow> 'r redis_client \<Rightarrow> time \<Rightarrow> time \<Rightarrow> 'c checker \<Rightarrow> 'r \<Rightarrow>
   string \<Rightarrow> string \<Rightarrow> (string \<times> bool) \<times> 'c checker \<times> 'r" where
  "GetRedirect C R t0 t1 c r userID domain0 =
     (let domain = ToLower (TrimSuffix domain0 ''.'');
          cacheKey = redirect_cacheKey userID domain
      in case cache_Get C (cache c) t0 cacheKey of
           Some val \<Rightarrow>
             (case val of CStr ip \<Rightarrow> ((ip, True), c, r) | CBool b \<Rightarrow> (([], False), c, r))
         | None \<Rightarrow>
             (if enabled c then
                (case redisGetRedirect R r userID domain of
                   (Inr ip, r1) \<Rightarrow>
                     (if ip \<noteq> [] then
                        ((ip, True),
                         c\<lparr>cache := cache_Set C (cache c) t1 cacheKey (CStr ip) DefaultExpiration\<rparr>, r1)
                      else
                        (([], False),
                         c\<lparr>cache := cache_Set C (cache c) t1 cacheKey (CStr []) DefaultExpiration\<rparr>, r1))
                 | (Inl err, r1) \<Rightarrow> (([], False), c, r1))
              else (([], False), c, r)))"

definition SetRedirect ::
  "('c, cache_val) cache_ops \<Rightarrow> 'r redis_client \<Rightarrow> 'c checker \<Rightarrow> 'r \<Rightarrow> string \<Rightarrow> string \<Rightarrow> string \<Rightarrow>
   rule_error option \<times> 'c checker \<times> 'r" where
  "SetRedirect C R c r userID domain0 targetIP =
     (let domain = ToLower (TrimSuffix domain0 ''.'')
      in case rdb_HSet R r (redirects_key userID) domain targetIP of
           (Some err, r') \<Rightarrow> (Some (HSetRedirect err), c, r')
         | (None, r') \<Rightarrow>
             (None, c\<lparr>cache := cache_Delete C (cache c) (redirect_cacheKey userID domain)\<rparr>, r'))"

definition RemoveRedirect ::
  "('c, cache_val) cache_ops \<Rightarrow> 'r redis_client \<Rightarrow> 'c checker \<Rightarrow> 'r \<Rightarrow> string \<Rightarrow> string \<Rightarrow>
   rule_error option \<times> 'c checker \<times> 'r" where
  "RemoveRedirect C R c r userID domain0 =
     (let domain = ToLower (TrimSuffix domain0 ''.'')
      in case rdb_HDel R r (redirects_key userID) domain of
           (Some err, r') \<Rightarrow> (Some (HDelRedirect err), c, r')
         | (None, r') \<Rightarrow>
             (None, c\<lparr>cache := cache_Delete C (cache c) (redirect_cacheKey userID domain)\<rparr>, r'))"

definition ListRedirects ::
  "'r redis_client \<Rightarrow> 'r \<Rightarrow> string \<Rightarrow> (redis_error + (string \<times> string) list) \<times> 'r" where
  "ListRedirects R r userID = rdb_HGetAll R r (redirects_key userID)"

section \<open>The package-level checker\<close>

record 'c rule_pkg =
  global :: "'c checker option"
  totalChecks :: "64 word"

definition InitChecker ::
  "('c, cache_val) cache_ops \<Rightarrow> 'r redis_client \<Rightarrow> 'c rule_pkg \<Rightarrow> 'r \<Rightarrow> 'c rule_pkg \<times> 'r" where
  "InitChecker C R p r = (let (c, r') = NewChecker C R r in (p\<lparr>global := Some c\<rparr>, r'))"

definition CheckRule ::
  "('c, cache_val) cache_ops \<Rightarrow> 'r redis_client \<Rightarrow> time \<Rightarrow> time \<Rightarrow> 'c rule_pkg \<Rightarrow> 'r \<Rightarrow>
   string \<Rightarrow> string \<Rightarrow> (go_panic + int) \<times> 'c rule_pkg \<times> 'r" where
  "CheckRule C R t0 t1 p r userID domain0 =
     (let p1 = p\<lparr>totalChecks := totalChecks p + 1\<rparr>;
          domain = ToLower (TrimSuffix domain0 ''.'')
      in case global p1 of
           Some c \<Rightarrow>
             (let (res, c', r') = Check C R t0 t1 c r userID domain
              in (res, p1\<lparr>global := Some c'\<rparr>, r'))
         | None \<Rightarrow> (Inr (fallbackLoop defaultFallback domain), p1, r))"

definition GetRedirectDomain ::
  "('c, cache_val) cache_ops \<Rightarrow> 'r redis_client \<Rightarrow> time \<Rightarrow> time \<Rightarrow> 'c rule_pkg \<Rightarrow> 'r \<Rightarrow>
   string \<Rightarrow> string \<Rightarrow> (string \<times> bool) \<times> 'c rule_pkg \<times> 'r" where
  "GetRedirectDomain C R t0 t1 p r userID domain =
     (case global p of
        Some c \<Rightarrow>
          (let (res, c', r') = GetRedirect C R t0 t1 c r userID domain
           in (res, p\<lparr>global := Some c'\<rparr>, r'))
      | None \<Rightarrow> (([], False), p, r))"

definition SetRedirectRule ::
  "('c, cache_val) cache_ops \<Rightarrow> 'r redis_client \<Rightarrow> 'c rule_pkg \<Rightarrow> 'r \<Rightarrow> string \<Rightarrow> string \<Rightarrow> string \<Rightarrow>
   rule_error option \<times> 'c rule_pkg \<times> 'r" where
  "SetRedirectRule C R p r userID domain targetIP =
     (case global p of
        Some c \<Rightarrow>
          (let (res, c', r') = SetRedirect C R c r userID domain targetIP
           in (res, p\<lparr>global := Some c'\<rparr>, r'))
      | None \<Rightarrow> (Some CheckerNotInitialized, p, r))"

definition RemoveRedirectRule ::
  "('c, cache_val) cache_ops \<Rightarrow> 'r redis_client \<Rightarrow> 'c rule_pkg \<Rightarrow> 'r \<Rightarrow> string \<Rightarrow> string \<Rightarrow>
   rule_error option \<times> 'c rule_pkg \<times> 'r" where
  "RemoveRedirectRule C R p r userID domain =
     (case global p of
        Some c \<Rightarrow>
          (let (res, c', r') = RemoveRedirect C R c r userID domain
           in (res, p\<lparr>global := Some c'\<rparr>, r'))
      | None \<Rightarrow> (Some CheckerNotInitialized, p, r))"

definition ListRedirectRules ::
  "'r redis_client \<Rightarrow> 'c rule_pkg \<Rightarrow> 'r \<Rightarrow> string \<Rightarrow>
   (rule_error + (string \<times> string) list) \<times> 'r" where
  "ListRedirectRules R p r userID =
     (case global p of
        Some c \<Rightarrow>
          (case ListRedirects R r userID of
             (Inl err, r') \<Rightarrow> (Inl (RedisFailure err), r')
           | (Inr m, r') \<Rightarrow> (Inr m, r'))
      | None \<Rightarrow> (Inl CheckerNotInitialized, r))"

definition rule_ClearUserCache ::
  "('c, cache_val) cache_ops \<Rightarrow> time \<Rightarrow> 'c rule_pkg \<Rightarrow> string \<Rightarrow> 'c rule_pkg" where
  "rule_ClearUserCache C t p userID =
     (case global p of
        Some c \<Rightarrow> p\<lparr>global := Some (ClearUserCache C t c userID)\<rparr>
      | None \<Rightarrow> p)"

definition PingRedis ::
  "'r redis_client \<Rightarrow> 'c rule_pkg \<Rightarrow> 'r \<Rightarrow> rule_error option \<times> 'r" where
  "PingRedis R p r =
     (case global p of
        None \<Rightarrow> (Some CheckerNotInitialized, r)
      | Some c \<Rightarrow>
          (if \<not> enabled c then (Some RedisNotAvailable, r)
           else case rdb_Ping R r of
                  (Some err, r') \<Rightarrow> (Some (RedisFailure err), r')
                | (None, r') \<Rightarrow> (None, r')))"

definition TotalChecks :: "'c rule_pkg \<Rightarrow> 64 word" where
  "TotalChecks p = totalChecks p"

definition IsBlockedDomain ::
  "('c, cache_val) cache_ops \<Rightarrow> 'r redis_client \<Rightarrow> time \<Rightarrow> time \<Rightarrow> 'c rule_pkg \<Rightarrow> 'r \<Rightarrow>
   string \<Rightarrow> (go_panic + bool) \<times> 'c rule_pkg \<times> 'r" where
  "IsBlockedDomain C R t0 t1 p r domain0 =
     (case global p of
        Some c \<Rightarrow>
          (let (res, c', r') = Check C R t0 t1 c r ''default'' domain0
           in (map_sum id (\<lambda>v. v = 1) res, p\<lparr>global := Some c'\<rparr>, r'))
      | None \<Rightarrow>
          (let domain = ToLower (TrimSuffix domain0 ''.'')
           in (Inr (fallbackLoop defaultFallback domain = 1), p, r)))"


section \<open>What the patterns match\<close>

text \<open>
  The reference reading of a block list entry: a plain entry matches the domain itself, an entry
  \<^verbatim>\<open>*.parent\<close> matches every proper subdomain of \<^verbatim>\<open>parent\<close>, where a parent of more than nine
  labels is never consulted. It speaks of the domain as a string and not of its labels.
\<close>

definition wildcard_match :: "string \<Rightarrow> string \<Rightarrow> bool" where
  "wildcard_match p d \<longleftrightarrow>
     (\<exists>pre parent. d = pre @ ''.'' @ parent \<and> p = ''*.'' @ parent \<and>
        count_list parent CHR ''.'' < 9)"

definition fallback_match :: "string list \<Rightarrow> string \<Rightarrow> bool" where
  "fallback_match fb d \<longleftrightarrow> (\<exists>b \<in> set fb. d = b \<or> suffix (''.'' @ b) d)"

definition blocked_spec :: "string list \<Rightarrow> string set \<Rightarrow> string \<Rightarrow> bool" where
  "blocked_spec fb B d \<longleftrightarrow> (\<exists>p \<in> B. p = d \<or> wildcard_match p d) \<or> fallback_match fb d"

lemma wildcard_match_labels:
  "wildcard_match p d \<longleftrightarrow>
     (\<exists>i. 0 < i \<and> i < length (Split CHR ''.'' d) \<and> length (Split CHR ''.'' d) - i \<le> 9 \<and>
        p = ''*.'' @ Join (drop i (Split CHR ''.'' d)) ''.'')"
  (is "?L \<longleftrightarrow> ?R")
proof
  assume ?L
  then obtain pre parent where d: "d = pre @ ''.'' @ parent" and p: "p = ''*.'' @ parent"
    and n: "count_list parent CHR ''.'' < 9"
    by (auto simp: wildcard_match_def)
  let ?i = "length (Split CHR ''.'' pre)"
  have "Split CHR ''.'' d = Split CHR ''.'' pre @ Split CHR ''.'' parent"
    using d by (simp add: Split_append_sep)
  moreover have "length (Split CHR ''.'' parent) \<le> 9" using n by (simp add: length_Split)
  ultimately show ?R using p by (intro exI [of _ ?i]) simp
next
  assume ?R
  then obtain i where i: "0 < i" "i < length (Split CHR ''.'' d)"
    and n: "length (Split CHR ''.'' d) - i \<le> 9"
    and p: "p = ''*.'' @ Join (drop i (Split CHR ''.'' d)) ''.''"
    by blast
  let ?pre = "Join (take i (Split CHR ''.'' d)) ''.''"
  let ?par = "Join (drop i (Split CHR ''.'' d)) ''.''"
  have d: "d = ?pre @ ''.'' @ ?par"
    using i Join_append [of "take i (Split CHR ''.'' d)" "drop i (Split CHR ''.'' d)" "''.''"] by simp
  have "length (Split CHR ''.'' d) = length (Split CHR ''.'' ?pre) + length (Split CHR ''.'' ?par)"
    by (subst d) (simp add: Split_append_sep)
  moreover have "length (Split CHR ''.'' ?pre) = i"
    using i by (subst Split_Join) (auto dest: in_set_takeD Split_sep_free)
  ultimately have "length (Split CHR ''.'' ?par) \<le> 9" using n by simp
  then have "count_list ?par CHR ''.'' < 9" by (simp add: length_Split)
  with d p show ?L unfolding wildcard_match_def by blast
qed

lemma generatePatterns_indices:
  "set (generatePatterns d) =
     insert d ((\<lambda>i. ''*.'' @ Join (drop i (Split CHR ''.'' d)) ''.'') `
       {i. 0 < i \<and> i < length (Split CHR ''.'' d) \<and> length (Split CHR ''.'' d) - i \<le> 9})"
proof -
  let ?L = "Split CHR ''.'' d"
  let ?f = "\<lambda>i. ''*.'' @ Join (drop i ?L) ''.''"
  let ?I = "{i. 0 < i \<and> i < length ?L \<and> length ?L - i \<le> 9}"
  show ?thesis
  proof (cases "10 < length ?L")
    case True
    then have "i \<in> (\<lambda>i. i + (length ?L - 10)) ` {1..<10}" if "i \<in> ?I" for i
      using that by (intro image_eqI [of _ _ "i - (length ?L - 10)"]) auto
    with True have "(\<lambda>i. i + (length ?L - 10)) ` {1..<10} = ?I" by auto
    moreover have "set (generatePatterns d) = insert d (?f ` (\<lambda>i. i + (length ?L - 10)) ` {1..<10})"
      using True by (simp add: generatePatterns_def Let_def image_image)
    ultimately show ?thesis by simp
  next
    case False
    then have "{1..<length ?L} = ?I" by auto
    with False show ?thesis by (simp add: generatePatterns_def Let_def)
  qed
qed

text \<open>The generated patterns are exactly the entries that match the domain.\<close>

lemma generatePatterns_match: "p \<in> set (generatePatterns d) \<longleftrightarrow> p = d \<or> wildcard_match p d"
  by (auto simp: generatePatterns_indices wildcard_match_labels)

lemma length_generatePatterns: "length (generatePatterns d) = min (length (Split CHR ''.'' d)) 10"
  by (cases "Split CHR ''.'' d") (auto simp: generatePatterns_def Let_def)

lemma generatePatterns_Cons: "\<exists>ps. generatePatterns d = d # ps"
  by (simp add: generatePatterns_def Let_def)

section \<open>The decision\<close>

lemma anyBlocked_iff: "anyBlocked vals \<longleftrightarrow> True \<in> set vals"
  by (induction vals) auto

lemma fallbackLoop_iff: "fallbackLoop fb d = (if fallback_match fb d then 1 else 0)"
  by (induction fb) (auto simp: fallback_match_def HasSuffix_iff)

lemma fallbackCheck_iff: "fallbackCheck c d = (if fallback_match (fallback c) d then 1 else 0)"
  by (simp add: fallbackCheck_def fallbackLoop_iff)

definition unset :: "(string \<Rightarrow> string option) \<Rightarrow> string \<Rightarrow> bool" where
  "unset h p \<longleftrightarrow> h p = None \<or> h p = Some []"

text \<open>
  What a redirect lookup has to answer for the hash \<open>h\<close> of a user: the target of the domain
  itself if it has one, else that of the longest matching wildcard, else nothing.
\<close>

definition redirect_spec :: "(string \<Rightarrow> string option) \<Rightarrow> string \<Rightarrow> string \<Rightarrow> bool" where
  "redirect_spec h d ip \<longleftrightarrow>
     (if ip = [] then \<forall>p. p = d \<or> wildcard_match p d \<longrightarrow> unset h p
      else h d = Some ip \<or>
           unset h d \<and>
           (\<exists>parent. wildcard_match (''*.'' @ parent) d \<and> h (''*.'' @ parent) = Some ip \<and>
              (\<forall>q. wildcard_match (''*.'' @ q) d \<and> length parent < length q \<longrightarrow>
                   unset h (''*.'' @ q))))"

lemma Join_drop_longer:
  assumes "i < j" and "j < length L"
  shows "length (Join (drop j L) ''.'') < length (Join (drop i L) ''.'')"
proof -
  have "drop i L = take (j - i) (drop i L) @ drop j L"
    using assms by (metis append_take_drop_id drop_drop le_add_diff_inverse2 less_imp_le_nat)
  then have "Join (drop i L) ''.'' = Join (take (j - i) (drop i L)) ''.'' @ ''.'' @ Join (drop j L) ''.''"
    using assms by (metis Join_append drop_eq_Nil2 leD length_drop length_greater_0_conv
        less_imp_le_nat less_trans take_eq_Nil zero_less_diff)
  then show ?thesis by simp
qed

lemma generatePatterns_longest_first:
  "sorted_wrt (\<lambda>p q. length q < length p) (tl (generatePatterns d))"
  by (auto simp: generatePatterns_def Let_def sorted_wrt_map 
      intro!: Join_drop_longer sorted_wrt_mono_rel [OF _ sorted_wrt_upt])

lemma generatePatterns_before:
  assumes g: "generatePatterns d = qs @ p # rs" and "p \<noteq> d"
    and q: "wildcard_match q d" "length p < length q"
  shows "q \<in> set qs"
proof -
  obtain qs' where qs: "qs = d # qs'" using g \<open>p \<noteq> d\<close> generatePatterns_Cons [of d] by (cases qs) auto
  then have "sorted_wrt (\<lambda>p q. length q < length p) (qs' @ p # rs)"
    using generatePatterns_longest_first [of d] g by simp
  then have "q \<notin> set (p # rs)" using q(2) by (auto simp: sorted_wrt_append)
  moreover have "q \<in> set (generatePatterns d)" using q(1) by (simp add: generatePatterns_match)
  ultimately show ?thesis using g by auto
qed

text \<open>The keys of two users without a colon in their names never run into one another.\<close>

definition valid_user :: "string \<Rightarrow> bool" where
  "valid_user u \<longleftrightarrow> CHR '':'' \<notin> set u \<and> u \<noteq> ''redirect''"

lemma check_cacheKey_inj:
  assumes "valid_user u" and "valid_user v"
  shows "check_cacheKey u d = check_cacheKey v e \<longleftrightarrow> u = v \<and> d = e"
  using assms by (simp add: check_cacheKey_def valid_user_def append_sep_eq)

lemma check_redirect_key_neq:
  assumes "valid_user u"
  shows "check_cacheKey u d \<noteq> redirect_cacheKey v e"
proof
  assume "check_cacheKey u d = redirect_cacheKey v e"
  then have "u @ CHR '':'' # d = ''redirect'' @ CHR '':'' # (v @ '':'' @ e)"
    by (simp add: check_cacheKey_def redirect_cacheKey_def)
  moreover have "CHR '':'' \<notin> set u" using assms by (simp add: valid_user_def)
  ultimately have "u = ''redirect''" by (subst (asm) append_sep_eq) auto
  with assms show False by (simp add: valid_user_def)
qed

text \<open>The specification, evaluated: consult the block list at each generated pattern.\<close>

lemma blocked_spec_code [code]:
  "blocked_spec fb B d \<longleftrightarrow> (\<exists>p \<in> set (generatePatterns d). p \<in> B) \<or> fallbackLoop fb d = 1"
  by (auto simp: blocked_spec_def generatePatterns_match fallbackLoop_iff)

section \<open>The checker over a cache and a Redis server that keep their promises\<close>

lemma Check_eq:
  "Check C R t0 t1 c r u d =
     (let key = check_cacheKey u (norm_domain d)
      in case cache_Get C (cache c) t0 key of
           Some (CBool b) \<Rightarrow> (Inr (if b then 1 else 0), c, r)
         | Some (CStr s) \<Rightarrow> (Inl TypeAssertion, c, r)
         | None \<Rightarrow>
             (let ((b0, err), r1) = (if enabled c then checkRedis R r (norm_domain d) u
                                     else ((False, None), r));
                  b = (b0 \<or> fallback_match (fallback c) (norm_domain d))
              in (Inr (if b then 1 else 0),
                  c\<lparr>cache := cache_Set C (cache c) t1 key (CBool b) DefaultExpiration\<rparr>, r1)))"
  by (auto simp: Check_def norm_domain_def Let_def fallbackCheck_iff
      split: option.splits cache_val.splits prod.splits)

text \<open>The block list a lookup gets to see: empty when Redis is disabled or does not answer.\<close>

definition seen_blocklist ::
  "'r redis_client \<Rightarrow> ('r \<Rightarrow> string \<Rightarrow> string set) \<Rightarrow> 'c checker \<Rightarrow> 'r \<Rightarrow> string \<Rightarrow> string \<Rightarrow> string set" where
  "seen_blocklist R sets_of c r u d =
     (if enabled c \<and> snd (fst (checkRedis R r (norm_domain d) u)) = None
      then sets_of r (blocked_key u) else {})"

locale checker_env = ttl_cache C entry dflt + redis_server R sets_of hashes_of pub_log
  for C :: "('c, cache_val) cache_ops"
    and entry :: "'c \<Rightarrow> string \<Rightarrow> (cache_val \<times> time) option"
    and dflt :: "'c \<Rightarrow> time"
    and R :: "'r redis_client"
    and sets_of :: "'r \<Rightarrow> string \<Rightarrow> string set"
    and hashes_of :: "'r \<Rightarrow> string \<Rightarrow> string \<Rightarrow> string option"
    and pub_log :: "'r \<Rightarrow> (string \<times> string) list"
begin

lemma checkRedis_answer:
  assumes "checkRedis R r d u = ((b, err), r')"
  shows "b \<longleftrightarrow> err = None \<and> (\<exists>p \<in> sets_of r (blocked_key u). p = d \<or> wildcard_match p d)"
  using assms SMIsMember_any [of r "blocked_key u" "generatePatterns d"]
  by (fastforce simp: checkRedis_def anyBlocked_iff generatePatterns_match
      split: prod.splits sum.splits)

lemma checkRedis_frame:
  assumes "checkRedis R r d u = (x, r')"
  shows "sets_of r' = sets_of r" and "hashes_of r' = hashes_of r" and "pub_log r' = pub_log r"
  using assms SMIsMember_frame by (auto simp: checkRedis_def split: prod.splits sum.splits)

lemma Check_miss:
  assumes "cache_Get C (cache c) t0 (check_cacheKey u (norm_domain d)) = None"
    and b_def: "b \<longleftrightarrow> blocked_spec (fallback c) (seen_blocklist R sets_of c r u d) (norm_domain d)"
  shows "\<exists>r'. Check C R t0 t1 c r u d =
           (Inr (if b then 1 else 0),
            c\<lparr>cache := cache_Set C (cache c) t1 (check_cacheKey u (norm_domain d)) (CBool b)
                        DefaultExpiration\<rparr>, r') \<and>
         sets_of r' = sets_of r \<and> hashes_of r' = hashes_of r \<and> pub_log r' = pub_log r"
proof (cases "enabled c")
  case True
  obtain b0 err r1 where cr: "checkRedis R r (norm_domain d) u = ((b0, err), r1)"
    by (metis surj_pair)
  have "b \<longleftrightarrow> b0 \<or> fallback_match (fallback c) (norm_domain d)"
    using True cr checkRedis_answer [OF cr]
    by (auto simp: b_def blocked_spec_def seen_blocklist_def)
  with True cr assms checkRedis_frame [OF cr] show ?thesis by (simp add: Check_eq)
next
  case False
  then have "b \<longleftrightarrow> fallback_match (fallback c) (norm_domain d)"
    by (simp add: b_def blocked_spec_def seen_blocklist_def)
  with False assms show ?thesis by (simp add: Check_eq)
qed

lemma Check_panics_iff:
  "(\<exists>e. fst (Check C R t0 t1 c r u d) = Inl e) \<longleftrightarrow>
     (\<exists>s. cache_Get C (cache c) t0 (check_cacheKey u (norm_domain d)) = Some (CStr s))"
  by (auto simp: Check_eq Let_def split: option.splits cache_val.splits prod.splits)

lemma redisGetRedirectLoop_answer:
  assumes "redisGetRedirectLoop R r key ps = (Inr ip, r')"
  shows "(if ip = [] then \<forall>p \<in> set ps. unset (hashes_of r key) p
          else \<exists>qs p rs. ps = qs @ p # rs \<and> hashes_of r key p = Some ip \<and>
                 (\<forall>q \<in> set qs. unset (hashes_of r key) q))"
  using assms
proof (induction ps arbitrary: r)
  case (Cons p ps)
  obtain x r1 where h: "rdb_HGet R r key p = (x, r1)" by (metis surj_pair)
  have fr: "hashes_of r1 = hashes_of r" using HGet_frame [OF h] by blast
  have rec: ?case if "redisGetRedirectLoop R r1 key ps = (Inr ip, r')" and "unset (hashes_of r key) p"
    using Cons.IH [OF that(1)] that(2) fr by (auto split: if_splits) (metis append_Cons set_ConsD)
  show ?case
  proof (cases x)
    case (Inl e)
    then show ?thesis
    proof (cases e)
      case RedisNil
      with h Inl have "unset (hashes_of r key) p" using HGet_nil by (simp add: unset_def)
      with RedisNil h Inl Cons.prems show ?thesis by (intro rec) simp_all
    next
      case (RedisErr m)
      with h Inl Cons.prems show ?thesis by simp
    qed
  next
    case (Inr v)
    with h have v: "hashes_of r key p = Some v" using HGet_ok by simp
    show ?thesis
    proof (cases "v = []")
      case True
      with h Inr v Cons.prems show ?thesis by (intro rec) (simp_all add: unset_def)
    next
      case False
      with h Inr v Cons.prems show ?thesis by (auto intro: exI [of _ "[]"])
    qed
  qed
qed simp

lemma redisGetRedirectLoop_frame:
  "redisGetRedirectLoop R r key ps = (x, r') \<Longrightarrow>
     sets_of r' = sets_of r \<and> hashes_of r' = hashes_of r \<and> pub_log r' = pub_log r"
proof (induction ps arbitrary: r)
  case (Cons p ps)
  obtain y r1 where h: "rdb_HGet R r key p = (y, r1)" by (metis surj_pair)
  with Cons.prems have "r' = r1 \<or> redisGetRedirectLoop R r1 key ps = (x, r')"
    by (auto split: sum.splits redis_error.splits if_splits)
  with HGet_frame [OF h] Cons.IH [of r1] show ?case by auto
qed simp

lemma redisGetRedirect_spec:
  assumes "redisGetRedirect R r u d = (Inr ip, r')"
  shows "redirect_spec (hashes_of r (redirects_key u)) d ip"
proof -
  let ?h = "hashes_of r (redirects_key u)"
  have ans: "if ip = [] then \<forall>p \<in> set (generatePatterns d). unset ?h p
        else \<exists>qs p rs. generatePatterns d = qs @ p # rs \<and> ?h p = Some ip \<and> (\<forall>q \<in> set qs. unset ?h q)"
    by (rule redisGetRedirectLoop_answer [OF assms [unfolded redisGetRedirect_def]])
  show ?thesis
  proof (cases "ip = []")
    case True
    with ans show ?thesis by (auto simp: redirect_spec_def generatePatterns_match)
  next
    case False
    with ans obtain qs p rs where g: "generatePatterns d = qs @ p # rs"
      and p: "?h p = Some ip" and qs: "\<forall>q \<in> set qs. unset ?h q" by auto
    show ?thesis
    proof (cases "p = d")
      case True
      with p False show ?thesis by (simp add: redirect_spec_def)
    next
      case pd: False
      then obtain parent where parent: "p = ''*.'' @ parent" "wildcard_match p d"
        using g generatePatterns_match [of p d] by (auto simp: wildcard_match_def)
      have "d \<in> set qs" using g pd generatePatterns_Cons [of d] by (cases qs) auto
      moreover have "''*.'' @ q \<in> set qs" if "wildcard_match (''*.'' @ q) d" "length parent < length q" for q
        using generatePatterns_before [OF g pd] that parent by simp
      ultimately show ?thesis using False p parent qs by (auto simp: redirect_spec_def)
    qed
  qed
qed

lemma GetRedirect_miss:
  assumes "cache_Get C (cache c) t0 (redirect_cacheKey u (norm_domain d)) = None"
    and "enabled c"
    and "redisGetRedirect R r u (norm_domain d) = (Inr ip, r')"
  shows "GetRedirect C R t0 t1 c r u d =
           ((ip, ip \<noteq> []),
            c\<lparr>cache := cache_Set C (cache c) t1 (redirect_cacheKey u (norm_domain d)) (CStr ip)
                         DefaultExpiration\<rparr>, r')"
  using assms by (simp add: GetRedirect_def Let_def norm_domain_def)

lemma GetRedirect_hit:
  assumes "cache_Get C (cache c) t0 (redirect_cacheKey u (norm_domain d)) = Some (CStr ip)"
  shows "GetRedirect C R t0 t1 c r u d = ((ip, True), c, r)"
  using assms by (simp add: GetRedirect_def Let_def norm_domain_def)

lemma entry_ClearUserCache:
  "entry (cache (ClearUserCache C t c u)) k =
     (if (prefix (u @ '':'') k \<or> prefix (''redirect:'' @ u @ '':'') k) \<and> live (entry (cache c) k) t \<noteq> None
      then None else entry (cache c) k)"
  by (auto simp: ClearUserCache_def Let_def entry_delete_keys Items_live HasPrefix_iff)

lemma Get_ClearUserCache:
  assumes "t \<le> t'"
  shows "cache_Get C (cache (ClearUserCache C t c u)) t' k =
     (if prefix (u @ '':'') k \<or> prefix (''redirect:'' @ u @ '':'') k
      then None else cache_Get C (cache c) t' k)"
  using assms by (auto simp: Get_live entry_ClearUserCache intro: live_mono)

end

lemma check_key_prefixes:
  assumes "valid_user u" and "valid_user v"
  shows "prefix (u @ '':'') (check_cacheKey v d) \<longleftrightarrow> u = v"
    and "\<not> prefix (''redirect:'' @ u @ '':'') (check_cacheKey v d)"
proof -
  show "prefix (u @ '':'') (check_cacheKey v d) \<longleftrightarrow> u = v"
    using assms by (simp add: check_cacheKey_def valid_user_def prefix_sep_iff)
  show "\<not> prefix (''redirect:'' @ u @ '':'') (check_cacheKey v d)"
    using check_redirect_key_neq [OF assms(2), of d u]
    by (auto simp: prefix_def redirect_cacheKey_def)
qed

lemma redirect_key_prefixes:
  assumes "valid_user u" and "valid_user v"
  shows "prefix (''redirect:'' @ u @ '':'') (redirect_cacheKey v d) \<longleftrightarrow> u = v"
    and "\<not> prefix (u @ '':'') (redirect_cacheKey v d)"
proof -
  show "prefix (''redirect:'' @ u @ '':'') (redirect_cacheKey v d) \<longleftrightarrow> u = v"
    using assms by (simp add: redirect_cacheKey_def valid_user_def prefix_sep_iff)
  show "\<not> prefix (u @ '':'') (redirect_cacheKey v d)"
  proof
    assume "prefix (u @ '':'') (redirect_cacheKey v d)"
    then obtain z where "redirect_cacheKey v d = check_cacheKey u z"
      by (auto simp: prefix_def check_cacheKey_def)
    with check_redirect_key_neq [OF assms(1), of z v d] show False by simp
  qed
qed

interpretation mem: checker_env mem_cache_ops mc_entry mc_default
  mem_redis_ops mr_sets_of mr_hashes_of mr_log
  by unfold_locales

section \<open>Properties\<close>

text \<open>
  C28. The patterns generated for a domain are exactly the block list entries that match it (the
  domain itself, and \<^verbatim>\<open>*.parent\<close> for each proper parent of at most nine labels); there are at
  most ten of them, the domain first and then the wildcards from the longest to the shortest.
\<close>

theorem generatePatterns_exact:
  "set (generatePatterns d) = {p. p = d \<or> wildcard_match p d} \<and>
   length (generatePatterns d) \<le> 10 \<and> hd (generatePatterns d) = d \<and>
   sorted_wrt (\<lambda>p q. length q < length p) (tl (generatePatterns d))"
proof -
  have "set (generatePatterns d) = {p. p = d \<or> wildcard_match p d}"
    by (auto simp: generatePatterns_match)
  then show ?thesis
    using generatePatterns_longest_first [of d] generatePatterns_Cons [of d]
    by (auto simp: length_generatePatterns)
qed

text \<open>
  A \<open>Check\<close> that misses the cache returns 1 exactly if the normalised domain matches an
  entry of the user's block list as the lookup saw it, or a fallback domain or one of its
  subdomains; it stores that answer under the user's key with the default lifetime, changes
  nothing else of the checker, and does not modify the Redis data.
\<close>

theorem Check_fresh_decision:
  assumes "checker_env C entry dflt R sets_of hashes_of pub_log"
    and "cache_Get C (cache c) t0 (check_cacheKey u (norm_domain d)) = None"
    and "b \<longleftrightarrow> blocked_spec (fallback c) (seen_blocklist R sets_of c r u d) (norm_domain d)"
  shows "\<exists>r'. Check C R t0 t1 c r u d =
           (Inr (if b then 1 else 0),
            c\<lparr>cache := cache_Set C (cache c) t1 (check_cacheKey u (norm_domain d)) (CBool b)
                        DefaultExpiration\<rparr>, r') \<and>
         sets_of r' = sets_of r \<and> hashes_of r' = hashes_of r \<and> pub_log r' = pub_log r"
  using checker_env.Check_miss [OF assms] .

definition ex_redis :: mem_redis where
  "ex_redis = mem_redis_empty
     \<lparr>mr_sets := (\<lambda>_. [])(''user:settings:alice:blocked'' := [''*.example.com'']),
      mr_hashes := (\<lambda>_. [])(''user:settings:alice:redirects'' := [(''*.tv'', ''10.0.0.9''), (''*.a.tv'', ''10.0.0.1'')])\<rparr>"

definition ex_checker :: "cache_val mem_cache checker" where
  "ex_checker = fst (NewChecker mem_cache_ops mem_redis_ops ex_redis)"

theorem Check_fresh_decision_witness:
  "\<exists>c r'. Check mem_cache_ops mem_redis_ops 5 6 ex_checker ex_redis ''alice'' ''Sub.Example.COM.'' =
     (Inr 1, c, r')"
proof -
  let ?d = "''Sub.Example.COM.''"
  have miss: "cache_Get mem_cache_ops (cache ex_checker) 5 (check_cacheKey ''alice'' (norm_domain ?d)) = None"
    by code_simp
  have "True \<longleftrightarrow> blocked_spec (fallback ex_checker)
          (seen_blocklist mem_redis_ops mr_sets_of ex_checker ex_redis ''alice'' ?d) (norm_domain ?d)"
    by code_simp
  from Check_fresh_decision [OF mem.checker_env_axioms miss this, of 6] show ?thesis by auto
qed

text \<open>
  C29. A redirect lookup that misses the cache, with the checker enabled and Redis answering, reports
  the target of the domain itself, else that of the longest matching wildcard, and reports no
  redirect exactly if none of them has a target; it caches the answer and does not modify the Redis
  data. While the answer is cached, a lookup reports it without asking Redis, and as found, even if
  it is that there is no redirect.
\<close>

theorem GetRedirect_most_specific:
  assumes "checker_env C entry dflt R sets_of hashes_of pub_log"
    and "cache_Get C (cache c) t0 (redirect_cacheKey u (norm_domain d)) = None" and "enabled c"
    and "redisGetRedirect R r u (norm_domain d) = (Inr ip, r')"
    and "0 < dflt (cache c)" and "0 \<le> t1" and "t2 \<le> t1 + dflt (cache c)"
  defines "c' \<equiv> c\<lparr>cache := cache_Set C (cache c) t1 (redirect_cacheKey u (norm_domain d)) (CStr ip) DefaultExpiration\<rparr>"
  shows "GetRedirect C R t0 t1 c r u d = ((ip, ip \<noteq> []), c', r') \<and>
         redirect_spec (hashes_of r (redirects_key u)) (norm_domain d) ip \<and>
         sets_of r' = sets_of r \<and> hashes_of r' = hashes_of r \<and> pub_log r' = pub_log r \<and>
         GetRedirect C R t2 t3 c' r2 u d = ((ip, True), c', r2)"
proof -
  have "ttl_cache C entry dflt" using assms(1) by (simp add: checker_env_def)
  from ttl_cache.Get_Set_same [OF this assms(5,6), of "redirect_cacheKey u (norm_domain d)" "CStr ip" t2] assms(7)
  have "GetRedirect C R t2 t3 c' r2 u d = ((ip, True), c', r2)"
    by (simp add: GetRedirect_def Let_def c'_def norm_domain_def)
  then show ?thesis
    using checker_env.GetRedirect_miss [OF assms(1-4)] checker_env.redisGetRedirect_spec [OF assms(1,4)]
      checker_env.redisGetRedirectLoop_frame [OF assms(1) assms(4) [unfolded redisGetRedirect_def]]
    by (simp add: c'_def)
qed

theorem GetRedirect_most_specific_witness:
  "\<exists>c r'. GetRedirect mem_cache_ops mem_redis_ops 5 6 ex_checker ex_redis ''alice'' ''News.A.TV.'' =
            ((''10.0.0.1'', True), c, r') \<and>
          redirect_spec (mr_hashes_of ex_redis (redirects_key ''alice'')) ''news.a.tv'' ''10.0.0.1'' \<and>
          GetRedirect mem_cache_ops mem_redis_ops 9 9 c mem_redis_empty ''alice'' ''News.A.TV.'' = ((''10.0.0.1'', True), c, mem_redis_empty)"
proof -
  let ?d = "''News.A.TV.''"
  have miss: "cache_Get mem_cache_ops (cache ex_checker) 5 (redirect_cacheKey ''alice'' (norm_domain ?d)) = None"
    by code_simp
  have en: "enabled ex_checker" by code_simp
  have look: "redisGetRedirect mem_redis_ops ex_redis ''alice'' (norm_domain ?d) =
      (Inr ''10.0.0.1'', snd (redisGetRedirect mem_redis_ops ex_redis ''alice'' (norm_domain ?d)))"
    by (rule prod_eqI) (simp, code_simp, simp)
  have t: "0 < mc_default (cache ex_checker)" "(0::int) \<le> 6" "9 \<le> 6 + mc_default (cache ex_checker)" by code_simp+
  have "norm_domain ?d = ''news.a.tv''" by code_simp
  with GetRedirect_most_specific [OF mem.checker_env_axioms miss en look t, of 9 mem_redis_empty] show ?thesis by auto
qed

text \<open>
  A redirect that was set is the one that is served: after a \<open>SetRedirect\<close> that
  succeeded, a lookup of that user for any spelling of that domain (case, final dot) that reaches
  Redis reports the new target at any later time, whatever the cache held before.
\<close>

theorem SetRedirect_GetRedirect:
  assumes "checker_env C entry dflt R sets_of hashes_of pub_log"
    and "SetRedirect C R c r u d ip = (None, c', r')" and "ip \<noteq> []" and "enabled c"
    and "norm_domain d' = norm_domain d"
    and "redisGetRedirect R r' u (norm_domain d') = (Inr x, r'')"
  shows "fst (GetRedirect C R t0 t1 c' r' u d') = (ip, True)"
proof -
  let ?k = "redirect_cacheKey u (norm_domain d)"
  have c': "c' = c\<lparr>cache := cache_Delete C (cache c) ?k\<rparr>"
    and h: "rdb_HSet R r (redirects_key u) (norm_domain d) ip = (None, r')"
    using assms(2) by (auto simp: SetRedirect_def norm_domain_def Let_def split: prod.splits option.splits)
  have ttl: "ttl_cache C entry dflt" and srv: "redis_server R sets_of hashes_of pub_log"
    using assms(1) by (auto simp: checker_env_def)
  have "hashes_of r' (redirects_key u) (norm_domain d) = Some ip"
    using redis_server.HSet_ok [OF srv h] by simp
  with checker_env.redisGetRedirect_spec [OF assms(1,6)] assms(3,5) have x: "x = ip"
    by (auto simp: redirect_spec_def unset_def split: if_splits)
  have miss: "cache_Get C (cache c') t0 (redirect_cacheKey u (norm_domain d')) = None"
    unfolding c' assms(5) by (simp add: ttl_cache.Get_Delete [OF ttl])
  have "enabled c'" using c' assms(4) by simp
  from checker_env.GetRedirect_miss [OF assms(1) miss this assms(6)] x assms(3) show ?thesis by simp
qed

definition ex_set_redirect :: "rule_error option \<times> cache_val mem_cache checker \<times> mem_redis" where
  "ex_set_redirect = SetRedirect mem_cache_ops mem_redis_ops ex_checker ex_redis ''alice'' ''A.b.'' ''10.9.9.9''"

theorem SetRedirect_GetRedirect_witness:
  "fst (GetRedirect mem_cache_ops mem_redis_ops 7 8 (fst (snd ex_set_redirect)) (snd (snd ex_set_redirect))
          ''alice'' ''a.B'') = (''10.9.9.9'', True)"
proof (rule SetRedirect_GetRedirect [OF mem.checker_env_axioms])
  show "SetRedirect mem_cache_ops mem_redis_ops ex_checker ex_redis ''alice'' ''A.b.'' ''10.9.9.9'' =
          (None, fst (snd ex_set_redirect), snd (snd ex_set_redirect))"
    unfolding ex_set_redirect_def [symmetric] by (rule prod_eqI) (simp, code_simp, simp)
  show "redisGetRedirect mem_redis_ops (snd (snd ex_set_redirect)) ''alice'' (norm_domain ''a.B'') =
          (Inr ''10.9.9.9'', snd (redisGetRedirect mem_redis_ops (snd (snd ex_set_redirect)) ''alice'' (norm_domain ''a.B'')))"
    by (rule prod_eqI) (simp, code_simp, simp)
  show "norm_domain ''a.B'' = norm_domain ''A.b.''" by code_simp
  show "enabled ex_checker" by code_simp
qed simp

text \<open>
  The negative answer of a redirect lookup turns into a hit: when a lookup found no redirect
  for a domain, every further lookup in the lifetime of the cache entry reports the empty string
  as a redirect that was found.
\<close>

theorem negative_redirect_reported_as_hit:
  assumes "checker_env C entry dflt R sets_of hashes_of pub_log"
    and "0 < dflt (cache c)" and "0 \<le> t1" and "t2 \<le> t1 + dflt (cache c)"
    and "cache_Get C (cache c) t0 (redirect_cacheKey u (norm_domain d)) = None" and "enabled c"
    and "redisGetRedirect R r u (norm_domain d) = (Inr [], r')"
    and "GetRedirect C R t0 t1 c r u d = (res, c', r1)"
  shows "res = ([], False) \<and> GetRedirect C R t2 t3 c' r2 u d = (([], True), c', r2)"
proof -
  have ttl: "ttl_cache C entry dflt" using assms(1) by (simp add: checker_env_def)
  note miss = checker_env.GetRedirect_miss [OF assms(1,5-7), of t1]
  have c': "c' = c\<lparr>cache := cache_Set C (cache c) t1 (redirect_cacheKey u (norm_domain d)) (CStr [])
                              DefaultExpiration\<rparr>" and res: "res = ([], False)"
    using miss assms(8) by simp_all
  have "cache_Get C (cache c') t2 (redirect_cacheKey u (norm_domain d)) = Some (CStr [])"
    unfolding c' using ttl_cache.Get_Set_same [OF ttl assms(2,3)] assms(4) by simp
  from checker_env.GetRedirect_hit [OF assms(1) this] res show ?thesis by simp
qed

definition ex_get_redirect :: "(string \<times> bool) \<times> cache_val mem_cache checker \<times> mem_redis" where
  "ex_get_redirect = GetRedirect mem_cache_ops mem_redis_ops 5 6 ex_checker ex_redis ''alice'' ''plain.org''"

theorem negative_redirect_reported_as_hit_witness:
  "fst ex_get_redirect = ([], False) \<and>
   GetRedirect mem_cache_ops mem_redis_ops 9 9 (fst (snd ex_get_redirect)) ex_redis ''alice'' ''plain.org'' =
     (([], True), fst (snd ex_get_redirect), ex_redis)"
proof (rule negative_redirect_reported_as_hit [OF mem.checker_env_axioms, where c = ex_checker])
  show "redisGetRedirect mem_redis_ops ex_redis ''alice'' (norm_domain ''plain.org'') =
          (Inr [], snd (redisGetRedirect mem_redis_ops ex_redis ''alice'' (norm_domain ''plain.org'')))"
    by (rule prod_eqI) (simp, code_simp, simp)
  show "GetRedirect mem_cache_ops mem_redis_ops 5 6 ex_checker ex_redis ''alice'' ''plain.org'' =
          (fst ex_get_redirect, fst (snd ex_get_redirect), snd (snd ex_get_redirect))"
    by (simp add: ex_get_redirect_def)
qed (code_simp | simp)+

text \<open>
  C31. The keys of the two kinds of cache entries are not disjoint: after a redirect lookup of a
  user \<^verbatim>\<open>u\<close>, a block check of the same domain for the user called \<^verbatim>\<open>redirect:u\<close> finds a string
  where it asserts a boolean, and panics.
\<close>

theorem confused_Check:
  assumes "checker_env C entry dflt R sets_of hashes_of pub_log"
    and "0 < dflt (cache c)" and "0 \<le> t1" and "t2 \<le> t1 + dflt (cache c)"
    and "cache_Get C (cache c) t0 (redirect_cacheKey u (norm_domain d)) = None" and "enabled c"
    and "redisGetRedirect R r u (norm_domain d) = (Inr ip, r')"
    and "GetRedirect C R t0 t1 c r u d = (res, c', r1)"
  shows "fst (Check C R t2 t3 c' r2 (''redirect:'' @ u) d) = Inl TypeAssertion"
proof -
  have ttl: "ttl_cache C entry dflt" using assms(1) by (simp add: checker_env_def)
  have c': "c' = c\<lparr>cache := cache_Set C (cache c) t1 (redirect_cacheKey u (norm_domain d)) (CStr ip)
                              DefaultExpiration\<rparr>"
    using checker_env.GetRedirect_miss [OF assms(1,5-7), of t1] assms(8) by simp
  have "check_cacheKey (''redirect:'' @ u) (norm_domain d) = redirect_cacheKey u (norm_domain d)"
    by (simp add: check_cacheKey_def redirect_cacheKey_def)
  then have "cache_Get C (cache c') t2 (check_cacheKey (''redirect:'' @ u) (norm_domain d)) = Some (CStr ip)"
    unfolding c' using ttl_cache.Get_Set_same [OF ttl assms(2,3)] assms(4) by simp
  then show ?thesis by (simp add: Check_eq)
qed

theorem confused_Check_witness:
  "fst (Check mem_cache_ops mem_redis_ops 9 9
          (fst (snd (GetRedirect mem_cache_ops mem_redis_ops 5 6 ex_checker ex_redis ''alice'' ''x.tv'')))
          ex_redis (''redirect:'' @ ''alice'') ''x.tv'') = Inl TypeAssertion"
proof (rule confused_Check [OF mem.checker_env_axioms, where c = ex_checker])
  show "redisGetRedirect mem_redis_ops ex_redis ''alice'' (norm_domain ''x.tv'') =
          (Inr ''10.0.0.9'', snd (redisGetRedirect mem_redis_ops ex_redis ''alice'' (norm_domain ''x.tv'')))"
    by (rule prod_eqI) (simp, code_simp, simp)
  let ?g = "GetRedirect mem_cache_ops mem_redis_ops 5 6 ex_checker ex_redis ''alice'' ''x.tv''"
  show "?g = (fst ?g, fst (snd ?g), snd (snd ?g))" by simp
qed (code_simp | simp)+

text \<open>
  \<open>ClearUserCache\<close> is exact: for user names without a colon, afterwards no block check
  and no redirect lookup of that user hits the cache, and those of every other user see what they
  saw before.
\<close>

theorem ClearUserCache_scope:
  assumes "checker_env C entry dflt R sets_of hashes_of pub_log"
    and "valid_user u" and "valid_user v" and "t \<le> t'"
  shows "cache_Get C (cache (ClearUserCache C t c u)) t' (check_cacheKey v d) =
           (if u = v then None else cache_Get C (cache c) t' (check_cacheKey v d)) \<and>
         cache_Get C (cache (ClearUserCache C t c u)) t' (redirect_cacheKey v d) =
           (if u = v then None else cache_Get C (cache c) t' (redirect_cacheKey v d))"
  using check_key_prefixes [OF assms(2,3)] redirect_key_prefixes [OF assms(2,3)]
  by (simp add: checker_env.Get_ClearUserCache [OF assms(1,4)])

definition ex_two_users :: "cache_val mem_cache checker" where
  "ex_two_users =
     (let c = fst (snd (Check mem_cache_ops mem_redis_ops 5 6 ex_checker ex_redis ''alice'' ''x.org''))
      in fst (snd (Check mem_cache_ops mem_redis_ops 6 7 c ex_redis ''bob'' ''x.org'')))"

theorem ClearUserCache_scope_witness:
  "cache_Get mem_cache_ops (cache ex_two_users) 9 (check_cacheKey ''alice'' ''x.org'') = Some (CBool False) \<and>
   cache_Get mem_cache_ops (cache (ClearUserCache mem_cache_ops 8 ex_two_users ''alice'')) 9
     (check_cacheKey ''alice'' ''x.org'') = None \<and>
   cache_Get mem_cache_ops (cache (ClearUserCache mem_cache_ops 8 ex_two_users ''alice'')) 9
     (check_cacheKey ''bob'' ''x.org'') = Some (CBool False)"
proof -
  have u: "valid_user ''alice''" "valid_user ''bob''" by code_simp+
  have g: "cache_Get mem_cache_ops (cache ex_two_users) 9 (check_cacheKey ''alice'' ''x.org'') = Some (CBool False)"
    "cache_Get mem_cache_ops (cache ex_two_users) 9 (check_cacheKey ''bob'' ''x.org'') = Some (CBool False)"
    by code_simp+
  note scope = ClearUserCache_scope [OF mem.checker_env_axioms u(1), of _ 8 9 ex_two_users "''x.org''"]
  from scope [OF u(1)] scope [OF u(2)] g show ?thesis by simp
qed

text \<open>
  A failed lookup is remembered: when Redis does not answer and the domain is on no fallback
  list, \<open>Check\<close> lets it pass, and so does every further check of that user and domain in
  the lifetime of the cache entry, also after Redis has recovered and whatever its block list says.
\<close>

theorem redis_failure_is_cached:
  assumes "checker_env C entry dflt R sets_of hashes_of pub_log"
    and "0 < dflt (cache c)" and "0 \<le> t1" and "t2 \<le> t1 + dflt (cache c)"
    and "cache_Get C (cache c) t0 (check_cacheKey u (norm_domain d)) = None" and "enabled c"
    and "checkRedis R r (norm_domain d) u = ((b, Some err), r')"
    and "fallbackCheck c (norm_domain d) = 0"
    and "Check C R t0 t1 c r u d = (res, c', r1)"
  shows "res = Inr 0 \<and> (\<forall>r2. Check C R t2 t3 c' r2 u d = (Inr 0, c', r2))"
proof -
  have ttl: "ttl_cache C entry dflt" using assms(1) by (simp add: checker_env_def)
  have "\<not> fallback_match (fallback c) (norm_domain d)" "\<not> b"
    using assms(8) checker_env.checkRedis_answer [OF assms(1,7)] by (auto simp: fallbackCheck_iff split: if_splits)
  then have c': "c' = c\<lparr>cache := cache_Set C (cache c) t1 (check_cacheKey u (norm_domain d)) (CBool False)
                              DefaultExpiration\<rparr>" and res: "res = Inr 0"
    using assms(5-7,9) by (simp_all add: Check_eq)
  have "cache_Get C (cache c') t2 (check_cacheKey u (norm_domain d)) = Some (CBool False)"
    unfolding c' using ttl_cache.Get_Set_same [OF ttl assms(2,3)] assms(4) by simp
  with res show ?thesis by (simp add: Check_eq)
qed

definition ex_redis_down :: mem_redis where
  "ex_redis_down = ex_redis\<lparr>mr_faults := [True]\<rparr>"

theorem redis_failure_is_cached_witness:
  "Check mem_cache_ops mem_redis_ops 9 9
     (fst (snd (Check mem_cache_ops mem_redis_ops 5 6 ex_checker ex_redis_down ''alice'' ''x.example.com'')))
     ex_redis ''alice'' ''x.example.com'' =
   (Inr 0, fst (snd (Check mem_cache_ops mem_redis_ops 5 6 ex_checker ex_redis_down ''alice'' ''x.example.com'')), ex_redis)"
proof -
  let ?g = "Check mem_cache_ops mem_redis_ops 5 6 ex_checker ex_redis_down ''alice'' ''x.example.com''"
  let ?k = "checkRedis mem_redis_ops ex_redis_down (norm_domain ''x.example.com'') ''alice''"
  have k: "?k = ((False, Some conn_refused), snd ?k)" by (rule prod_eqI) (simp, code_simp, simp)
  have g: "?g = (fst ?g, fst (snd ?g), snd (snd ?g))" by simp
  have h: "0 < mc_default (cache ex_checker)" "(9::int) \<le> 6 + mc_default (cache ex_checker)"
    "cache_Get mem_cache_ops (cache ex_checker) 5 (check_cacheKey ''alice'' (norm_domain ''x.example.com'')) = None"
    "enabled ex_checker" "fallbackCheck ex_checker (norm_domain ''x.example.com'') = 0"
    by code_simp+
  have "(0::int) \<le> 6" by simp
  from redis_failure_is_cached [OF mem.checker_env_axioms h(1) this h(2-4) k h(5) g] show ?thesis by blast
qed

lemma norm_domain_twice: "\<not> suffix ''..'' d \<Longrightarrow> norm_domain (norm_domain d) = norm_domain d"
proof (cases d rule: rev_cases)
  case (snoc xs x)
  assume d: "\<not> suffix ''..'' d"
  show ?thesis
  proof (cases "x = CHR ''.''")
    case True
    with snoc have "TrimSuffix d ''.'' = xs" by (metis TrimSuffix_append)
    moreover have "\<not> suffix ''.'' xs" using d snoc True by (auto simp: suffix_def)
    ultimately show ?thesis by (simp add: norm_domain_def TrimSuffix_id suffix_dot_ToLower)
  next
    case False
    with snoc have "\<not> suffix ''.'' d" by (auto simp: suffix_def)
    then show ?thesis by (simp add: norm_domain_def TrimSuffix_id suffix_dot_ToLower)
  qed
qed (simp add: norm_domain_def TrimSuffix_def HasSuffix_def)

text \<open>
  Without Redis the decision does not depend on how it is missing: before \<open>InitChecker\<close>,
  and after it when Redis was not reachable and the cache has no entry, \<open>CheckRule\<close> blocks
  exactly the built-in domains and their subdomains, and never talks to Redis. Each call counts
  one check, modulo \<open>2 ^ 64\<close>.
\<close>

theorem CheckRule_without_redis:
  assumes "\<not> suffix ''..'' d"
    and "case global p of None \<Rightarrow> True
         | Some c \<Rightarrow> \<not> enabled c \<and> fallback c = defaultFallback \<and>
                    cache_Get C (cache c) t0 (check_cacheKey u (norm_domain d)) = None"
  shows "\<exists>p'. CheckRule C R t0 t1 p r u d =
           (Inr (if \<exists>b \<in> set defaultFallback. norm_domain d = b \<or> suffix (''.'' @ b) (norm_domain d)
                 then 1 else 0), p', r) \<and>
         unat (totalChecks p') = (unat (totalChecks p) + 1) mod 2 ^ 64"
  using assms(2)
proof (cases "global p")
  case None
  then show ?thesis
    by (simp add: CheckRule_def Let_def fallbackLoop_iff fallback_match_def norm_domain_def unat_word_ariths)
next
  case (Some c)
  with assms show ?thesis
    by (simp add: CheckRule_def Let_def Check_eq norm_domain_def [symmetric] norm_domain_twice fallback_match_def
        unat_word_ariths)
qed

theorem CheckRule_without_redis_witness:
  "(\<exists>p'. CheckRule mem_cache_ops mem_redis_ops 5 6 \<lparr>global = None, totalChecks = -1\<rparr> ex_redis ''bob''
           ''Stats.DoubleClick.net.'' = (Inr 1, p', ex_redis) \<and> unat (totalChecks p') = 0) \<and>
   (\<exists>p'. CheckRule mem_cache_ops mem_redis_ops 5 6 \<lparr>global = Some (ex_checker\<lparr>enabled := False\<rparr>), totalChecks = 0\<rparr>
           ex_redis ''alice'' ''x.example.com'' = (Inr 0, p', ex_redis))"
proof -
  have h: "\<not> suffix ''..'' ''Stats.DoubleClick.net.''" "\<not> suffix ''..'' ''x.example.com''"
    "norm_domain ''Stats.DoubleClick.net.'' = ''stats.doubleclick.net''"
    "norm_domain ''x.example.com'' = ''x.example.com''" "fallback ex_checker = defaultFallback"
    "cache_Get mem_cache_ops (cache ex_checker) 5 (check_cacheKey ''alice'' ''x.example.com'') = None"
    by code_simp+
  have s: "\<exists>b \<in> set defaultFallback. ''stats.doubleclick.net'' = b \<or> suffix (''.'' @ b) ''stats.doubleclick.net''"
    "\<not> (\<exists>b \<in> set defaultFallback. ''x.example.com'' = b \<or> suffix (''.'' @ b) ''x.example.com'')"
    by code_simp+
  have m1: "unat (- 1 :: 64 word) = 18446744073709551615" by (simp add: unsigned_minus_1_eq_mask mask_eq_exp_minus_1)
  have "\<exists>p'. CheckRule mem_cache_ops mem_redis_ops 5 6 \<lparr>global = None, totalChecks = -1\<rparr> ex_redis ''bob''
           ''Stats.DoubleClick.net.'' = (Inr 1, p', ex_redis) \<and> unat (totalChecks p') = 0"
    using CheckRule_without_redis [OF h(1), where p = "\<lparr>global = None, totalChecks = -1\<rparr>"
        and C = mem_cache_ops and u = "''bob''" and R = mem_redis_ops and r = ex_redis and ?t0.0 = 5 and ?t1.0 = 6] h s
    by (simp add: m1)
  moreover have "\<exists>p'. CheckRule mem_cache_ops mem_redis_ops 5 6 \<lparr>global = Some (ex_checker\<lparr>enabled := False\<rparr>), totalChecks = 0\<rparr>
           ex_redis ''alice'' ''x.example.com'' = (Inr 0, p', ex_redis)"
    using CheckRule_without_redis [OF h(2), where p = "\<lparr>global = Some (ex_checker\<lparr>enabled := False\<rparr>), totalChecks = 0\<rparr>"
        and C = mem_cache_ops and u = "''alice''" and R = mem_redis_ops and r = ex_redis and ?t0.0 = 5 and ?t1.0 = 6] h s
    by auto
  ultimately show ?thesis by blast
qed

end
