(* ===== verification/Strconv.thy ===== *)
theory Strconv imports Prelude begin

text \<open>
  Decimal numbers: what \<^verbatim>\<open>fmt.Sprintf("%d")\<close> and \<^verbatim>\<open>strconv.Itoa\<close> print, and what
  \<^verbatim>\<open>strconv.Atoi\<close> reads, for numbers that fit the machine word.
\<close>

definition digit :: "nat \<Rightarrow> char" where
  "digit n = char_of (48 + n mod 10)"

function show_nat :: "nat \<Rightarrow> string" where
  "show_nat n = (if n < 10 then [digit n] else show_nat (n div 10) @ [digit n])"
  by pat_completeness auto
termination by (relation "measure id") auto

declare show_nat.simps [simp del]

definition show_int :: "int \<Rightarrow> string" where
  "show_int i = (if i < 0 then ''-'' @ show_nat (nat (- i)) else show_nat (nat i))"

definition digit_val :: "char \<Rightarrow> nat option" where
  "digit_val c = (let n = of_char c :: nat in if 48 \<le> n \<and> n \<le> 57 then Some (n - 48) else None)"

fun read_digits :: "nat \<Rightarrow> string \<Rightarrow> nat option" where
  "read_digits acc [] = Some acc"
| "read_digits acc (c # cs) =
     (case digit_val c of None \<Rightarrow> None | Some d \<Rightarrow> read_digits (10 * acc + d) cs)"

text \<open>\<^verbatim>\<open>strconv.Atoi\<close>: an optional sign, then at least one digit and nothing but digits, in range.\<close>

definition Atoi :: "string \<Rightarrow> int option" where
  "Atoi s =
     (let (neg, ds) = (case s of [] \<Rightarrow> (False, [])
                       | c # cs \<Rightarrow> if c = CHR ''-'' then (True, cs)
                                  else if c = CHR ''+'' then (False, cs) else (False, s))
      in if ds = [] then None
         else case read_digits 0 ds of
                None \<Rightarrow> None
              | Some n \<Rightarrow> (let i = (if neg then - int n else int n)
                          in if - (2 ^ 63) \<le> i \<and> i < 2 ^ 63 then Some i else None))"

lemma of_char_digit: "of_char (digit n) = 48 + n mod 10"
proof -
  have "48 + n mod 10 < 256" by (rule order_less_le_trans [of _ 58]) auto
  then show ?thesis by (simp add: digit_def)
qed

lemma digit_val_digit [simp]: "digit_val (digit n) = Some (n mod 10)"
  using mod_less_divisor [of 10 n] by (simp add: digit_val_def of_char_digit Let_def)

lemma read_digits_append:
  "read_digits acc (xs @ ys) = (case read_digits acc xs of None \<Rightarrow> None | Some a \<Rightarrow> read_digits a ys)"
  by (induction acc xs rule: read_digits.induct) (auto split: option.splits)

lemma read_digits_show_nat [simp]: "read_digits 0 (show_nat n) = Some n"
proof (induction n rule: show_nat.induct)
  case (1 n)
  then show ?case
    by (cases "n < 10") (simp_all add: show_nat.simps [of n] read_digits_append)
qed

lemma show_nat_inj: "show_nat m = show_nat n \<longleftrightarrow> m = n"
  by (metis option.inject read_digits_show_nat)

lemma show_nat_digits: "c \<in> set (show_nat n) \<Longrightarrow> 48 \<le> (of_char c :: nat) \<and> (of_char c :: nat) \<le> 57"
proof (induction n rule: show_nat.induct)
  case (1 n)
  have "48 \<le> (of_char (digit n) :: nat) \<and> (of_char (digit n) :: nat) \<le> 57"
    using mod_less_divisor [of 10 n] by (simp add: of_char_digit)
  with 1 show ?case by (subst (asm) show_nat.simps) (auto split: if_splits)
qed

lemma show_nat_no_colon [simp]: "CHR '':'' \<notin> set (show_nat n)"
  using show_nat_digits [of "CHR '':''" n] by auto

lemma show_nat_no_minus [simp]: "CHR ''-'' \<notin> set (show_nat n)"
  using show_nat_digits [of "CHR ''-''" n] by auto

lemma show_nat_not_Nil [simp]: "show_nat n \<noteq> []"
  by (subst show_nat.simps) simp

lemma show_int_no_colon [simp]: "CHR '':'' \<notin> set (show_int i)"
  by (simp add: show_int_def)

lemma Atoi_show_int: "- (2 ^ 63) \<le> i \<Longrightarrow> i < 2 ^ 63 \<Longrightarrow> Atoi (show_int i) = Some i"
proof (cases "i < 0")
  case False
  assume r: "- (2 ^ 63) \<le> i" "i < 2 ^ 63"
  obtain c cs where s: "show_nat (nat i) = c # cs" by (cases "show_nat (nat i)") auto
  have "c \<noteq> CHR ''-''" using show_nat_no_minus [of "nat i"] unfolding s by auto
  moreover have "c \<noteq> CHR ''+''" using show_nat_digits [of c "nat i"] unfolding s by auto
  ultimately show ?thesis
    using False r read_digits_show_nat [of "nat i"] s by (simp add: Atoi_def show_int_def Let_def)
qed (simp add: Atoi_def show_int_def Let_def)

lemma show_int_inj: "show_int i = show_int j \<longleftrightarrow> i = j"
proof
  assume e: "show_int i = show_int j"
  have "hd (show_nat n) \<noteq> CHR ''-''" for n
    using show_nat_no_minus [of n] by (metis list.set_sel(1) show_nat_not_Nil)
  then have "i < 0 \<longleftrightarrow> j < 0" using e by (auto simp: show_int_def split: if_splits) (metis list.sel(1))+
  with e show "i = j" by (auto simp: show_int_def show_nat_inj split: if_splits)
qed simp

end
