(* ===== verification/Ratelimit.thy ===== *)
theory Ratelimit imports Strconv "HOL-Library.AList" "HOL-Library.Signed_Division" begin

text \<open>
  The rate limiter: \<^verbatim>\<open>internal/ratelimit/limiter.go\<close>.

  The limiter is a Lua script that Redis runs atomically, and the Go method that calls it. Redis'
  sorted sets are a parameter of the model (\<open>zset_ops\<close>, with the server's clock in
  milliseconds as an argument of each command) with their documented behaviour in the locale
  \<open>zset_server\<close>; the script is translated line by line over it. Client and server have
  clocks of their own. A call can fail before or after the script ran, and the client runs the script
  again when the reply of the first run is lost. Lua numbers are exact on
  the integers that occur (milliseconds since 1970 need 41 of the 53 bits).
\<close>

section \<open>Sorted sets\<close>

record 'z zset_ops =
  ZREMRANGEBYSCORE :: "'z \<Rightarrow> int \<Rightarrow> string \<Rightarrow> int \<Rightarrow> int \<Rightarrow> 'z"
  ZCARD :: "'z \<Rightarrow> int \<Rightarrow> string \<Rightarrow> nat"
  ZADD :: "'z \<Rightarrow> int \<Rightarrow> string \<Rightarrow> int \<Rightarrow> string \<Rightarrow> 'z"
  EXPIRE :: "'z \<Rightarrow> int \<Rightarrow> string \<Rightarrow> int \<Rightarrow> 'z"

text \<open>A key holds its members with their scores, and possibly the instant it expires at.\<close>

type_synonym zkey = "(string \<rightharpoonup> int) \<times> int option"

definition zview :: "zkey \<Rightarrow> int \<Rightarrow> zkey" where
  "zview x t = (case snd x of None \<Rightarrow> x | Some e \<Rightarrow> if e \<le> t then (Map.empty, None) else x)"

definition drop_scores :: "int \<Rightarrow> int \<Rightarrow> (string \<rightharpoonup> int) \<Rightarrow> string \<rightharpoonup> int" where
  "drop_scores lo hi m = (\<lambda>k. case m k of None \<Rightarrow> None | Some s \<Rightarrow> if lo \<le> s \<and> s \<le> hi then None else Some s)"

text \<open>A key whose last member is removed is gone, with its expiry.\<close>

definition zkey_of :: "(string \<rightharpoonup> int) \<Rightarrow> int option \<Rightarrow> zkey" where
  "zkey_of m d = (m, if m = Map.empty then None else d)"

locale zset_server =
  fixes Z :: "'z zset_ops" and zk :: "'z \<Rightarrow> string \<Rightarrow> zkey"
  assumes zk_finite: "finite (dom (fst (zk z k)))"
    and zk_REM: "zk (ZREMRANGEBYSCORE Z z t k lo hi) =
      (zk z)(k := zkey_of (drop_scores lo hi (fst (zview (zk z k) t))) (snd (zview (zk z k) t)))"
    and zk_CARD: "ZCARD Z z t k = card (dom (fst (zview (zk z k) t)))"
    and zk_ADD: "zk (ZADD Z z t k s m) =
      (zk z)(k := ((fst (zview (zk z k) t))(m \<mapsto> s), snd (zview (zk z k) t)))"
    and zk_EXPIRE: "0 < sec \<Longrightarrow> zk (EXPIRE Z z t k sec) =
      (zk z)(k := zkey_of (fst (zview (zk z k) t)) (Some (t + 1000 * sec)))"
begin

lemmas zset_laws = zk_REM zk_CARD zk_ADD zk_EXPIRE

end

section \<open>The limiter\<close>

definition allowScript ::
  "'z zset_ops \<Rightarrow> 'z \<Rightarrow> int \<Rightarrow> string \<Rightarrow> int \<Rightarrow> int \<Rightarrow> int \<Rightarrow> int \<Rightarrow> string \<Rightarrow> int \<times> 'z" where
  "allowScript Z z t key now_ms win_ms limit ttl_sec member =
     (let min_score = now_ms - win_ms;
          z = ZREMRANGEBYSCORE Z z t key 0 min_score;
          count = ZCARD Z z t key
      in if int count < limit then
           (let z = ZADD Z z t key now_ms member;
                z = EXPIRE Z z t key ttl_sec
            in (1, z))
         else (0, z))"

record 'z rate_limiter =
  memberCounter :: "64 word"
  client :: 'z

definition NewRateLimiter :: "64 word \<Rightarrow> 'z \<Rightarrow> 'z rate_limiter" where
  "NewRateLimiter counter cl = \<lparr>memberCounter = counter, client = cl\<rparr>"

text \<open>
  What becomes of the script call: the reply arrives; or the call fails before or after the script ran;
  or the reply of a first run is lost and the client sends the same call again, which is answered:
  \<open>Retried d\<close>, with \<open>d\<close> the milliseconds between the two runs on the server's clock.
\<close>

datatype script_call = Replied | LostBefore | LostAfter | Retried int

definition limiter_key :: "string \<Rightarrow> string" where
  "limiter_key userID = ''dns:ratelimit:'' @ userID"

definition limiter_member :: "int \<Rightarrow> 64 word \<Rightarrow> string" where
  "limiter_member nowMs n = show_int nowMs @ '':'' @ show_nat (unat n)"

text \<open>\<^verbatim>\<open>math.Ceil(window.Seconds())\<close>, exact for windows of up to 48 days.\<close>

definition ttl_seconds :: "time \<Rightarrow> int" where
  "ttl_seconds window = - ((- window) div second)"

definition AllowQuery ::
  "'z zset_ops \<Rightarrow> script_call \<Rightarrow> time \<Rightarrow> int \<Rightarrow> 'z rate_limiter \<Rightarrow> string \<Rightarrow> int \<Rightarrow> time \<Rightarrow>
   (unit + bool) \<times> 'z rate_limiter" where
  "AllowQuery Z call now server_ms rl userID limit window =
     (let key = limiter_key userID;
          nowMs = now div millisecond;
          winMs = window sdiv millisecond;
          ttlSec = ttl_seconds window;
          n = memberCounter rl + 1;
          rl = rl\<lparr>memberCounter := n\<rparr>;
          member = limiter_member nowMs n
      in if call = LostBefore then (Inl (), rl)
         else let (result, z) = allowScript Z (client rl) server_ms key nowMs winMs limit ttlSec member;
                  rl = rl\<lparr>client := z\<rparr>
              in case call of
                   LostAfter \<Rightarrow> (Inl (), rl)
                 | Retried d \<Rightarrow>
                     (let (result, z) = allowScript Z z (server_ms + d) key nowMs winMs limit ttlSec member
                      in (Inr (result = 1), rl\<lparr>client := z\<rparr>))
                 | _ \<Rightarrow> (Inr (result = 1), rl))"

section \<open>The reference: a log of recorded queries per user\<close>

text \<open>
  A query is recorded if fewer than \<open>limit\<close> recorded queries of that user are younger than the
  window, and is then admitted; a call that is retried counts itself once more, and is admitted only if
  there is still room after it has been recorded. The reference keeps every recorded query for ever and knows nothing of sorted sets,
  expiry or member names.
\<close>

record query =
  q_user :: string
  q_now :: time
  q_call :: script_call

definition recent :: "int \<Rightarrow> int \<Rightarrow> int list \<Rightarrow> nat" where
  "recent win now xs = length (filter (\<lambda>a. now - win < a) xs)"

definition log_answer :: "int \<Rightarrow> nat \<Rightarrow> script_call \<Rightarrow> unit + bool" where
  "log_answer limit count call =
     (case call of
        Replied \<Rightarrow> Inr (int count < limit)
      | Retried d \<Rightarrow> Inr (int count + 1 < limit)
      | _ \<Rightarrow> Inl ())"

fun log_run ::
  "int \<Rightarrow> int \<Rightarrow> (string \<Rightarrow> int list) \<Rightarrow> query list \<Rightarrow> (unit + bool) list \<times> (string \<Rightarrow> int list)" where
  "log_run limit win L [] = ([], L)"
| "log_run limit win L (q # qs) =
     (let now = q_now q div millisecond; u = q_user q;
          ok = int (recent win now (L u)) < limit;
          L' = (if ok \<and> q_call q \<noteq> LostBefore then L(u := now # L u) else L);
          ans = log_answer limit (recent win now (L u)) (q_call q);
          (as, L'') = log_run limit win L' qs
      in (ans # as, L''))"

fun limiter_run ::
  "'z zset_ops \<Rightarrow> int \<Rightarrow> int \<Rightarrow> time \<Rightarrow> 'z rate_limiter \<Rightarrow> query list \<Rightarrow> (unit + bool) list \<times> 'z rate_limiter" where
  "limiter_run Z off limit window rl [] = ([], rl)"
| "limiter_run Z off limit window rl (q # qs) =
     (let (a, rl') = AllowQuery Z (q_call q) (q_now q) (q_now q div millisecond + off) rl (q_user q) limit window;
          (as, rl'') = limiter_run Z off limit window rl' qs
      in (a # as, rl''))"

text \<open>
  A call that is retried is retried while the keys of the queries in the window are alive: by the
  server's clock, the second run comes later than the first by no more than the lifetime of the key
  exceeds the window.
\<close>

definition in_time :: "time \<Rightarrow> int \<Rightarrow> bool" where
  "in_time window d \<longleftrightarrow> 0 \<le> d \<and> d + window sdiv millisecond \<le> 1000 * ttl_seconds window \<and> millisecond \<le> window"

definition retries_in_time :: "time \<Rightarrow> query list \<Rightarrow> bool" where
  "retries_in_time window qs \<longleftrightarrow> (\<forall>q \<in> set qs. \<forall>d. q_call q = Retried d \<longrightarrow> in_time window d)"

section \<open>Lemmas\<close>

lemma limiter_key_inj [simp]: "limiter_key u = limiter_key v \<longleftrightarrow> u = v"
  by (simp add: limiter_key_def)

lemma limiter_member_inj: "limiter_member a m = limiter_member b n \<longleftrightarrow> a = b \<and> m = n"
  by (auto simp: limiter_member_def append_sep_eq show_int_inj show_nat_inj word_eq_iff_unsigned [symmetric])

lemma AllowQuery_eq:
  assumes "allowScript Z (client rl) server_ms (limiter_key u) (now div millisecond) (window sdiv millisecond)
    limit (ttl_seconds window) (limiter_member (now div millisecond) (memberCounter rl + 1)) = (res, z)"
  shows "AllowQuery Z call now server_ms rl u limit window =
    (case call of
       LostBefore \<Rightarrow> (Inl (), rl\<lparr>memberCounter := memberCounter rl + 1\<rparr>)
     | LostAfter \<Rightarrow> (Inl (), rl\<lparr>memberCounter := memberCounter rl + 1, client := z\<rparr>)
     | Replied \<Rightarrow> (Inr (res = 1), rl\<lparr>memberCounter := memberCounter rl + 1, client := z\<rparr>)
     | Retried d \<Rightarrow>
         (let (res', z') = allowScript Z z (server_ms + d) (limiter_key u) (now div millisecond) (window sdiv millisecond)
            limit (ttl_seconds window) (limiter_member (now div millisecond) (memberCounter rl + 1))
          in (Inr (res' = 1), rl\<lparr>memberCounter := memberCounter rl + 1, client := z'\<rparr>)))"
  using assms by (simp add: AllowQuery_def Let_def split: script_call.split)

lemma zview_None [simp]: "zview (m, None) t = (m, None)"
  by (simp add: zview_def)

lemma drop_scores_Some: "drop_scores lo hi m k = Some s \<longleftrightarrow> m k = Some s \<and> \<not> (lo \<le> s \<and> s \<le> hi)"
  by (auto simp: drop_scores_def split: option.splits)

lemma fst_zkey_of [simp]: "fst (zkey_of m d) = m"
  by (simp add: zkey_of_def)

lemma zview_zkey_of: "(\<And>e. d = Some e \<Longrightarrow> t < e) \<Longrightarrow> zview (zkey_of m d) t = zkey_of m d"
  by (auto simp: zview_def zkey_of_def split: option.splits)

lemma snd_zview: "snd (zview x t) = Some e \<Longrightarrow> t < e \<and> snd x = Some e"
  by (auto simp: zview_def split: option.splits if_splits)

lemma fst_zview: "fst (zview x t) = (case snd x of Some e \<Rightarrow> if e \<le> t then Map.empty else fst x | None \<Rightarrow> fst x)"
  by (simp add: zview_def split: option.splits)

lemma ttl_covers:
  assumes "0 < window"
  shows "0 < ttl_seconds window" and "window sdiv millisecond \<le> 1000 * ttl_seconds window"
proof -
  have s: "window sdiv millisecond = window div millisecond"
    using assms by (simp add: signed_divide_int_def)
  let ?q = "(- window) div second"
  have q: "?q * second \<le> - window" by (metis div_mult_mod_eq le_add_same_cancel1 pos_mod_sign zero_less_numeral)
  then have "?q < 0" using assms by simp
  then show "0 < ttl_seconds window" by (simp add: ttl_seconds_def)
  have "window \<le> - ?q * second" using q by simp
  then have "window div millisecond \<le> (- ?q * second) div millisecond" by (intro zdiv_mono1) auto
  also have "\<dots> = - ?q * 1000"
  proof -
    have "- ?q * second = (- ?q * 1000) * millisecond" by simp
    then show ?thesis by (metis nonzero_mult_div_cancel_right zero_neq_numeral)
  qed
  finally show "window sdiv millisecond \<le> 1000 * ttl_seconds window" unfolding s by (simp add: ttl_seconds_def)
qed


section \<open>The sorted set tracks the log\<close>

text \<open>
  The ghost list \<open>L\<close> pairs each recorded query with its member name. What the key holds comes
  from the list, and every query of the list younger than the window is held by the key, which
  does not expire before it is older than the window.
\<close>

definition tracks ::
  "int \<Rightarrow> int \<Rightarrow> int \<Rightarrow> 64 word set \<Rightarrow> int \<Rightarrow> (string \<times> int) list \<Rightarrow> zkey \<Rightarrow> bool" where
  "tracks win ttl off issued prev L x \<longleftrightarrow>
     distinct (map fst L) \<and>
     (\<forall>(m, a) \<in> set L. 0 \<le> a \<and> a \<le> prev \<and> (\<exists>n \<in> issued. m = limiter_member a n)) \<and>
     (\<forall>m a. fst x m = Some a \<longrightarrow> (m, a) \<in> set L) \<and>
     (\<forall>(m, a) \<in> set L. prev - win < a \<longrightarrow> fst x m = Some a) \<and>
     (\<forall>e. snd x = Some e \<longrightarrow> (\<forall>(m, a) \<in> set L. a + off + 1000 * ttl \<le> e))"

lemma tracksD:
  assumes "tracks win ttl off issued prev L x"
  shows "distinct (map fst L)"
    and "(m, a) \<in> set L \<Longrightarrow> 0 \<le> a \<and> a \<le> prev \<and> (\<exists>n \<in> issued. m = limiter_member a n)"
    and "fst x m = Some a \<Longrightarrow> (m, a) \<in> set L"
    and "(m, a) \<in> set L \<Longrightarrow> prev - win < a \<Longrightarrow> fst x m = Some a"
    and "snd x = Some e \<Longrightarrow> (m, a) \<in> set L \<Longrightarrow> a + off + 1000 * ttl \<le> e"
  using assms unfolding tracks_def by blast+

lemma tracksI:
  assumes "distinct (map fst L)"
    and "\<And>m a. (m, a) \<in> set L \<Longrightarrow> 0 \<le> a \<and> a \<le> prev \<and> (\<exists>n \<in> issued. m = limiter_member a n)"
    and "\<And>m a. fst x m = Some a \<Longrightarrow> (m, a) \<in> set L"
    and "\<And>m a. (m, a) \<in> set L \<Longrightarrow> prev - win < a \<Longrightarrow> fst x m = Some a"
    and "\<And>e m a. snd x = Some e \<Longrightarrow> (m, a) \<in> set L \<Longrightarrow> a + off + 1000 * ttl \<le> e"
  shows "tracks win ttl off issued prev L x"
  using assms unfolding tracks_def by blast

lemma tracks_later:
  "tracks win ttl off issued prev L x \<Longrightarrow> prev \<le> prev' \<Longrightarrow> issued \<subseteq> issued' \<Longrightarrow>
   tracks win ttl off issued' prev' L x"
  unfolding tracks_def by fastforce

lemma tracks_empty: "tracks win ttl off issued prev [] (Map.empty, None)"
  by (simp add: tracks_def)

text \<open>
  After the script has purged the key, it holds exactly the recent queries. The server's clock shows
  \<open>st\<close>, which may be later than the call, but not by more than the key lives longer than the window.
\<close>

lemma tracks_purge:
  assumes "tracks win ttl off issued prev L x" and "prev \<le> now" and "st + win \<le> now + off + 1000 * ttl"
  shows "drop_scores 0 (now - win) (fst (zview x st)) m = Some a \<longleftrightarrow> (m, a) \<in> set L \<and> now - win < a"
proof
  assume "drop_scores 0 (now - win) (fst (zview x st)) m = Some a"
  then have "fst x m = Some a" "\<not> (0 \<le> a \<and> a \<le> now - win)"
    by (auto simp: drop_scores_Some fst_zview split: option.splits if_splits)
  with assms(1) show "(m, a) \<in> set L \<and> now - win < a" by (fastforce simp: tracks_def)
next
  assume a: "(m, a) \<in> set L \<and> now - win < a"
  then have "prev - win < a" using assms(2) by simp
  with a assms(1) have "fst x m = Some a" by (fastforce simp: tracks_def)
  moreover have "st < e" if "snd x = Some e" for e
  proof -
    have "a + off + 1000 * ttl \<le> e" using that a assms(1) by (fastforce simp: tracks_def)
    with a assms(3) show ?thesis by linarith
  qed
  ultimately show "drop_scores 0 (now - win) (fst (zview x st)) m = Some a"
    using a by (auto simp: drop_scores_Some fst_zview split: option.splits if_splits)
qed

lemma tracks_recent:
  assumes "tracks win ttl off issued prev L x" and "prev \<le> now" and "st + win \<le> now + off + 1000 * ttl"
  shows "card (dom (drop_scores 0 (now - win) (fst (zview x st)))) = recent win now (map snd L)"
proof -
  let ?F = "filter (\<lambda>p. now - win < snd p) L"
  have "dom (drop_scores 0 (now - win) (fst (zview x st))) = set (map fst ?F)"
    using tracks_purge [OF assms] by (force simp: dom_def)
  moreover have "distinct (map fst ?F)" using assms(1) by (simp add: tracks_def distinct_map_filter)
  ultimately show ?thesis
    using distinct_card [of "map fst ?F"] by (simp add: recent_def filter_map comp_def)
qed

text \<open>The key after a query that was not recorded, and after one that was.\<close>

lemma tracks_skip:
  assumes "tracks win ttl off issued prev L x" and "prev \<le> now" and "st + win \<le> now + off + 1000 * ttl"
  shows "tracks win ttl off issued now L
           (zkey_of (drop_scores 0 (now - win) (fst (zview x st))) (snd (zview x st)))"
proof (rule tracksI)
  fix e m a
  assume "snd (zkey_of (drop_scores 0 (now - win) (fst (zview x st))) (snd (zview x st))) = Some e"
    and m: "(m, a) \<in> set L"
  then have "snd x = Some e" by (auto simp: zkey_of_def split: if_splits dest: snd_zview)
  then show "a + off + 1000 * ttl \<le> e" using m by (rule tracksD(5) [OF assms(1)])
next
  fix m a assume "(m, a) \<in> set L"
  then show "0 \<le> a \<and> a \<le> now \<and> (\<exists>n \<in> issued. m = limiter_member a n)"
    using tracksD(2) [OF assms(1)] assms(2) by force
qed (use tracksD(1) [OF assms(1)] tracks_purge [OF assms] in auto)

text \<open>And after a query that is recorded once more, under the same name.\<close>

lemma tracks_again:
  assumes "tracks win ttl off issued now L x" and "(mem, now) \<in> set L" and "st + win \<le> now + off + 1000 * ttl"
    and "now + off \<le> st" and "0 < win"
  shows "tracks win ttl off issued now L
           ((drop_scores 0 (now - win) (fst (zview x st)))(mem \<mapsto> now), Some (st + 1000 * ttl))"
proof -
  have "drop_scores 0 (now - win) (fst (zview x st)) mem = Some now"
    using tracks_purge [OF assms(1) order_refl assms(3)] assms(2,5) by simp
  then have same: "(drop_scores 0 (now - win) (fst (zview x st)))(mem \<mapsto> now) = drop_scores 0 (now - win) (fst (zview x st))"
    by (simp add: map_upd_triv)
  show ?thesis unfolding same
  proof (rule tracksI)
    fix e m a
    assume "snd (drop_scores 0 (now - win) (fst (zview x st)), Some (st + 1000 * ttl)) = Some e" and m: "(m, a) \<in> set L"
    with tracksD(2) [OF assms(1) m] assms(4) show "a + off + 1000 * ttl \<le> e" by simp
  qed (use tracksD(1,2) [OF assms(1)] tracks_purge [OF assms(1) order_refl assms(3)] in auto)
qed

lemma tracks_record:
  assumes "tracks win ttl off issued prev L x" and "prev \<le> now" and "0 \<le> now" and "win \<le> 1000 * ttl"
    and "n \<notin> issued"
  shows "tracks win ttl off (insert n issued) now ((limiter_member now n, now) # L)
           ((drop_scores 0 (now - win) (fst (zview x (now + off))))(limiter_member now n \<mapsto> now),
            Some (now + off + 1000 * ttl))"
proof -
  have L: "0 \<le> a \<and> a \<le> now \<and> (\<exists>n' \<in> issued. m = limiter_member a n')" if "(m, a) \<in> set L" for m a
    using tracksD(2) [OF assms(1) that] assms(2) by force
  then have new: "(limiter_member now n, a) \<notin> set L" for a
    using assms(5) by (metis limiter_member_inj)
  show ?thesis
  proof (rule tracksI)
    fix m a assume "(m, a) \<in> set ((limiter_member now n, now) # L)"
    then show "0 \<le> a \<and> a \<le> now \<and> (\<exists>n \<in> insert n issued. m = limiter_member a n)"
      using L assms(3) by auto
  qed (use tracksD(1) [OF assms(1)] tracks_purge [OF assms(1,2), of "now + off"] assms(4) L new in \<open>auto split: if_splits\<close>)
qed

context zset_server
begin

lemma allowScript_tracks:
  assumes tr: "tracks win ttl off issued prev L (zk z key)"
    and "prev \<le> now" and "0 \<le> now" and "0 < ttl" and "win \<le> 1000 * ttl" and "n \<notin> issued"
    and run: "allowScript Z z (now + off) key now win limit ttl (limiter_member now n) = (res, z')"
  shows "res = (if int (recent win now (map snd L)) < limit then 1 else 0)"
    and "k \<noteq> key \<Longrightarrow> zk z' k = zk z k"
    and "tracks win ttl off (insert n issued) now
           (if int (recent win now (map snd L)) < limit then (limiter_member now n, now) # L else L) (zk z' key)"
proof -
  let ?v = "zview (zk z key) (now + off)"
  let ?m = "drop_scores 0 (now - win) (fst ?v)" and ?mem = "limiter_member now n"
  let ?z1 = "ZREMRANGEBYSCORE Z z (now + off) key 0 (now - win)"
  have z1: "zk ?z1 = (zk z)(key := zkey_of ?m (snd ?v))" by (simp add: zk_REM)
  have v1: "zview (zkey_of ?m (snd ?v)) (now + off) = zkey_of ?m (snd ?v)"
    by (rule zview_zkey_of) (auto dest: snd_zview)
  have count: "ZCARD Z ?z1 (now + off) key = recent win now (map snd L)"
    using tracks_recent [OF tr assms(2), of "now + off"] assms(5) by (simp add: zk_CARD z1 v1)
  let ?z2 = "ZADD Z ?z1 (now + off) key now ?mem"
  have z2: "zk ?z2 = (zk z)(key := (?m(?mem \<mapsto> now), snd (zkey_of ?m (snd ?v))))"
    by (simp add: zk_ADD z1 v1)
  have v2: "fst (zview (?m(?mem \<mapsto> now), snd (zkey_of ?m (snd ?v))) (now + off)) = ?m(?mem \<mapsto> now)"
    by (auto simp: fst_zview zkey_of_def dest: snd_zview split: option.splits)
  have z3: "zk (EXPIRE Z ?z2 (now + off) key ttl) =
      (zk z)(key := (?m(?mem \<mapsto> now), Some (now + off + 1000 * ttl)))"
    unfolding zk_EXPIRE [OF \<open>0 < ttl\<close>] z2 fun_upd_same v2 by (simp add: zkey_of_def)
  show "res = (if int (recent win now (map snd L)) < limit then 1 else 0)" and "k \<noteq> key \<Longrightarrow> zk z' k = zk z k"
    using run by (auto simp: allowScript_def Let_def count z1 z3 split: if_splits)
  have skip: "tracks win ttl off (insert n issued) now L (zkey_of ?m (snd ?v))"
    using tracks_later [OF tracks_skip [OF tr assms(2), of "now + off"] order_refl subset_insertI] assms(5) by simp
  show "tracks win ttl off (insert n issued) now
           (if int (recent win now (map snd L)) < limit then (limiter_member now n, now) # L else L) (zk z' key)"
  proof (cases "int (recent win now (map snd L)) < limit")
    case True
    with run have "zk z' key = (?m(?mem \<mapsto> now), Some (now + off + 1000 * ttl))"
      by (auto simp: allowScript_def Let_def count z3)
    with True tracks_record [OF tr assms(2,3,5,6)] show ?thesis by simp
  next
    case False
    with run have "zk z' key = zkey_of ?m (snd ?v)" by (auto simp: allowScript_def Let_def count z1)
    with False skip show ?thesis by simp
  qed
qed

text \<open>The same call once more: it finds itself in the log if it has been recorded.\<close>

lemma allowScript_again:
  assumes tr: "tracks win ttl off issued now L (zk z key)" and mem: "mem \<notin> fst ` set L \<Longrightarrow> limit \<le> int (recent win now (map snd L))"
    and score: "\<And>a. (mem, a) \<in> set L \<Longrightarrow> a = now"
    and "0 < ttl" and "0 < win" and "now + off \<le> st" and "st + win \<le> now + off + 1000 * ttl"
    and run: "allowScript Z z st key now win limit ttl mem = (res, z')"
  shows "res = (if int (recent win now (map snd L)) < limit then 1 else 0)"
    and "k \<noteq> key \<Longrightarrow> zk z' k = zk z k" and "tracks win ttl off issued now L (zk z' key)"
proof -
  let ?v = "zview (zk z key) st"
  let ?m = "drop_scores 0 (now - win) (fst ?v)"
  let ?z1 = "ZREMRANGEBYSCORE Z z st key 0 (now - win)"
  have z1: "zk ?z1 = (zk z)(key := zkey_of ?m (snd ?v))" by (simp add: zk_REM)
  have v1: "zview (zkey_of ?m (snd ?v)) st = zkey_of ?m (snd ?v)"
    by (rule zview_zkey_of) (auto dest: snd_zview)
  have count: "ZCARD Z ?z1 st key = recent win now (map snd L)"
    using tracks_recent [OF tr order_refl assms(7)] by (simp add: zk_CARD z1 v1)
  let ?z2 = "ZADD Z ?z1 st key now mem"
  have z2: "zk ?z2 = (zk z)(key := (?m(mem \<mapsto> now), snd (zkey_of ?m (snd ?v))))" by (simp add: zk_ADD z1 v1)
  have v2: "fst (zview (?m(mem \<mapsto> now), snd (zkey_of ?m (snd ?v))) st) = ?m(mem \<mapsto> now)"
    by (auto simp: fst_zview zkey_of_def dest: snd_zview split: option.splits)
  have z3: "zk (EXPIRE Z ?z2 st key ttl) = (zk z)(key := (?m(mem \<mapsto> now), Some (st + 1000 * ttl)))"
    unfolding zk_EXPIRE [OF \<open>0 < ttl\<close>] z2 fun_upd_same v2 by (simp add: zkey_of_def)
  show "res = (if int (recent win now (map snd L)) < limit then 1 else 0)" and "k \<noteq> key \<Longrightarrow> zk z' k = zk z k"
    using run by (auto simp: allowScript_def Let_def count z1 z3 split: if_splits)
  show "tracks win ttl off issued now L (zk z' key)"
  proof (cases "int (recent win now (map snd L)) < limit")
    case True
    with mem score have "(mem, now) \<in> set L" by force
    note tracks_again [OF tr this assms(7,6,5)]
    moreover have "zk z' key = (?m(mem \<mapsto> now), Some (st + 1000 * ttl))"
      using run True by (auto simp: allowScript_def Let_def count z3)
    ultimately show ?thesis by simp
  next
    case False
    with run have "zk z' key = zkey_of ?m (snd ?v)" by (auto simp: allowScript_def Let_def count z1)
    with tracks_skip [OF tr order_refl assms(7)] show ?thesis by simp
  qed
qed

definition limiter_rel ::
  "int \<Rightarrow> time \<Rightarrow> 64 word set \<Rightarrow> int \<Rightarrow> 'z rate_limiter \<Rightarrow> (string \<Rightarrow> int list) \<Rightarrow> bool" where
  "limiter_rel off window issued prev rl Lg \<longleftrightarrow>
     (\<forall>u. \<exists>M. map snd M = Lg u \<and>
        tracks (window sdiv millisecond) (ttl_seconds window) off issued prev M (zk (client rl) (limiter_key u)))"

text \<open>One query keeps the relation and is answered as the reference answers it.\<close>

lemma AllowQuery_rel:
  assumes rel: "limiter_rel off window issued prev rl Lg" and "0 < window"
    and "prev \<le> now div millisecond" and "0 \<le> now" and new: "memberCounter rl + 1 \<notin> issued"
    and again: "\<And>d. call = Retried d \<Longrightarrow> in_time window d"
    and run: "AllowQuery Z call now (now div millisecond + off) rl u limit window = (a, rl')"
  defines "ok \<equiv> int (recent (window sdiv millisecond) (now div millisecond) (Lg u)) < limit"
  shows "a = log_answer limit (recent (window sdiv millisecond) (now div millisecond) (Lg u)) call"
    and "memberCounter rl' = memberCounter rl + 1"
    and "limiter_rel off window (insert (memberCounter rl + 1) issued) (now div millisecond) rl'
           (if ok \<and> call \<noteq> LostBefore then Lg(u := now div millisecond # Lg u) else Lg)"
proof -
  let ?n = "memberCounter rl + 1" and ?now = "now div millisecond"
  let ?win = "window sdiv millisecond" and ?ttl = "ttl_seconds window" and ?key = "limiter_key u"
  let ?mem = "limiter_member ?now ?n"
  obtain res z' where sc: "allowScript Z (client rl) (?now + off) ?key ?now ?win limit ?ttl ?mem = (res, z')"
    by (metis surj_pair)
  obtain M where M: "map snd M = Lg u" "tracks ?win ?ttl off issued prev M (zk (client rl) ?key)"
    using rel by (auto simp: limiter_rel_def)
  have "0 \<le> ?now" using \<open>0 \<le> now\<close> by (simp add: pos_imp_zdiv_nonneg_iff)
  note st = allowScript_tracks [OF M(2) \<open>prev \<le> ?now\<close> this ttl_covers [OF \<open>0 < window\<close>] new sc, unfolded M(1), folded ok_def]
  let ?M = "if ok then (?mem, ?now) # M else M"
  have snd_M: "map snd ?M = (if ok then ?now # Lg u else Lg u)" using M(1) by simp
  have more: "recent ?win ?now (map snd ?M) = (if ok then 1 + recent ?win ?now (Lg u) else recent ?win ?now (Lg u))"
    if "0 < ?win" using that unfolding snd_M by (simp add: recent_def)
  have score: "a = ?now" if "(?mem, a) \<in> set ?M" for a
    using that tracksD(2) [OF M(2), of ?mem a] by (auto simp: limiter_member_inj split: if_splits)
  have mem: "limit \<le> int (recent ?win ?now (map snd ?M))" if "?mem \<notin> fst ` set ?M"
    using that snd_M by (auto simp: ok_def split: if_splits)
  have twice: "res2 = (if ok \<and> int (recent ?win ?now (Lg u)) + 1 < limit then 1 else 0)" "k \<noteq> ?key \<Longrightarrow> zk z2 k = zk z' k"
      "tracks ?win ?ttl off (insert ?n issued) ?now ?M (zk z2 ?key)"
    if "call = Retried d" "allowScript Z z' (?now + off + d) ?key ?now ?win limit ?ttl ?mem = (res2, z2)" for d res2 z2 k
  proof -
    have w: "0 < ?win"
    proof -
      have "millisecond \<le> window" using again [OF that(1)] by (simp add: in_time_def)
      moreover from this have "millisecond div millisecond \<le> window div millisecond" by (rule zdiv_mono1) simp
      ultimately show ?thesis by (simp add: signed_divide_int_def)
    qed
    have t: "?now + off \<le> ?now + off + d" "?now + off + d + ?win \<le> ?now + off + 1000 * ?ttl"
      using again [OF that(1)] by (simp_all add: in_time_def)
    note ag = allowScript_again [OF st(3) mem score ttl_covers(1) [OF \<open>0 < window\<close>] w t that(2)]
    show "res2 = (if ok \<and> int (recent ?win ?now (Lg u)) + 1 < limit then 1 else 0)"
      using ag(1) unfolding more [OF w] by (auto simp: ok_def)
    show "k \<noteq> ?key \<Longrightarrow> zk z2 k = zk z' k" by (rule ag(2))
    show "tracks ?win ?ttl off (insert ?n issued) ?now ?M (zk z2 ?key)" by (rule ag(3))
  qed
  note eq = run [unfolded AllowQuery_eq [OF sc]]
  show "a = log_answer limit (recent ?win ?now (Lg u)) call" "memberCounter rl' = memberCounter rl + 1"
  proof -
    show "memberCounter rl' = memberCounter rl + 1" using eq by (auto split: script_call.splits prod.splits)
    show "a = log_answer limit (recent ?win ?now (Lg u)) call"
    proof (cases call)
      case (Retried d)
      obtain res2 z2 where "allowScript Z z' (?now + off + d) ?key ?now ?win limit ?ttl ?mem = (res2, z2)" by (metis surj_pair)
      with twice(1) [OF Retried this] eq Retried show ?thesis by (auto simp: log_answer_def ok_def split: if_splits)
    qed (use eq st(1) in \<open>auto simp: log_answer_def ok_def split: if_splits\<close>)
  qed
  have later: "\<exists>M. map snd M = Lg v \<and> tracks ?win ?ttl off (insert ?n issued) ?now M (zk (client rl) (limiter_key v))" for v
    using rel \<open>prev \<le> ?now\<close> unfolding limiter_rel_def by (meson subset_insertI tracks_later)
  have cl: "if call = LostBefore then client rl' = client rl
      else (\<forall>k. k \<noteq> ?key \<longrightarrow> zk (client rl') k = zk (client rl) k) \<and>
        tracks ?win ?ttl off (insert ?n issued) ?now ?M (zk (client rl') ?key)"
  proof (cases call)
    case (Retried d)
    obtain res2 z2 where again: "allowScript Z z' (?now + off + d) ?key ?now ?win limit ?ttl ?mem = (res2, z2)" by (metis surj_pair)
    with twice(2,3) [OF Retried again] eq Retried st(2) show ?thesis by auto
  qed (use eq st(2,3) in auto)
  show "limiter_rel off window (insert ?n issued) ?now rl' (if ok \<and> call \<noteq> LostBefore then Lg(u := ?now # Lg u) else Lg)"
    unfolding limiter_rel_def
  proof
    fix v
    show "\<exists>M. map snd M = (if ok \<and> call \<noteq> LostBefore then Lg(u := ?now # Lg u) else Lg) v \<and>
        tracks ?win ?ttl off (insert ?n issued) ?now M (zk (client rl') (limiter_key v))"
    proof (cases "call = LostBefore")
      case True
      with cl later [of v] show ?thesis by simp
    next
      case False
      show ?thesis
      proof (cases "v = u")
        case True
        with False cl snd_M show ?thesis by (intro exI [of _ ?M]) simp
      next
        case other: False
        with False cl later [of v] show ?thesis by simp
      qed
    qed
  qed
qed

lemma limiter_run_log:
  assumes "limiter_rel off window issued prev rl Lg" and "0 < window"
    and "sorted (map q_now qs)" and "\<And>q. q \<in> set qs \<Longrightarrow> 0 \<le> q_now q \<and> prev \<le> q_now q div millisecond"
    and "\<And>i. 1 \<le> i \<Longrightarrow> i \<le> length qs \<Longrightarrow> memberCounter rl + word_of_nat i \<notin> issued" and "length qs < 2 ^ 64"
    and "retries_in_time window qs"
  shows "fst (limiter_run Z off limit window rl qs) = fst (log_run limit (window sdiv millisecond) Lg qs)"
  using assms
proof (induction qs arbitrary: issued prev rl Lg)
  case (Cons q qs)
  let ?now = "q_now q div millisecond"
  obtain a rl' where run: "AllowQuery Z (q_call q) (q_now q) (?now + off) rl (q_user q) limit window = (a, rl')"
    by (metis surj_pair)
  have new: "memberCounter rl + 1 \<notin> issued" using Cons.prems(5) [of 1] by simp
  have t: "prev \<le> ?now" "0 \<le> q_now q" using Cons.prems(4) by simp_all
  have r: "in_time window d" if "q_call q = Retried d" for d using Cons.prems(7) that by (auto simp: retries_in_time_def)
  have rs: "retries_in_time window qs" using Cons.prems(7) by (simp add: retries_in_time_def)
  note st = AllowQuery_rel [OF Cons.prems(1,2) t new r run]
  have "0 \<le> q_now q' \<and> ?now \<le> q_now q' div millisecond" if "q' \<in> set qs" for q'
    using Cons.prems(3,4) that by (auto intro: zdiv_mono1)
  moreover have "memberCounter rl' + word_of_nat i \<notin> insert (memberCounter rl + 1) issued"
    if "1 \<le> i" "i \<le> length qs" for i
  proof -
    have "(word_of_nat i :: 64 word) \<noteq> 0"
      using that Cons.prems(6) by (simp add: word_of_nat_eq_0_iff nat_dvd_not_less)
    moreover have "memberCounter rl + word_of_nat (Suc i) \<notin> issued" using Cons.prems(5) [of "Suc i"] that by simp
    ultimately show ?thesis by (simp add: st(2) ac_simps)
  qed
  ultimately have "fst (limiter_run Z off limit window rl' qs) = fst (log_run limit (window sdiv millisecond)
      (if int (recent (window sdiv millisecond) ?now (Lg (q_user q))) < limit \<and> q_call q \<noteq> LostBefore
       then Lg(q_user q := ?now # Lg (q_user q)) else Lg) qs)"
    using Cons.prems rs by (intro Cons.IH [OF st(3)]) auto
  then show ?case using run st(1) by (simp add: Let_def case_prod_beta del: if_split)
qed simp

lemma limiter_rel_start:
  "(\<And>u. zk z (limiter_key u) = (Map.empty, None)) \<Longrightarrow>
   limiter_rel off window issued 0 (NewRateLimiter c z) (\<lambda>_. [])"
  by (simp add: limiter_rel_def NewRateLimiter_def tracks_empty)

text \<open>From fresh keys, the script answers as the reference does.\<close>

lemma limiter_run_fresh:
  assumes "\<And>u. zk z (limiter_key u) = (Map.empty, None)" and "0 < window"
    and "sorted (map q_now qs)" and "\<And>q. q \<in> set qs \<Longrightarrow> 0 \<le> q_now q" and "length qs < 2 ^ 64"
    and "retries_in_time window qs"
  shows "fst (limiter_run Z off limit window (NewRateLimiter c z) qs) =
         fst (log_run limit (window sdiv millisecond) (\<lambda>_. []) qs)"
  using assms
  by (intro limiter_run_log [where issued = "{}" and prev = 0] limiter_rel_start)
    (auto simp: pos_imp_zdiv_nonneg_iff)

end

section \<open>What the reference promises\<close>

fun log_ok :: "int \<Rightarrow> int \<Rightarrow> int list \<Rightarrow> bool" where
  "log_ok limit win [] = True"
| "log_ok limit win (x # xs) = (int (recent win x (x # xs)) \<le> limit \<and> log_ok limit win xs)"

abbreviation in_window :: "int \<Rightarrow> int \<Rightarrow> int \<Rightarrow> bool" where
  "in_window win T a \<equiv> T - win < a \<and> a \<le> T"

lemma log_ok_window:
  "log_ok limit win xs \<Longrightarrow> 0 \<le> limit \<Longrightarrow> int (length (filter (in_window win T) xs)) \<le> limit"
proof (induction xs)
  case (Cons x xs)
  show ?case
  proof (cases "in_window win T x")
    case True
    have "length (filter (in_window win T) (x # xs)) \<le> length (filter (\<lambda>a. x - win < a) (x # xs))"
      unfolding length_filter_conv_card using True by (intro card_mono) auto
    with Cons.prems show ?thesis by (simp add: recent_def)
  next
    case False
    with Cons show ?thesis by auto
  qed
qed simp

text \<open>The queries of a user that were admitted, oldest first, are recorded in the log.\<close>

definition admitted :: "string \<Rightarrow> query list \<Rightarrow> (unit + bool) list \<Rightarrow> int list" where
  "admitted u qs as = map (\<lambda>(q, a). q_now q div millisecond)
     (filter (\<lambda>(q, a). q_user q = u \<and> a = Inr True) (zip qs as))"

lemma log_run_admitted:
  assumes "log_run limit win Lg qs = (as, Lg')"
  shows "\<exists>rec. Lg' u = rev rec @ Lg u \<and> subseq (admitted u qs as) rec"
  using assms
proof (induction qs arbitrary: Lg as)
  case (Cons q qs)
  let ?now = "q_now q div millisecond"
  let ?ok = "int (recent win ?now (Lg (q_user q))) < limit"
  let ?L = "if ?ok \<and> q_call q \<noteq> LostBefore then Lg(q_user q := ?now # Lg (q_user q)) else Lg"
  obtain bs where bs: "log_run limit win ?L qs = (bs, Lg')"
    and as: "as = log_answer limit (recent win ?now (Lg (q_user q))) (q_call q) # bs"
    using Cons.prems by (auto simp: Let_def split: prod.splits)
  have yes: "?ok \<and> q_call q \<noteq> LostBefore" if "log_answer limit (recent win ?now (Lg (q_user q))) (q_call q) = Inr True"
    using that by (auto simp: log_answer_def split: script_call.splits)
  from Cons.IH [OF bs] obtain rec where rec: "Lg' u = rev rec @ ?L u" "subseq (admitted u qs bs) rec" by blast
  show ?case
  proof (cases "?ok \<and> q_call q \<noteq> LostBefore \<and> q_user q = u")
    case True
    with rec show ?thesis by (intro exI [of _ "?now # rec"]) (auto simp: as admitted_def)
  next
    case False
    with rec yes show ?thesis by (intro exI [of _ rec]) (auto simp: as admitted_def)
  qed
qed (simp add: admitted_def)

lemma recent_Cons_self: "recent win x (x # xs) \<le> Suc (recent win x xs)"
  by (simp add: recent_def)

lemma log_run_ok:
  "log_run limit win Lg qs = (as, Lg') \<Longrightarrow> (\<And>u. log_ok limit win (Lg u)) \<Longrightarrow> log_ok limit win (Lg' u)"
proof (induction qs arbitrary: Lg as)
  case (Cons q qs)
  let ?now = "q_now q div millisecond"
  let ?ok = "int (recent win ?now (Lg (q_user q))) < limit"
  let ?L = "if ?ok \<and> q_call q \<noteq> LostBefore then Lg(q_user q := ?now # Lg (q_user q)) else Lg"
  have "log_ok limit win (?L v)" for v
    using Cons.prems(2) recent_Cons_self [of win ?now "Lg (q_user q)"] by auto
  with Cons show ?case by (auto simp: Let_def split: prod.splits)
qed simp

lemma log_run_bound:
  assumes "0 \<le> limit"
  shows "int (length (filter (in_window win T) (admitted u qs (fst (log_run limit win (\<lambda>_. []) qs))))) \<le> limit"
proof -
  obtain as Lg where run: "log_run limit win (\<lambda>_. []) qs = (as, Lg)" by (metis surj_pair)
  obtain rec where rec: "Lg u = rev rec" "subseq (admitted u qs as) rec"
    using log_run_admitted [OF run, of u] by auto
  have "length (filter (in_window win T) (admitted u qs as)) \<le> length (filter (in_window win T) rec)"
    using rec(2) by (metis list_emb_length subseq_filter)
  also have "\<dots> = length (filter (in_window win T) (Lg u))" by (simp add: rec(1) rev_filter [symmetric])
  finally show ?thesis
    using log_ok_window [OF log_run_ok [OF run, of u] assms, of T] run by simp
qed


section \<open>An executable sorted set server\<close>

type_synonym mem_zset = "string \<Rightarrow> (string \<times> int) list \<times> int option"

definition mz_live :: "mem_zset \<Rightarrow> int \<Rightarrow> string \<Rightarrow> (string \<times> int) list \<times> int option" where
  "mz_live z t k = (case snd (z k) of None \<Rightarrow> z k | Some e \<Rightarrow> if e \<le> t then ([], None) else z k)"

definition mz_key :: "(string \<times> int) list \<Rightarrow> int option \<Rightarrow> (string \<times> int) list \<times> int option" where
  "mz_key xs d = (xs, if xs = [] then None else d)"

definition mem_zset_ops :: "mem_zset zset_ops" where
  "mem_zset_ops =
     \<lparr>ZREMRANGEBYSCORE = (\<lambda>z t k lo hi.
        z(k := mz_key (filter (\<lambda>(m, s). \<not> (lo \<le> s \<and> s \<le> hi)) (AList.clearjunk (fst (mz_live z t k))))
                      (snd (mz_live z t k)))),
      ZCARD = (\<lambda>z t k. length (AList.clearjunk (fst (mz_live z t k)))),
      ZADD = (\<lambda>z t k s m. z(k := (AList.update m s (fst (mz_live z t k)), snd (mz_live z t k)))),
      EXPIRE = (\<lambda>z t k sec. z(k := mz_key (fst (mz_live z t k)) (Some (t + 1000 * sec))))\<rparr>"

definition mz_zk :: "mem_zset \<Rightarrow> string \<Rightarrow> zkey" where
  "mz_zk z k = (map_of (fst (z k)), snd (z k))"

lemma zview_mz: "zview (mz_zk z k) t = (map_of (fst (mz_live z t k)), snd (mz_live z t k))"
  by (simp add: zview_def mz_zk_def mz_live_def split: option.splits)

lemma map_of_drop_scores:
  "distinct (map fst xs) \<Longrightarrow>
   map_of (filter (\<lambda>(m, s). \<not> (lo \<le> s \<and> s \<le> hi)) xs) = drop_scores lo hi (map_of xs)"
proof (induction xs)
  case (Cons x xs)
  moreover have "map_of xs (fst x) = None" using Cons.prems by (simp add: map_of_eq_None_iff)
  ultimately show ?case by (cases x) (auto simp: drop_scores_def fun_eq_iff split: option.splits)
qed (simp add: drop_scores_def)

lemma mz_key_zkey_of: "mz_key xs d = (xs, snd (zkey_of (map_of xs) d))"
  by (simp add: mz_key_def zkey_of_def)

lemma mz_zk_upd: "mz_zk (z(k := x)) = (mz_zk z)(k := (map_of (fst x), snd x))"
  by (auto simp: mz_zk_def)

interpretation mz: zset_server mem_zset_ops mz_zk
proof unfold_locales
  fix z :: mem_zset and k t lo hi
  have "drop_scores lo hi (map_of (fst (mz_live z t k))) =
      map_of (filter (\<lambda>(m, s). \<not> (lo \<le> s \<and> s \<le> hi)) (AList.clearjunk (fst (mz_live z t k))))"
    unfolding map_of_drop_scores [OF distinct_clearjunk] map_of_clearjunk ..
  then show "mz_zk (ZREMRANGEBYSCORE mem_zset_ops z t k lo hi) =
      (mz_zk z)(k := zkey_of (drop_scores lo hi (fst (zview (mz_zk z k) t))) (snd (zview (mz_zk z k) t)))"
    by (simp add: mem_zset_ops_def mz_key_zkey_of zview_mz mz_zk_upd zkey_of_def)
  show "ZCARD mem_zset_ops z t k = card (dom (fst (zview (mz_zk z k) t)))"
    using distinct_card [OF distinct_clearjunk [of "fst (mz_live z t k)"]]
    by (simp add: zview_mz mem_zset_ops_def dom_map_of_conv_image_fst dom_clearjunk)
next
  fix z :: mem_zset and k
  show "finite (dom (fst (mz_zk z k)))" by (simp add: mz_zk_def finite_dom_map_of)
qed (simp_all add: mem_zset_ops_def mz_key_zkey_of zview_mz mz_zk_upd zkey_of_def update_conv')


section \<open>Properties\<close>

text \<open>
  C8. The limiter implements a sliding window log. For queries at non-decreasing times, from
  fresh keys, with a server clock that runs like the client's up to an offset, with calls of any
  number of users interleaved and any of them failing before or after the script ran, every
  answer is that of the reference, which keeps every recorded query of each user and admits one
  exactly if fewer than \<open>limit\<close> of them are younger than the window. The expiry of the key
  never loses a query that still counts, and no two queries share a member name. A call whose reply
  was lost and that was sent again before the key can expire is recorded once; the second run counts
  what the first recorded.
\<close>

theorem AllowQuery_refines_log:
  assumes "zset_server Z zk" and "\<forall>u. zk z (limiter_key u) = (Map.empty, None)" and "0 < window"
    and "sorted (map q_now qs)" and "\<forall>q \<in> set qs. 0 \<le> q_now q" and "length qs < 2 ^ 64"
    and "retries_in_time window qs"
  shows "fst (limiter_run Z off limit window (NewRateLimiter c z) qs) =
         fst (log_run limit (window sdiv millisecond) (\<lambda>_. []) qs)"
  using zset_server.limiter_run_fresh [OF assms(1), of z window qs off limit c] assms(2-7) by simp

definition ex_queries :: "query list" where
  "ex_queries =
     [\<lparr>q_user = ''a'', q_now = 5000 * millisecond, q_call = Replied\<rparr>,
      \<lparr>q_user = ''b'', q_now = 5000 * millisecond, q_call = Replied\<rparr>,
      \<lparr>q_user = ''a'', q_now = 5400 * millisecond, q_call = LostAfter\<rparr>,
      \<lparr>q_user = ''a'', q_now = 5900 * millisecond, q_call = Replied\<rparr>,
      \<lparr>q_user = ''a'', q_now = 6000 * millisecond, q_call = Replied\<rparr>,
      \<lparr>q_user = ''b'', q_now = 6000 * millisecond, q_call = Retried 0\<rparr>,
      \<lparr>q_user = ''b'', q_now = 6000 * millisecond, q_call = Retried 0\<rparr>]"

lemma ex_queries_ok:
  "sorted (map q_now ex_queries)" "\<forall>q \<in> set ex_queries. 0 \<le> q_now q" "length ex_queries < 2 ^ 64"
  "retries_in_time second ex_queries" "\<forall>u. mz_zk (\<lambda>_. ([], None)) (limiter_key u) = (Map.empty, None)"
  by (simp_all add: ex_queries_def mz_zk_def retries_in_time_def in_time_def ttl_seconds_def signed_divide_int_def)

lemma ex_queries_log:
  "fst (log_run 2 (second sdiv millisecond) (\<lambda>_. []) ex_queries) =
     [Inr True, Inr True, Inl (), Inr False, Inr True, Inr True, Inr False]"
  by code_simp

theorem AllowQuery_refines_log_witness:
  "fst (limiter_run mem_zset_ops 17 2 second (NewRateLimiter 0 (\<lambda>_. ([], None))) ex_queries) =
     [Inr True, Inr True, Inl (), Inr False, Inr True, Inr True, Inr False]"
  using AllowQuery_refines_log [where zk = mz_zk, OF mz.zset_server_axioms ex_queries_ok(5) _ ex_queries_ok(1-4)] ex_queries_log by simp

text \<open>
  C9. In no window of the configured length, wherever it lies, are more than \<open>limit\<close> queries of a
  user admitted by one process that has the keys of its users for itself, when its calls read the
  clock in the order in which Redis runs them, the server's clock runs like the client's up to an
  offset, and a call whose reply was lost is sent again, if at all, before the key of its user can
  expire. (Two processes on one Redis can admit more: C34.)
\<close>

theorem AllowQuery_never_exceeds_limit:
  assumes "zset_server Z zk" and "\<forall>u. zk z (limiter_key u) = (Map.empty, None)" and "0 < window"
    and "sorted (map q_now qs)" and "\<forall>q \<in> set qs. 0 \<le> q_now q" and "length qs < 2 ^ 64"
    and "retries_in_time window qs" and "0 \<le> limit"
  shows "int (length (filter (in_window (window sdiv millisecond) T)
           (admitted u qs (fst (limiter_run Z off limit window (NewRateLimiter c z) qs))))) \<le> limit"
  using zset_server.limiter_run_fresh [OF assms(1), of z window qs off limit c] assms(2-7) log_run_bound [OF assms(8)]
  by simp

theorem AllowQuery_never_exceeds_limit_witness:
  "admitted ''a'' ex_queries (fst (limiter_run mem_zset_ops 17 2 second (NewRateLimiter 0 (\<lambda>_. ([], None))) ex_queries)) =
     [5000, 6000] \<and>
   int (length (filter (in_window (second sdiv millisecond) 5950)
     (admitted ''a'' ex_queries (fst (limiter_run mem_zset_ops 17 2 second (NewRateLimiter 0 (\<lambda>_. ([], None))) ex_queries))))) \<le> 2"
proof
  have "fst (limiter_run mem_zset_ops 17 2 second (NewRateLimiter 0 (\<lambda>_. ([], None))) ex_queries) =
      [Inr True, Inr True, Inl (), Inr False, Inr True, Inr True, Inr False]"
    using mz.limiter_run_fresh [of "\<lambda>_. ([], None)" second ex_queries 17 2 0] ex_queries_ok ex_queries_log by simp
  then show "admitted ''a'' ex_queries (fst (limiter_run mem_zset_ops 17 2 second (NewRateLimiter 0 (\<lambda>_. ([], None))) ex_queries)) =
     [5000, 6000]" by (simp add: admitted_def ex_queries_def)
qed (rule AllowQuery_never_exceeds_limit [where zk = mz_zk, OF mz.zset_server_axioms ex_queries_ok(5) _ ex_queries_ok(1-4)]; simp)

text \<open>What an admitted call of the script leaves in the set of its key, and what the same call does then.\<close>

lemma allowScript_admitted:
  assumes "zset_server Z zk" and "0 < ttl" and "allowScript Z z t k now win limit ttl mem = (1, z1)"
  obtains m0 where "zk z1 = (zk z)(k := (m0(mem \<mapsto> now), Some (t + 1000 * ttl)))"
    and "\<And>m s. m0 m = Some s \<Longrightarrow> \<not> (0 \<le> s \<and> s \<le> now - win)"
proof -
  note laws = zset_server.zset_laws [OF assms(1)]
  let ?z = "ZREMRANGEBYSCORE Z z t k 0 (now - win)"
  let ?m = "fst (zview (zk ?z k) t)"
  have z1: "z1 = EXPIRE Z (ZADD Z ?z t k now mem) t k ttl"
    using assms(3) by (auto simp: allowScript_def Let_def split: if_splits)
  have "zview (?m(mem \<mapsto> now), snd (zview (zk ?z k) t)) t = (?m(mem \<mapsto> now), snd (zview (zk ?z k) t))"
    by (auto simp: zview_def split: option.splits)
  then have "zk z1 = (zk z)(k := (?m(mem \<mapsto> now), Some (t + 1000 * ttl)))"
    unfolding z1 laws(4) [OF assms(2)] laws(3) by (simp add: zkey_of_def laws(1))
  moreover have "\<not> (0 \<le> s \<and> s \<le> now - win)" if "?m m = Some s" for m s
    using that by (auto simp: laws(1) fst_zview drop_scores_Some split: option.splits if_splits)
  ultimately show ?thesis by (rule that)
qed

lemma allowScript_repeated:
  assumes "zset_server Z zk" and "0 < ttl" and "0 < win" and "allowScript Z z t k now win limit ttl mem = (1, z1)"
    and "int (ZCARD Z z1 t k) < limit"
  shows "\<exists>z2. allowScript Z z1 t k now win limit ttl mem = (1, z2) \<and> zk z2 = zk z1"
proof -
  note laws = zset_server.zset_laws [OF assms(1)]
  obtain m0 where z1: "zk z1 = (zk z)(k := (m0(mem \<mapsto> now), Some (t + 1000 * ttl)))"
    and m0: "\<And>m s. m0 m = Some s \<Longrightarrow> \<not> (0 \<le> s \<and> s \<le> now - win)"
    by (rule allowScript_admitted [OF assms(1,2,4)]) blast
  have v: "zview (m0(mem \<mapsto> now), Some (t + 1000 * ttl)) t = (m0(mem \<mapsto> now), Some (t + 1000 * ttl))"
    using assms(2) by (simp add: zview_def)
  have ds: "drop_scores 0 (now - win) (m0(mem \<mapsto> now)) = m0(mem \<mapsto> now)"
    using m0 assms(3) by (auto simp: drop_scores_def fun_eq_iff split: option.splits)
  let ?z2 = "ZREMRANGEBYSCORE Z z1 t k 0 (now - win)"
  have z2: "zk ?z2 = zk z1" by (simp add: laws(1) z1 v ds zkey_of_def)
  have "zk (EXPIRE Z (ZADD Z ?z2 t k now mem) t k ttl) = zk z1"
    unfolding laws(4) [OF assms(2)] laws(3) z2 by (simp add: z1 v zkey_of_def)
  moreover have "ZCARD Z ?z2 t k = ZCARD Z z1 t k" by (simp add: laws(2) z2)
  ultimately show ?thesis using assms(5) by (simp add: allowScript_def Let_def)
qed

text \<open>
  C34. Member names are unique in one process only: when two processes that share the Redis server
  call in the same millisecond with equal counters, the second call writes the member of the first
  once more. If there is room for one more query, it is admitted and leaves the sorted set as it
  was, so that it is never counted.
\<close>

theorem AllowQuery_member_collision:
  assumes "zset_server Z zk" and "millisecond \<le> window"
    and "AllowQuery Z Replied now server_ms \<lparr>memberCounter = c, client = z\<rparr> u limit window = (Inr True, rl1)"
    and "int (ZCARD Z (client rl1) server_ms (limiter_key u)) < limit"
  shows "\<exists>rl2. AllowQuery Z Replied now server_ms \<lparr>memberCounter = c, client = client rl1\<rparr> u limit window =
           (Inr True, rl2) \<and> zk (client rl2) = zk (client rl1)"
proof -
  let ?now = "now div millisecond" and ?win = "window sdiv millisecond" and ?ttl = "ttl_seconds window"
  let ?k = "limiter_key u" and ?mem = "limiter_member (now div millisecond) (c + 1)"
  have "millisecond div millisecond \<le> window div millisecond" by (rule zdiv_mono1 [OF assms(2)]) simp
  then have win: "0 < ?win" using assms(2) by (simp add: signed_divide_int_def)
  have ttl: "0 < ?ttl" using assms(2) by (intro ttl_covers(1)) simp
  obtain res z1 where s1: "allowScript Z z server_ms ?k ?now ?win limit ?ttl ?mem = (res, z1)" by (metis surj_pair)
  have rl1: "client rl1 = z1" and res: "res = 1"
    using assms(3) AllowQuery_eq [of Z "\<lparr>memberCounter = c, client = z\<rparr>" server_ms u now window limit res z1 Replied] s1
    by auto
  obtain z2 where "allowScript Z z1 server_ms ?k ?now ?win limit ?ttl ?mem = (1, z2)" "zk z2 = zk z1"
    using allowScript_repeated [OF assms(1) ttl win s1 [unfolded res]] assms(4) rl1 by auto
  then show ?thesis
    using AllowQuery_eq [of Z "\<lparr>memberCounter = c, client = z1\<rparr>" server_ms u now window limit 1 z2 Replied] rl1
    by simp
qed

theorem AllowQuery_member_collision_witness:
  "\<exists>rl2. AllowQuery mem_zset_ops Replied (5 * second) 5000
           \<lparr>memberCounter = 0, client = client (snd (AllowQuery mem_zset_ops Replied (5 * second) 5000
              (NewRateLimiter 0 (\<lambda>_. ([], None))) ''a'' 2 second))\<rparr> ''a'' 2 second = (Inr True, rl2) \<and>
         ZCARD mem_zset_ops (client rl2) 5000 (limiter_key ''a'') = 1"
proof -
  let ?q = "AllowQuery mem_zset_ops Replied (5 * second) 5000 \<lparr>memberCounter = 0, client = (\<lambda>_. ([], None))\<rparr> ''a'' 2 second"
  have w: "second sdiv millisecond = 1000" "ttl_seconds second = 1"
    by (simp_all add: signed_divide_int_def ttl_seconds_def)
  have q: "?q = (Inr True, snd ?q)"
    and one: "ZCARD mem_zset_ops (client (snd ?q)) 5000 (limiter_key ''a'') = 1"
    by (simp_all add: AllowQuery_def allowScript_def mem_zset_ops_def mz_live_def mz_key_def Let_def w)
  have n: "int (ZCARD mem_zset_ops (client (snd ?q)) 5000 (limiter_key ''a'')) < 2" using one by simp
  have "(1000000 :: int) \<le> 1000000000" by simp
  from AllowQuery_member_collision [OF mz.zset_server_axioms this q n] one show ?thesis
    by (auto simp: mz.zk_CARD NewRateLimiter_def)
qed

end
