(* ===== verification/Analytics.thy ===== *)
theory Analytics imports Prelude begin

text \<open>
  The analytics pipeline: \<^verbatim>\<open>internal/analytics/log.go\<close> and \<^verbatim>\<open>internal/analytics/aggregator.go\<close>.

  Queries hand their log records to a bounded channel; one worker collects them in a batch and
  writes the batch to ClickHouse. The channel is the list of the records in it, oldest first. The
  worker's \<^verbatim>\<open>select\<close> is a step function with an event for each of its cases, since Go picks any
  case that is ready. ClickHouse is a parameter: the operations the source calls, over an abstract
  connection \<open>'h\<close> and batch \<open>'b\<close>, with their documented behaviour in the locale
  \<open>clickhouse\<close>. The process-wide metric of lost records is a field of the state.
\<close>

section \<open>Log records\<close>

definition StatusAllowed :: string where "StatusAllowed = ''ALLOWED''"
definition StatusBlocked :: string where "StatusBlocked = ''BLOCKED''"
definition StatusRedirect :: string where "StatusRedirect = ''REDIRECTED''"

record DNSLog =
  Timestamp :: time
  UserID :: string
  ClientIP :: string
  Domain :: string
  QueryType :: string
  Status :: string
  ResponseTime :: time

section \<open>ClickHouse\<close>

text \<open>One row of \<^verbatim>\<open>dns_logs\<close>, in the order of the columns.\<close>

type_synonym log_row = "time \<times> string \<times> string \<times> string \<times> string \<times> string \<times> 64 word"

record ch_options =
  ch_Addr :: "string list"
  ch_Database :: string
  ch_Username :: string
  ch_Password :: string
  ch_max_execution_time :: nat
  ch_MaxOpenConns :: nat
  ch_MaxIdleConns :: nat
  ch_ConnMaxLifetime :: time

record ('h, 'b) ch_client =
  ch_Open :: "ch_options \<Rightarrow> string + 'h"
  ch_Ping :: "'h \<Rightarrow> string option \<times> 'h"
  ch_PrepareBatch :: "'h \<Rightarrow> string \<Rightarrow> (string + 'b) \<times> 'h"
  ch_Append :: "'b \<Rightarrow> log_row \<Rightarrow> string option \<times> 'b"
  ch_Send :: "'h \<Rightarrow> 'b \<Rightarrow> string option \<times> 'h"

text \<open>
  \<open>rows\<close> is the table, \<open>pending\<close> the rows of a batch that is not sent yet. A
  failed \<^verbatim>\<open>Send\<close> may or may not have stored the batch.
\<close>

locale clickhouse =
  fixes H :: "('h, 'b) ch_client" and rows :: "'h \<Rightarrow> log_row list" and pending :: "'b \<Rightarrow> log_row list"
  assumes Ping_rows: "ch_Ping H h = (x, h') \<Longrightarrow> rows h' = rows h"
    and Prepare_ok: "ch_PrepareBatch H h sql = (Inr b, h') \<Longrightarrow> pending b = []"
    and Prepare_rows: "ch_PrepareBatch H h sql = (y, h') \<Longrightarrow> rows h' = rows h"
    and Append_ok: "ch_Append H b r = (None, b') \<Longrightarrow> pending b' = pending b @ [r]"
    and Append_err: "ch_Append H b r = (Some e, b') \<Longrightarrow> pending b' = pending b"
    and Send_ok: "ch_Send H h b = (None, h') \<Longrightarrow> rows h' = rows h @ pending b"
    and Send_err: "ch_Send H h b = (Some e, h') \<Longrightarrow> rows h' = rows h \<or> rows h' = rows h @ pending b"

section \<open>The aggregator\<close>

record 'h LogAggregator =
  logCh :: "DNSLog list"
  logCh_cap :: nat
  batch :: "DNSLog list"
  flushThreshold :: int
  flushInterval :: time
  droppedCount :: "64 word"
  flushedCount :: "64 word"
  chConn :: "'h option"
  wg :: nat
  AnalyticsDroppedLogs :: nat

definition NewLogAggregator :: "nat \<Rightarrow> int \<Rightarrow> time \<Rightarrow> 'h LogAggregator" where
  "NewLogAggregator bufferSize threshold interval =
     \<lparr>logCh = [], logCh_cap = bufferSize, batch = [], flushThreshold = threshold, flushInterval = interval,
      droppedCount = 0, flushedCount = 0, chConn = None, wg = 0, AnalyticsDroppedLogs = 0\<rparr>"

text \<open>A send on a buffered channel with a default case: it succeeds exactly if there is room.\<close>

definition SubmitLog :: "'h LogAggregator \<Rightarrow> DNSLog \<Rightarrow> 'h LogAggregator" where
  "SubmitLog a log =
     (if length (logCh a) < logCh_cap a then a\<lparr>logCh := logCh a @ [log]\<rparr>
      else a\<lparr>droppedCount := droppedCount a + 1\<rparr>)"

definition InitClickHouse ::
  "('h, 'b) ch_client \<Rightarrow> 'h LogAggregator \<Rightarrow> string \<Rightarrow> string \<Rightarrow> string \<Rightarrow> string \<Rightarrow>
   string option \<times> 'h LogAggregator" where
  "InitClickHouse H a addr database username password =
     (case ch_Open H \<lparr>ch_Addr = [addr], ch_Database = database, ch_Username = username,
                      ch_Password = password, ch_max_execution_time = 60, ch_MaxOpenConns = 10,
                      ch_MaxIdleConns = 5, ch_ConnMaxLifetime = 3600 * second\<rparr> of
        Inl err \<Rightarrow> (Some err, a)
      | Inr conn \<Rightarrow>
          (case ch_Ping H conn of
             (Some err, conn') \<Rightarrow> (Some err, a)
           | (None, conn') \<Rightarrow> (None, a\<lparr>chConn := Some conn'\<rparr>)))"

definition insert_logs_sql :: string where
  "insert_logs_sql = ''INSERT INTO dns_logs (timestamp, user_id, client_ip, domain, query_type, status, response_time_ns)''"

definition row_of :: "DNSLog \<Rightarrow> log_row" where
  "row_of log = (Timestamp log, UserID log, ClientIP log, Domain log, QueryType log, Status log,
                 word_of_int (ResponseTime log))"

fun appendRows :: "('h, 'b) ch_client \<Rightarrow> 'b \<Rightarrow> DNSLog list \<Rightarrow> 'b" where
  "appendRows H chBatch [] = chBatch"
| "appendRows H chBatch (log # logs) =
     (case ch_Append H chBatch (row_of log) of
        (Some err, chBatch') \<Rightarrow> appendRows H chBatch' logs
      | (None, chBatch') \<Rightarrow> appendRows H chBatch' logs)"

definition flushBatch :: "('h, 'b) ch_client \<Rightarrow> 'h LogAggregator \<Rightarrow> DNSLog list \<Rightarrow> 'h LogAggregator" where
  "flushBatch H a logs =
     (case chConn a of
        None \<Rightarrow> a
      | Some conn \<Rightarrow>
          (case ch_PrepareBatch H conn insert_logs_sql of
             (Inl err, conn1) \<Rightarrow>
               a\<lparr>chConn := Some conn1, AnalyticsDroppedLogs := AnalyticsDroppedLogs a + length logs\<rparr>
           | (Inr chBatch, conn1) \<Rightarrow>
               (case ch_Send H conn1 (appendRows H chBatch logs) of
                  (Some err, conn2) \<Rightarrow>
                    a\<lparr>chConn := Some conn2, AnalyticsDroppedLogs := AnalyticsDroppedLogs a + length logs\<rparr>
                | (None, conn2) \<Rightarrow> a\<lparr>chConn := Some conn2\<rparr>)))"

definition flush :: "('h, 'b) ch_client \<Rightarrow> 'h LogAggregator \<Rightarrow> 'h LogAggregator" where
  "flush H a =
     (if length (batch a) = 0 then a
      else let b = batch a;
               a = a\<lparr>batch := []\<rparr>;
               a = a\<lparr>flushedCount := flushedCount a + word_of_nat (length b)\<rparr>
           in flushBatch H a b)"

text \<open>Starting the worker: \<^verbatim>\<open>time.NewTicker\<close> panics on an interval that is not positive.\<close>

definition StartWorker :: "'h LogAggregator \<Rightarrow> go_panic + 'h LogAggregator" where
  "StartWorker a =
     (if flushInterval a \<le> 0 then Inl (RuntimePanic ''non-positive interval for NewTicker'')
      else Inr (a\<lparr>wg := wg a + 1\<rparr>))"

datatype worker_event = CtxDone | LogReceived | Tick

text \<open>One turn of the worker's loop; \<open>None\<close>: that case of the \<^verbatim>\<open>select\<close> is not ready.\<close>

definition worker_step ::
  "('h, 'b) ch_client \<Rightarrow> 'h LogAggregator \<Rightarrow> worker_event \<Rightarrow> 'h LogAggregator option" where
  "worker_step H a ev =
     (if wg a = 0 then None
      else case ev of
        CtxDone \<Rightarrow> (let a = flush H a in Some (a\<lparr>wg := wg a - 1\<rparr>))
      | LogReceived \<Rightarrow>
          (case logCh a of
             [] \<Rightarrow> None
           | log # rest \<Rightarrow>
               (let a = a\<lparr>logCh := rest, batch := batch a @ [log]\<rparr>
                in Some (if int (length (batch a)) \<ge> flushThreshold a then flush H a else a)))
      | Tick \<Rightarrow> Some (if length (batch a) > 0 then flush H a else a))"

definition Stats :: "'h LogAggregator \<Rightarrow> 64 word \<times> 64 word" where
  "Stats a = (flushedCount a, droppedCount a)"

definition Wait :: "'h LogAggregator \<Rightarrow> bool" where
  "Wait a \<longleftrightarrow> wg a = 0"

section \<open>Runs\<close>

text \<open>
  A run interleaves submissions, the worker's turns and (re)connections in any order. Three ghost
  arguments record the records that entered the channel, those that were handed to
  \<open>flushBatch\<close>, both oldest first, and how many were refused.
\<close>

definition handed :: "'h LogAggregator \<Rightarrow> worker_event \<Rightarrow> DNSLog list" where
  "handed a ev =
     (let b = (if ev = LogReceived then batch a @ take 1 (logCh a) else batch a)
      in if ev = LogReceived \<and> int (length b) < flushThreshold a then [] else b)"

inductive agg_reach ::
  "('h, 'b) ch_client \<Rightarrow> 'h LogAggregator \<Rightarrow> DNSLog list \<Rightarrow> DNSLog list \<Rightarrow> nat \<Rightarrow> bool"
  for H :: "('h, 'b) ch_client"
where
  new: "0 < n \<Longrightarrow> agg_reach H (NewLogAggregator n th iv) [] [] 0"
| init: "agg_reach H a acc fl rej \<Longrightarrow> InitClickHouse H a addr db user pw = (err, a') \<Longrightarrow>
    agg_reach H a' acc fl rej"
| start: "agg_reach H a acc fl rej \<Longrightarrow> wg a = 0 \<Longrightarrow> StartWorker a = Inr a' \<Longrightarrow> agg_reach H a' acc fl rej"
| accept: "agg_reach H a acc fl rej \<Longrightarrow> length (logCh a) < logCh_cap a \<Longrightarrow>
    agg_reach H (SubmitLog a l) (acc @ [l]) fl rej"
| refuse: "agg_reach H a acc fl rej \<Longrightarrow> \<not> length (logCh a) < logCh_cap a \<Longrightarrow>
    agg_reach H (SubmitLog a l) acc fl (Suc rej)"
| worker: "agg_reach H a acc fl rej \<Longrightarrow> worker_step H a ev = Some a' \<Longrightarrow>
    agg_reach H a' acc (fl @ handed a ev) rej"

inductive_cases worker_reachE: "agg_reach H a acc fl rej"

definition agg_inv :: "'h LogAggregator \<Rightarrow> DNSLog list \<Rightarrow> DNSLog list \<Rightarrow> nat \<Rightarrow> bool" where
  "agg_inv a acc fl rej \<longleftrightarrow>
     acc = fl @ batch a @ logCh a \<and>
     flushedCount a = word_of_nat (length fl) \<and> droppedCount a = word_of_nat rej \<and>
     length (logCh a) \<le> logCh_cap a \<and> int (length (batch a)) < max 1 (flushThreshold a) \<and>
     (wg a = 0 \<longrightarrow> batch a = []) \<and> wg a \<le> 1"

section \<open>The worker\<close>

lemma flushBatch_frame [simp]:
  "logCh (flushBatch H a b) = logCh a" "logCh_cap (flushBatch H a b) = logCh_cap a"
  "batch (flushBatch H a b) = batch a" "flushThreshold (flushBatch H a b) = flushThreshold a"
  "droppedCount (flushBatch H a b) = droppedCount a" "flushedCount (flushBatch H a b) = flushedCount a"
  "wg (flushBatch H a b) = wg a"
  by (simp_all add: flushBatch_def split: option.splits prod.splits sum.splits)

lemma flush_frame [simp]:
  "logCh (flush H a) = logCh a" "logCh_cap (flush H a) = logCh_cap a" "batch (flush H a) = []"
  "flushThreshold (flush H a) = flushThreshold a" "droppedCount (flush H a) = droppedCount a"
  "flushedCount (flush H a) = flushedCount a + word_of_nat (length (batch a))" "wg (flush H a) = wg a"
  by (auto simp: flush_def Let_def)

lemma SubmitLog_inv:
  assumes "agg_inv a acc fl rej"
  shows "length (logCh a) < logCh_cap a \<Longrightarrow> agg_inv (SubmitLog a l) (acc @ [l]) fl rej"
    and "\<not> length (logCh a) < logCh_cap a \<Longrightarrow> agg_inv (SubmitLog a l) acc fl (Suc rej)"
  using assms by (auto simp: agg_inv_def SubmitLog_def ac_simps)

lemma worker_step_inv:
  assumes "agg_inv a acc fl rej" and "worker_step H a ev = Some a'"
  shows "agg_inv a' acc (fl @ handed a ev) rej"
proof (cases ev)
  case LogReceived
  with assms(2) obtain log rest where "logCh a = log # rest"
    by (auto simp: worker_step_def split: if_splits list.splits)
  with LogReceived assms show ?thesis
    by (auto simp: agg_inv_def worker_step_def handed_def Let_def split: if_splits)
qed (use assms in \<open>auto simp: agg_inv_def worker_step_def handed_def Let_def split: if_splits\<close>)

lemma NewLogAggregator_inv: "agg_inv (NewLogAggregator n th iv) [] [] 0"
  by (simp add: agg_inv_def NewLogAggregator_def)

lemma InitClickHouse_inv:
  "agg_inv a acc fl rej \<Longrightarrow> InitClickHouse H a addr db user pw = (err, a') \<Longrightarrow> agg_inv a' acc fl rej"
  by (auto simp: InitClickHouse_def agg_inv_def split: sum.splits prod.splits option.splits)

lemma StartWorker_inv:
  "agg_inv a acc fl rej \<Longrightarrow> wg a = 0 \<Longrightarrow> StartWorker a = Inr a' \<Longrightarrow> agg_inv a' acc fl rej"
  by (auto simp: StartWorker_def agg_inv_def split: if_splits)

lemma agg_reach_inv: "agg_reach H a acc fl rej \<Longrightarrow> agg_inv a acc fl rej"
  by (induction rule: agg_reach.induct)
    (blast intro: NewLogAggregator_inv InitClickHouse_inv StartWorker_inv SubmitLog_inv worker_step_inv)+

section \<open>What reaches the table\<close>

text \<open>
  A run of the connected aggregator as a list of events, with the records that entered the channel
  and those handed to \<open>flushBatch\<close>; \<open>None\<close> if a worker event is not ready.
\<close>

datatype agg_event = Submit DNSLog | Work worker_event

fun agg_run ::
  "('h, 'b) ch_client \<Rightarrow> 'h LogAggregator \<Rightarrow> agg_event list \<Rightarrow>
   ('h LogAggregator \<times> DNSLog list \<times> DNSLog list) option" where
  "agg_run H a [] = Some (a, [], [])"
| "agg_run H a (Submit l # es) =
     (case agg_run H (SubmitLog a l) es of
        None \<Rightarrow> None
      | Some (a', acc, fl) \<Rightarrow> Some (a', if length (logCh a) < logCh_cap a then l # acc else acc, fl))"
| "agg_run H a (Work ev # es) =
     (case worker_step H a ev of
        None \<Rightarrow> None
      | Some a1 \<Rightarrow>
          (case agg_run H a1 es of
             None \<Rightarrow> None
           | Some (a', acc, fl) \<Rightarrow> Some (a', acc, handed a ev @ fl)))"

lemma SubmitLog_chConn [simp]: "chConn (SubmitLog a l) = chConn a"
  "AnalyticsDroppedLogs (SubmitLog a l) = AnalyticsDroppedLogs a" "batch (SubmitLog a l) = batch a"
  by (simp_all add: SubmitLog_def)

text \<open>A worker step that hands over nothing leaves the connection alone, the others flush once.\<close>

lemma worker_step_flushes:
  assumes "worker_step H a ev = Some a'"
  shows "(chConn a', AnalyticsDroppedLogs a') =
     (if handed a ev = [] then (chConn a, AnalyticsDroppedLogs a)
      else (chConn (flushBatch H a (handed a ev)), AnalyticsDroppedLogs (flushBatch H a (handed a ev))))"
proof -
  have fr: "chConn (flushBatch H (f b) l) = chConn (flushBatch H b l) \<and>
      AnalyticsDroppedLogs (flushBatch H (f b) l) = AnalyticsDroppedLogs (flushBatch H b l)"
    if "chConn (f b) = chConn b" "AnalyticsDroppedLogs (f b) = AnalyticsDroppedLogs b"
    for f :: "'a LogAggregator \<Rightarrow> 'a LogAggregator" and b l
    using that by (simp add: flushBatch_def split: option.splits prod.splits sum.splits)
  show ?thesis
    using assms by (cases ev) (auto simp: worker_step_def handed_def Let_def flush_def fr
        split: if_splits list.splits)
qed

lemma agg_run_conserves:
  assumes "agg_run H a es = Some (a', acc, fl)"
  shows "batch a @ logCh a @ acc = fl @ batch a' @ logCh a'"
  using assms
proof (induction H a es arbitrary: a' acc fl rule: agg_run.induct)
  case (2 H a l es)
  then show ?case
    by (auto simp: SubmitLog_def split: option.splits prod.splits if_splits)
next
  case (3 H a ev es)
  then obtain a1 fl1 where st: "worker_step H a ev = Some a1" "agg_run H a1 es = Some (a', acc, fl1)"
    "fl = handed a ev @ fl1" by (auto split: option.splits)
  have "handed a ev @ batch a1 @ logCh a1 = batch a @ logCh a"
    using st(1) by (cases ev) (auto simp: worker_step_def handed_def Let_def split: if_splits list.splits)
  with 3(1) [OF st(1,2)] st(3) show ?case by (metis append.assoc)
qed auto

definition ch_reliable :: "('h, 'b) ch_client \<Rightarrow> bool" where
  "ch_reliable H \<longleftrightarrow>
     (\<forall>h sql. \<exists>b h'. ch_PrepareBatch H h sql = (Inr b, h')) \<and>
     (\<forall>b r. fst (ch_Append H b r) = None) \<and> (\<forall>h b. fst (ch_Send H h b) = None)"

context clickhouse
begin

lemma appendRows_subseq: "\<exists>xs. pending (appendRows H b logs) = pending b @ xs \<and> subseq xs (map row_of logs)"
proof (induction logs arbitrary: b)
  case (Cons l ls)
  obtain e b' where ap: "ch_Append H b (row_of l) = (e, b')" by (metis surj_pair)
  obtain xs where xs: "pending (appendRows H b' ls) = pending b' @ xs" "subseq xs (map row_of ls)"
    using Cons.IH by blast
  show ?case
  proof (cases e)
    case None
    with ap xs show ?thesis by (intro exI [of _ "row_of l # xs"]) (simp add: Append_ok)
  next
    case (Some err)
    with ap xs show ?thesis by (intro exI [of _ xs]) (auto simp: Append_err)
  qed
qed simp

lemma appendRows_all:
  "(\<And>b r. fst (ch_Append H b r) = None) \<Longrightarrow> pending (appendRows H b logs) = pending b @ map row_of logs"
proof (induction logs arbitrary: b)
  case (Cons l ls)
  obtain b' where "ch_Append H b (row_of l) = (None, b')" using Cons.prems [of b "row_of l"] by (metis prod.collapse)
  with Cons show ?case by (simp add: Append_ok)
qed simp

text \<open>Whatever fails, a flush adds rows of the batch only, each at most once and in order.\<close>

lemma flushBatch_rows:
  assumes "chConn a = Some h"
  shows "\<exists>h' xs. chConn (flushBatch H a logs) = Some h' \<and> rows h' = rows h @ xs \<and> subseq xs (map row_of logs)"
proof -
  obtain x h1 where p: "ch_PrepareBatch H h insert_logs_sql = (x, h1)" by (metis surj_pair)
  have r1: "rows h1 = rows h" using Prepare_rows [OF p] .
  show ?thesis
  proof (cases x)
    case (Inl e)
    with assms p r1 show ?thesis by (simp add: flushBatch_def)
  next
    case (Inr b)
    obtain y h2 where s: "ch_Send H h1 (appendRows H b logs) = (y, h2)" by (metis surj_pair)
    obtain xs where xs: "pending (appendRows H b logs) = xs" "subseq xs (map row_of logs)"
      using appendRows_subseq [of b logs] Prepare_ok p Inr by auto
    have "rows h2 = rows h \<or> rows h2 = rows h @ xs" using Send_ok [of h1 "appendRows H b logs" h2] Send_err [of h1 "appendRows H b logs" _ h2] s r1 xs(1) by (cases y) auto
    moreover have "chConn (flushBatch H a logs) = Some h2"
      using assms p Inr s by (simp add: flushBatch_def split: option.split)
    ultimately show ?thesis using xs(2) by auto
  qed
qed

lemma flushBatch_all_rows:
  assumes "chConn a = Some h" and "ch_reliable H"
  shows "\<exists>h'. flushBatch H a logs = a\<lparr>chConn := Some h'\<rparr> \<and> rows h' = rows h @ map row_of logs"
proof -
  obtain b h1 where p: "ch_PrepareBatch H h insert_logs_sql = (Inr b, h1)"
    using assms(2) unfolding ch_reliable_def by blast
  obtain h2 where s: "ch_Send H h1 (appendRows H b logs) = (None, h2)"
    using assms(2) by (metis ch_reliable_def prod.collapse)
  have "pending (appendRows H b logs) = map row_of logs"
    using appendRows_all [of b logs] Prepare_ok [OF p] assms(2) unfolding ch_reliable_def by (metis append_Nil)
  with assms(1) p s Send_ok [OF s] Prepare_rows [OF p] show ?thesis
    by (intro exI [of _ h2]) (simp add: flushBatch_def)
qed

lemma agg_run_rows:
  assumes "agg_run H a es = Some (a', acc, fl)" and "chConn a = Some h"
  shows "\<exists>h' xs. chConn a' = Some h' \<and> rows h' = rows h @ xs \<and> subseq xs (map row_of fl) \<and>
           (ch_reliable H \<longrightarrow> xs = map row_of fl \<and> AnalyticsDroppedLogs a' = AnalyticsDroppedLogs a)"
  using assms
proof (induction es arbitrary: a h acc fl)
  case (Cons e es)
  show ?case
  proof (cases e)
    case (Submit l)
    with Cons.prems obtain acc1 where "agg_run H (SubmitLog a l) es = Some (a', acc1, fl)"
      by (auto split: option.splits)
    from Cons.IH [OF this] Cons.prems(2) show ?thesis by simp
  next
    case (Work ev)
    with Cons.prems obtain a1 fl1 where st: "worker_step H a ev = Some a1" "agg_run H a1 es = Some (a', acc, fl1)"
      "fl = handed a ev @ fl1" by (auto split: option.splits)
    obtain h1 xs where h1: "chConn a1 = Some h1" "rows h1 = rows h @ xs" "subseq xs (map row_of (handed a ev))"
      "ch_reliable H \<longrightarrow> xs = map row_of (handed a ev) \<and> AnalyticsDroppedLogs a1 = AnalyticsDroppedLogs a"
    proof (cases "handed a ev = []")
      case True
      with worker_step_flushes [OF st(1)] Cons.prems(2) that [of h "[]"] show ?thesis by simp
    next
      case False
      note fl = worker_step_flushes [OF st(1)] flushBatch_rows [OF Cons.prems(2), of "handed a ev"]
      show ?thesis
      proof (cases "ch_reliable H")
        case True
        with flushBatch_all_rows [OF Cons.prems(2) True, of "handed a ev"] fl(1) False that show ?thesis by auto
      qed (use fl False that in auto)
    qed
    from Cons.IH [OF st(2) h1(1)] h1 st(3) show ?thesis by (auto intro: list_emb_append_mono)
  qed
qed simp

end


text \<open>Once the worker has stopped, no event of it is ready, and what is queued stays queued.\<close>

lemma agg_run_stopped:
  assumes "agg_run H a es = Some (a', acc, fl)" and "wg a = 0"
  shows "fl = [] \<and> prefix (logCh a) (logCh a') \<and> flushedCount a' = flushedCount a \<and> chConn a' = chConn a"
  using assms
proof (induction H a es arbitrary: a' acc fl rule: agg_run.induct)
  case (2 H a l es)
  then obtain acc1 where "agg_run H (SubmitLog a l) es = Some (a', acc1, fl)"
    by (auto split: option.splits)
  moreover have "wg (SubmitLog a l) = 0" using 2(3) by (simp add: SubmitLog_def)
  ultimately have "fl = [] \<and> prefix (logCh (SubmitLog a l)) (logCh a') \<and>
      flushedCount a' = flushedCount (SubmitLog a l) \<and> chConn a' = chConn (SubmitLog a l)" by (rule 2(1))
  then show ?case by (auto simp: SubmitLog_def prefix_def split: if_splits)
next
  case (3 H a ev es)
  then show ?case by (simp add: worker_step_def)
qed auto

section \<open>An executable ClickHouse\<close>

record mem_ch =
  mh_rows :: "log_row list"
  mh_faults :: "bool list" \<comment> \<open>does the next \<^verbatim>\<open>PrepareBatch\<close> or \<^verbatim>\<open>Send\<close> fail? An empty script never fails.\<close>

definition mh_fail :: "mem_ch \<Rightarrow> bool" where
  "mh_fail h = (case mh_faults h of [] \<Rightarrow> False | b # _ \<Rightarrow> b)"

definition mh_next :: "mem_ch \<Rightarrow> mem_ch" where
  "mh_next h = h\<lparr>mh_faults := tl (mh_faults h)\<rparr>"

text \<open>A row of a user called \<^verbatim>\<open>bad\<close> is refused when \<open>strict\<close> is set.\<close>

definition mem_ch_ops :: "bool \<Rightarrow> (mem_ch, log_row list) ch_client" where
  "mem_ch_ops strict =
     \<lparr>ch_Open = (\<lambda>opts. Inr \<lparr>mh_rows = [], mh_faults = []\<rparr>),
      ch_Ping = (\<lambda>h. (None, h)),
      ch_PrepareBatch = (\<lambda>h sql. (if strict \<and> mh_fail h then Inl ''prepare'' else Inr [], mh_next h)),
      ch_Append = (\<lambda>b r. if strict \<and> fst (snd r) = ''bad'' then (Some ''append'', b) else (None, b @ [r])),
      ch_Send = (\<lambda>h b. if strict \<and> mh_fail h then (Some ''send'', mh_next h)
                       else (None, mh_next (h\<lparr>mh_rows := mh_rows h @ b\<rparr>)))\<rparr>"

interpretation mh: clickhouse "mem_ch_ops strict" mh_rows id
  by unfold_locales (auto simp: mem_ch_ops_def mh_next_def split: if_splits)

lemma mem_ch_reliable: "ch_reliable (mem_ch_ops False)"
  by (simp add: ch_reliable_def mem_ch_ops_def)

section \<open>Properties\<close>

text \<open>
  C17. Nothing is lost or reordered without a count before the database: in every reachable state
  of the aggregator, the records that entered the channel are, in order, those handed to
  \<open>flushBatch\<close>, then the batch, then the channel; \<^verbatim>\<open>flushedCount\<close> and \<^verbatim>\<open>droppedCount\<close> count the
  handed over and the refused records modulo \<open>2 ^ 64\<close>; channel and batch stay within their
  bounds, and a batch is never left behind when the worker has stopped.
\<close>

theorem aggregator_conserves:
  assumes "agg_reach H a acc fl rej"
  shows "acc = fl @ batch a @ logCh a \<and>
         Stats a = (word_of_nat (length fl), word_of_nat rej) \<and>
         length (logCh a) \<le> logCh_cap a \<and>
         int (length (batch a)) < max 1 (flushThreshold a) \<and>
         (Wait a \<longrightarrow> batch a = [])"
  using agg_reach_inv [OF assms] by (simp add: agg_inv_def Stats_def Wait_def)

definition ex_log :: "string \<Rightarrow> DNSLog" where
  "ex_log u = \<lparr>Timestamp = 1, UserID = u, ClientIP = ''10.1.1.1'', Domain = ''a.b.'', QueryType = ''A'',
               Status = StatusAllowed, ResponseTime = 7\<rparr>"

definition ex_agg :: "mem_ch LogAggregator" where
  "ex_agg = (NewLogAggregator 2 2 second)\<lparr>wg := 1\<rparr>"

theorem aggregator_conserves_witness:
  "\<exists>a. agg_reach (mem_ch_ops True) a [ex_log ''x'', ex_log ''y''] [] 1 \<and> Stats a = (0, 1) \<and>
       batch a = [ex_log ''x''] \<and> logCh a = [ex_log ''y'']"
proof -
  let ?H = "mem_ch_ops True" and ?x = "ex_log ''x''" and ?y = "ex_log ''y''" and ?z = "ex_log ''z''"
  have r0: "agg_reach ?H (NewLogAggregator 2 2 second) [] [] 0" by (rule agg_reach.new) simp
  have r1: "agg_reach ?H ex_agg [] [] 0"
    by (rule agg_reach.start [OF r0]) (simp_all add: NewLogAggregator_def StartWorker_def ex_agg_def)
  have r2: "agg_reach ?H (ex_agg\<lparr>logCh := [?x]\<rparr>) [?x] [] 0"
    using agg_reach.accept [OF r1, of ?x] by (simp add: ex_agg_def NewLogAggregator_def SubmitLog_def)
  have r3: "agg_reach ?H (ex_agg\<lparr>logCh := [?x, ?y]\<rparr>) [?x, ?y] [] 0"
    using agg_reach.accept [OF r2, of ?y] by (simp add: ex_agg_def NewLogAggregator_def SubmitLog_def)
  have r4: "agg_reach ?H (ex_agg\<lparr>logCh := [?x, ?y], droppedCount := 1\<rparr>) [?x, ?y] [] 1"
    using agg_reach.refuse [OF r3, of ?z] by (simp add: ex_agg_def NewLogAggregator_def SubmitLog_def)
  let ?a = "ex_agg\<lparr>logCh := [?y], batch := [?x], droppedCount := 1\<rparr>"
  have r5: "agg_reach ?H ?a [?x, ?y] [] 1"
    using agg_reach.worker [OF r4, of LogReceived]
    by (simp add: ex_agg_def NewLogAggregator_def worker_step_def handed_def)
  have "Stats ?a = (0, 1)" using aggregator_conserves [OF r5] by simp
  with r5 show ?thesis by (intro exI [of _ ?a]) simp
qed

text \<open>
  C18. What reaches the table. In every run of a connected aggregator, whatever ClickHouse does, the
  rows added are rows of the records handed to \<open>flushBatch\<close>, each at most once and in order. If
  ClickHouse does not fail, the rows added, with the batch and the channel behind them, are exactly the
  records that were waiting or entered the channel, in order, and none is reported as lost. (A record
  refused because the channel is full is no part of this, and what is left in the channel at the end
  is the subject of C35.)
\<close>

theorem aggregator_table:
  assumes "clickhouse H rows pending" and "agg_run H a es = Some (a', acc, fl)" and "chConn a = Some h"
  shows "\<exists>h' xs. chConn a' = Some h' \<and> rows h' = rows h @ xs \<and> subseq xs (map row_of fl) \<and>
           fl @ batch a' @ logCh a' = batch a @ logCh a @ acc \<and>
           (ch_reliable H \<longrightarrow>
              xs @ map row_of (batch a' @ logCh a') = map row_of (batch a @ logCh a @ acc) \<and>
              AnalyticsDroppedLogs a' = AnalyticsDroppedLogs a)"
  using clickhouse.agg_run_rows [OF assms] arg_cong [OF agg_run_conserves [OF assms(2)], of "map row_of"]
    agg_run_conserves [OF assms(2)] by fastforce

definition ex_conn_agg :: "mem_ch LogAggregator" where
  "ex_conn_agg = ex_agg\<lparr>chConn := Some \<lparr>mh_rows = [], mh_faults = []\<rparr>\<rparr>"

definition ex_events :: "agg_event list" where
  "ex_events = [Submit (ex_log ''x''), Work LogReceived, Submit (ex_log ''y''), Work LogReceived,
                Submit (ex_log ''z'')]"

theorem aggregator_table_witness:
  "\<exists>a' h'. agg_run (mem_ch_ops False) ex_conn_agg ex_events =
      Some (a', [ex_log ''x'', ex_log ''y'', ex_log ''z''], [ex_log ''x'', ex_log ''y'']) \<and>
    chConn a' = Some h' \<and>
    mh_rows h' @ map row_of (batch a' @ logCh a') = map row_of [ex_log ''x'', ex_log ''y'', ex_log ''z'']"
proof -
  have "\<exists>a'. agg_run (mem_ch_ops False) ex_conn_agg ex_events =
      Some (a', [ex_log ''x'', ex_log ''y'', ex_log ''z''], [ex_log ''x'', ex_log ''y''])"
    by (simp add: ex_events_def ex_conn_agg_def ex_agg_def NewLogAggregator_def SubmitLog_def worker_step_def
        handed_def flush_def flushBatch_def mem_ch_ops_def)
  then obtain a' where run: "agg_run (mem_ch_ops False) ex_conn_agg ex_events =
      Some (a', [ex_log ''x'', ex_log ''y'', ex_log ''z''], [ex_log ''x'', ex_log ''y''])" by blast
  have c: "chConn ex_conn_agg = Some \<lparr>mh_rows = [], mh_faults = []\<rparr>" "batch ex_conn_agg = []" "logCh ex_conn_agg = []"
    by (simp_all add: ex_conn_agg_def ex_agg_def NewLogAggregator_def)
  from aggregator_table [OF mh.clickhouse_axioms run c(1)] mem_ch_reliable c run show ?thesis by auto
qed

text \<open>
  C35. What is queued at shutdown is abandoned: when the context is cancelled the worker flushes
  its batch and stops, without draining the channel. From then on nothing is ever flushed, and
  the queued records stay in the channel, counted neither as flushed nor as dropped.
\<close>

theorem shutdown_abandons_queue:
  assumes "worker_step H a CtxDone = Some a'" and "wg a = 1" and "agg_run H a' es = Some (a'', acc, fl)"
  shows "Wait a' \<and> batch a' = [] \<and> logCh a' = logCh a \<and> droppedCount a' = droppedCount a \<and>
         flushedCount a'' = flushedCount a + word_of_nat (length (batch a)) \<and>
         fl = [] \<and> prefix (logCh a) (logCh a'') \<and> chConn a'' = chConn a'"
proof -
  have a': "a' = (flush H a)\<lparr>wg := 0\<rparr>" using assms(1,2) by (auto simp: worker_step_def Let_def split: if_splits)
  with agg_run_stopped [OF assms(3)] show ?thesis by (simp add: Wait_def)
qed

theorem shutdown_abandons_queue_witness:
  "\<exists>a'. worker_step (mem_ch_ops True) (ex_agg\<lparr>logCh := [ex_log ''x'']\<rparr>) CtxDone = Some a' \<and>
        Wait a' \<and> logCh a' = [ex_log ''x''] \<and> Stats a' = (0, 0)"
proof -
  let ?a = "ex_agg\<lparr>logCh := [ex_log ''x'']\<rparr>"
  have st: "worker_step (mem_ch_ops True) ?a CtxDone = Some (?a\<lparr>wg := 0\<rparr>)"
    by (simp add: worker_step_def ex_agg_def NewLogAggregator_def flush_def)
  have "wg ?a = 1" and "agg_run (mem_ch_ops True) (?a\<lparr>wg := 0\<rparr>) [] = Some (?a\<lparr>wg := 0\<rparr>, [], [])"
    by (simp_all add: ex_agg_def)
  from shutdown_abandons_queue [OF st this] st show ?thesis
    by (simp add: Stats_def ex_agg_def NewLogAggregator_def)
qed

end
