(* ===== verification/Wire.thy ===== *)
theory Wire imports Prelude begin

unbundle bit_operations_syntax

text \<open>
  Bytes on the wire: what the TLS parser of the SNI proxy and the DNS-over-TLS server share.

  An operation fails with an error of its own (\<open>Err\<close>) or with a Go panic
  (\<open>Panic\<close>); \<open>go_do\<close> continues with the value of a Go expression that may
  panic. \<open>BigEndian_Uint16\<close> is \<^verbatim>\<open>encoding/binary\<close>'s, \<open>io_ReadFull\<close> is that of package
  \<^verbatim>\<open>io\<close> on a stream given by the bytes it delivers before it fails. \<open>be16\<close> is the
  encoding the number readers are shown to invert.
\<close>

datatype 'e fail = Err 'e | Panic go_panic

definition go_do :: "go_panic + 'a \<Rightarrow> ('a \<Rightarrow> 'e fail + 'b) \<Rightarrow> 'e fail + 'b" where
  "go_do m f = (case m of Inl p \<Rightarrow> Inl (Panic p) | Inr x \<Rightarrow> f x)"

definition word_cat2 :: "byte \<Rightarrow> byte \<Rightarrow> 16 word" where
  "word_cat2 a b = push_bit 8 (ucast a) OR ucast b"

definition BigEndian_Uint16 :: "byte list \<Rightarrow> go_panic + 16 word" where
  "BigEndian_Uint16 b =
     (case b of x # y # _ \<Rightarrow> Inr (word_cat2 x y) | _ \<Rightarrow> Inl IndexOutOfRange)"

definition io_ReadFull :: "byte list \<Rightarrow> nat \<Rightarrow> (byte list \<times> byte list) option" where
  "io_ReadFull conn n = (if n \<le> length conn then Some (take n conn, drop n conn) else None)"

definition string_of_bytes :: "byte list \<Rightarrow> string" where
  "string_of_bytes = map (\<lambda>b. char_of (unat b))"

definition bytes_of_string :: "string \<Rightarrow> byte list" where
  "bytes_of_string = map (\<lambda>c. word_of_nat (of_char c))"

definition be16 :: "16 word \<Rightarrow> byte list" where
  "be16 n = [ucast (drop_bit 8 n), ucast n]"

text \<open>The two-byte encoding of a length.\<close>

abbreviation be_len :: "'a list \<Rightarrow> byte list" where
  "be_len xs \<equiv> be16 (word_of_nat (length xs))"

section \<open>Sequencing\<close>

lemma go_do_simps [simp]: "go_do (Inl p) f = Inl (Panic p)" "go_do (Inr x) f = f x"
  by (simp_all add: go_do_def)

lemma go_do_cong [fundef_cong]:
  "m = m' \<Longrightarrow> (\<And>x. m' = Inr x \<Longrightarrow> f x = g x) \<Longrightarrow> go_do m f = go_do m' g"
  by (cases m') auto

section \<open>Two-byte numbers\<close>

lemma unat_byte: "unat (x :: byte) < 256"
  using unsigned_less [of x, where ?'a = nat] by simp

lemma unat_uint16: "unat (x :: 16 word) < 65536"
  using unsigned_less [of x, where ?'a = nat] by simp

lemma word_cat2_split [simp]: "word_cat2 (ucast (drop_bit 8 n)) (ucast n) = n"
  unfolding word_cat2_def by (rule bit_word_eqI) (auto simp: bit_simps)

lemma be16_word_cat2: "be16 (word_cat2 a b) = [a, b]"
proof -
  have "ucast (drop_bit 8 (word_cat2 a b)) = a"
    unfolding word_cat2_def by (rule bit_word_eqI) (auto simp: bit_simps dest: bit_imp_le_length)
  moreover have "(ucast (word_cat2 a b) :: byte) = b"
    unfolding word_cat2_def by (rule bit_word_eqI) (auto simp: bit_simps dest: bit_imp_le_length)
  ultimately show ?thesis by (simp add: be16_def)
qed

lemma length_be16 [simp]: "length (be16 n) = 2"
  by (simp add: be16_def)

lemma unat_word_cat2: "unat (word_cat2 a b) = 256 * unat a + unat b"
proof -
  have "push_bit 8 (ucast a) AND ucast b = (0 :: 16 word)"
    by (rule bit_word_eqI) (auto simp: bit_simps dest: bit_imp_le_length)
  then have "word_cat2 a b = push_bit 8 (ucast a) + (ucast b :: 16 word)"
    by (simp add: word_cat2_def disjunctive_add_eq_or)
  moreover have "unat (ucast a :: 16 word) = unat a" "unat (ucast b :: 16 word) = unat b"
    using unat_byte [of a] unat_byte [of b] by (simp_all add: unsigned_ucast_eq take_bit_nat_eq_self)
  moreover have "unat a < 256" "unat b < 256" by (rule unat_byte)+
  ultimately show ?thesis by (simp add: unat_word_ariths push_bit_eq_mult)
qed

lemma BigEndian_be16 [simp]: "BigEndian_Uint16 (be16 n @ bs) = Inr n"
  by (simp add: BigEndian_Uint16_def be16_def)

lemma BigEndian_be16' [simp]: "BigEndian_Uint16 (be16 n) = Inr n"
  by (simp add: BigEndian_Uint16_def be16_def)

lemma unat_length16: "length xs < 65536 \<Longrightarrow> unat (word_of_nat (length xs) :: 16 word) = length xs"
  by (simp add: unat_of_nat take_bit_nat_eq_self)

text \<open>A list of at least two bytes starts with the encoding of the number read from it.\<close>

lemma be16_cases:
  assumes "2 \<le> length bs"
  obtains n where "bs = be16 n @ drop 2 bs" and "BigEndian_Uint16 bs = Inr n"
proof -
  obtain x y zs where bs: "bs = x # y # zs" using assms by (auto simp: Suc_le_length_iff numeral_2_eq_2)
  then show thesis
    using that [of "word_cat2 x y"] by (simp add: be16_word_cat2 BigEndian_Uint16_def)
qed

section \<open>Strings\<close>

lemma string_of_bytes_of_string [simp]: "string_of_bytes (bytes_of_string s) = s"
proof -
  have "unat (word_of_nat (of_char c) :: byte) = of_char c" for c
    by (simp add: unat_of_nat take_bit_nat_eq_self)
  then show ?thesis by (simp add: string_of_bytes_def bytes_of_string_def comp_def)
qed

lemma bytes_of_string_of_bytes [simp]: "bytes_of_string (string_of_bytes b) = b"
proof -
  have "word_of_nat (of_char (char_of (unat x) :: char)) = x" for x :: byte
    using unat_byte [of x] by simp
  then show ?thesis by (simp add: string_of_bytes_def bytes_of_string_def comp_def)
qed

lemma length_bytes_of_string [simp]: "length (bytes_of_string s) = length s"
  by (simp add: bytes_of_string_def)

end
