(* ===== verification/Dns_Msg.thy ===== *)
theory Dns_Msg imports Wire begin

text \<open>
  DNS messages and the DNS library.

  The library \<^verbatim>\<open>github.com/miekg/dns\<close> is not part of the repository. Its message type is given
  by the fields the source reads and writes, and the functions the source calls are a parameter
  (\<open>dns_lib\<close>), with the documented behaviour the source relies on in the locale
  \<open>dns_library\<close>: how \<^verbatim>\<open>SetReply\<close> starts a reply, and that an exchange returns a message with the id of
  the request. \<open>mem_dns\<close> is a
  concrete instance, with an upstream server that answers from a table.
\<close>

section \<open>Messages\<close>

record dns_question =
  q_Name :: string
  q_Qtype :: "16 word"
  q_Qclass :: "16 word"

datatype rdata = A_rdata "byte list" | AAAA_rdata "byte list" | Other_rdata string

record dns_rr =
  rr_Name :: string
  rr_Rrtype :: "16 word"
  rr_Class :: "16 word"
  rr_Ttl :: "32 word"
  rr_Data :: rdata

record dns_msg =
  m_Id :: "16 word"
  m_Response :: bool
  m_Opcode :: int
  m_RecursionDesired :: bool
  m_Rcode :: int
  m_Question :: "dns_question list"
  m_Answer :: "dns_rr list"
  m_Ns :: "dns_rr list"
  m_Extra :: "dns_rr list"

definition new_Msg :: dns_msg where
  "new_Msg = \<lparr>m_Id = 0, m_Response = False, m_Opcode = 0, m_RecursionDesired = False, m_Rcode = 0,
              m_Question = [], m_Answer = [], m_Ns = [], m_Extra = []\<rparr>"

definition TypeA :: "16 word" where "TypeA = 1"
definition TypeAAAA :: "16 word" where "TypeAAAA = 28"
definition ClassINET :: "16 word" where "ClassINET = 1"
definition RcodeSuccess :: int where "RcodeSuccess = 0"
definition RcodeServerFailure :: int where "RcodeServerFailure = 2"
definition RcodeNameError :: int where "RcodeNameError = 3"
definition RcodeRefused :: int where "RcodeRefused = 5"

lemmas dns_consts = TypeA_def TypeAAAA_def ClassINET_def RcodeSuccess_def RcodeServerFailure_def
  RcodeNameError_def RcodeRefused_def

section \<open>The library\<close>

record 'u dns_lib =
  dns_SetReply :: "dns_msg \<Rightarrow> dns_msg \<Rightarrow> dns_msg"
  dns_TypeToString :: "16 word \<Rightarrow> string"
  dns_Exchange :: "'u \<Rightarrow> dns_msg \<Rightarrow> string \<Rightarrow> (string + dns_msg option) \<times> 'u"
  dns_Pack :: "dns_msg \<Rightarrow> string + byte list"
  dns_Unpack :: "byte list \<Rightarrow> string + dns_msg"

locale dns_library =
  fixes D :: "'u dns_lib"
  assumes SetReply_Id: "m_Id (dns_SetReply D m req) = m_Id req"
    and SetReply_Response: "m_Response (dns_SetReply D m req)"
    and SetReply_Rcode: "m_Rcode (dns_SetReply D m req) = RcodeSuccess"
    and SetReply_Question: "m_Question (dns_SetReply D m req) =
      (if m_Question req = [] then m_Question m else [hd (m_Question req)])"
    and SetReply_Answer: "m_Answer (dns_SetReply D m req) = m_Answer m"
    and SetReply_Opcode: "m_Opcode (dns_SetReply D m req) = m_Opcode req"
    and SetReply_rest: "m_Ns (dns_SetReply D m req) = m_Ns m" "m_Extra (dns_SetReply D m req) = m_Extra m"
    and Exchange_Id: "dns_Exchange D u req a = (Inr (Some resp), u') \<Longrightarrow> m_Id resp = m_Id req"

section \<open>A concrete library\<close>

text \<open>The upstream server's state: whether it is reachable, and its answers by name and type.\<close>

record mem_upstream =
  mu_up :: bool
  mu_records :: "string \<Rightarrow> 16 word \<Rightarrow> dns_rr list"

definition mem_TypeToString :: "16 word \<Rightarrow> string" where
  "mem_TypeToString t = (if t = TypeA then ''A'' else if t = TypeAAAA then ''AAAA'' else [])"

definition mem_reply :: "dns_msg \<Rightarrow> dns_msg \<Rightarrow> dns_msg" where
  "mem_reply m req = m\<lparr>m_Id := m_Id req, m_Response := True, m_Opcode := m_Opcode req,
     m_RecursionDesired := (if m_Opcode req = 0 then m_RecursionDesired req else m_RecursionDesired m),
     m_Rcode := RcodeSuccess,
     m_Question := (if m_Question req = [] then m_Question m else [hd (m_Question req)])\<rparr>"

definition mem_Exchange :: "mem_upstream \<Rightarrow> dns_msg \<Rightarrow> string \<Rightarrow> (string + dns_msg option) \<times> mem_upstream" where
  "mem_Exchange u req a =
     (if \<not> mu_up u then (Inl ''i/o timeout'', u)
      else case m_Question req of
             [] \<Rightarrow> (Inr None, u)
           | q # _ \<Rightarrow> (Inr (Some ((mem_reply new_Msg req)\<lparr>m_Answer := mu_records u (q_Name q) (q_Qtype q)\<rparr>)), u))"

text \<open>On the wire, this library sends a query as its id, the type and the name of its question.\<close>

definition mem_Pack :: "dns_msg \<Rightarrow> string + byte list" where
  "mem_Pack m =
     (case m_Question m of
        [] \<Rightarrow> Inl ''empty''
      | q # _ \<Rightarrow> Inr (be16 (m_Id m) @ be16 (q_Qtype q) @ bytes_of_string (q_Name q)))"

definition mem_Unpack :: "byte list \<Rightarrow> string + dns_msg" where
  "mem_Unpack bs =
     (case bs of
        a # b # c # d # name \<Rightarrow>
          Inr (new_Msg\<lparr>m_Id := word_cat2 a b,
                       m_Question := [\<lparr>q_Name = string_of_bytes name, q_Qtype = word_cat2 c d, q_Qclass = ClassINET\<rparr>]\<rparr>)
      | _ \<Rightarrow> Inl ''short buffer'')"

definition mem_dns :: "mem_upstream dns_lib" where
  "mem_dns = \<lparr>dns_SetReply = mem_reply, dns_TypeToString = mem_TypeToString, dns_Exchange = mem_Exchange,
              dns_Pack = mem_Pack, dns_Unpack = mem_Unpack\<rparr>"

lemmas mem_dns_defs = mem_dns_def mem_reply_def mem_TypeToString_def mem_Exchange_def mem_Pack_def mem_Unpack_def

interpretation md: dns_library mem_dns
  by unfold_locales
    (auto simp: mem_dns_def mem_reply_def mem_Exchange_def mem_Pack_def Let_def split: if_splits list.splits)

end
