(* ===== verification/Upstream.thy ===== *)
theory Upstream imports Dns_Msg TTL_Cache begin

text \<open>
  The upstream resolver: \<^verbatim>\<open>internal/upstream/upstream.go\<close> and \<^verbatim>\<open>internal/upstream/cache.go\<close>.

  \<open>Resolve\<close> sets the recursion flag of the query it is given, in place, which is why it
  returns the query. The response cache is a \<^verbatim>\<open>go-cache\<close> again (theory \<open>TTL_Cache\<close>), holding
  messages; copies are values.
\<close>

section \<open>State and operations\<close>

record ('u, 'k) upstream_pkg =
  UpstreamAddr :: string
  clientTimeout :: time
  clientUDPSize :: "16 word"
  client_net :: 'u
  responseCache :: "'k option"

datatype upstream_error = UpstreamExchange string string | EmptyResponse

definition upstream_default :: "'u \<Rightarrow> ('u, 'k) upstream_pkg" where
  "upstream_default u = \<lparr>UpstreamAddr = ''1.1.1.1:53'', clientTimeout = 5 * second, clientUDPSize = 1232,
                         client_net = u, responseCache = None\<rparr>"

definition InitCache ::
  "('k, dns_msg) cache_ops \<Rightarrow> ('u, 'k) upstream_pkg \<Rightarrow> time \<Rightarrow> time \<Rightarrow> ('u, 'k) upstream_pkg" where
  "InitCache K p defaultTTL cleanupInterval = p\<lparr>responseCache := Some (cache_New K defaultTTL cleanupInterval)\<rparr>"

definition Resolve ::
  "'u dns_lib \<Rightarrow> ('u, 'k) upstream_pkg \<Rightarrow> dns_msg \<Rightarrow>
   (upstream_error + dns_msg) \<times> dns_msg \<times> ('u, 'k) upstream_pkg" where
  "Resolve D p msg =
     (let msg = msg\<lparr>m_RecursionDesired := True\<rparr>
      in case dns_Exchange D (client_net p) msg (UpstreamAddr p) of
           (Inl err, u') \<Rightarrow> (Inl (UpstreamExchange (UpstreamAddr p) err), msg, p\<lparr>client_net := u'\<rparr>)
         | (Inr None, u') \<Rightarrow> (Inl EmptyResponse, msg, p\<lparr>client_net := u'\<rparr>)
         | (Inr (Some resp), u') \<Rightarrow> (Inr resp, msg, p\<lparr>client_net := u'\<rparr>))"

definition cacheKey :: "'u dns_lib \<Rightarrow> dns_msg \<Rightarrow> string option" where
  "cacheKey D msg =
     (case m_Question msg of
        [] \<Rightarrow> None
      | q # _ \<Rightarrow> Some (ToLower (q_Name q) @ '':'' @ dns_TypeToString D (q_Qtype q)))"

text \<open>One of the two loops of \<open>respMinTTL\<close>: the smallest lifetime so far, and whether there is one.\<close>

fun minTTL_loop :: "int \<times> bool \<Rightarrow> dns_rr list \<Rightarrow> int \<times> bool" where
  "minTTL_loop (mn, found) [] = (mn, found)"
| "minTTL_loop (mn, found) (rr # rrs) =
     (if uint (rr_Ttl rr) < mn then minTTL_loop (uint (rr_Ttl rr), True) rrs
      else minTTL_loop (mn, found) rrs)"

definition respMinTTL :: "dns_msg \<Rightarrow> time" where
  "respMinTTL resp =
     (let (mn, found) = minTTL_loop (uint (drop_bit 1 (- 1 :: 32 word)), False) (m_Answer resp);
          (mn, found) = minTTL_loop (mn, found) (m_Ns resp)
      in if \<not> found then 0 else mn * second)"

definition ResolveCached ::
  "'u dns_lib \<Rightarrow> ('k, dns_msg) cache_ops \<Rightarrow> time \<Rightarrow> time \<Rightarrow> ('u, 'k) upstream_pkg \<Rightarrow> dns_msg \<Rightarrow>
   (upstream_error + dns_msg) \<times> dns_msg \<times> ('u, 'k) upstream_pkg" where
  "ResolveCached D K t0 t1 p msg =
     (let key = cacheKey D msg;
          hit = (case (key, responseCache p) of (Some k, Some rc) \<Rightarrow> cache_Get K rc t0 k | _ \<Rightarrow> None)
      in case hit of
           Some cached \<Rightarrow> (Inr cached, msg, p)
         | None \<Rightarrow>
             (case Resolve D p msg of
                (Inl err, msg', p1) \<Rightarrow> (Inl err, msg', p1)
              | (Inr resp, msg', p1) \<Rightarrow>
                  (case (key, responseCache p1) of
                     (Some k, Some rc) \<Rightarrow>
                       (if m_Rcode resp = RcodeSuccess then
                          (let ttl = respMinTTL resp
                           in if ttl > 0 then
                                (Inr resp, msg', p1\<lparr>responseCache := Some (cache_Set K rc t1 k resp ttl)\<rparr>)
                              else (Inr resp, msg', p1))
                        else (Inr resp, msg', p1))
                   | _ \<Rightarrow> (Inr resp, msg', p1))))"

definition ClearCache :: "('k, dns_msg) cache_ops \<Rightarrow> ('u, 'k) upstream_pkg \<Rightarrow> ('u, 'k) upstream_pkg" where
  "ClearCache K p =
     (case responseCache p of
        None \<Rightarrow> p
      | Some rc \<Rightarrow> p\<lparr>responseCache := Some (cache_Flush K rc)\<rparr>)"

section \<open>Lifetimes\<close>

text \<open>The lifetimes that count: those of the answer and authority sections below \<open>2 ^ 31 - 1\<close>.\<close>

definition ttls_below :: "int \<Rightarrow> dns_rr list \<Rightarrow> int set" where
  "ttls_below m rrs = {t \<in> (\<lambda>rr. uint (rr_Ttl rr)) ` set rrs. t < m}"

definition ttls :: "dns_msg \<Rightarrow> int set" where
  "ttls resp = ttls_below (2 ^ 31 - 1) (m_Answer resp @ m_Ns resp)"

lemma finite_ttls_below [simp]: "finite (ttls_below m rrs)"
  by (simp add: ttls_below_def)

lemma minTTL_loop_append: "minTTL_loop x (xs @ ys) = minTTL_loop (minTTL_loop x xs) ys"
  by (induction x xs rule: minTTL_loop.induct) auto

lemma Min_ttls_below_Cons:
  assumes "x < m"
  shows "Min (insert x (ttls_below m rrs)) = (if ttls_below x rrs = {} then x else Min (ttls_below x rrs))"
proof (cases "ttls_below x rrs = {}")
  case True
  then show ?thesis by (auto simp: ttls_below_def intro!: Min_eqI)
next
  case False
  then have "Min (ttls_below x rrs) \<in> ttls_below x rrs" by simp
  moreover have "Min (ttls_below x rrs) \<le> t" if "t \<in> insert x (ttls_below m rrs)" for t
  proof (cases "t < x")
    case True
    with that have "t \<in> ttls_below x rrs" by (auto simp: ttls_below_def)
    then show ?thesis by simp
  next
    case False
    have "Min (ttls_below x rrs) < x" using calculation by (simp add: ttls_below_def)
    with False show ?thesis by simp
  qed
  ultimately show ?thesis using False assms by (auto simp: ttls_below_def intro!: Min_eqI)
qed

lemma minTTL_loop_spec:
  "minTTL_loop (m, f) rrs = (if ttls_below m rrs = {} then (m, f) else (Min (ttls_below m rrs), True))"
proof (induction rrs arbitrary: m f)
  case (Cons rr rrs)
  let ?x = "uint (rr_Ttl rr)"
  have "ttls_below m (rr # rrs) = (if ?x < m then insert ?x (ttls_below m rrs) else ttls_below m rrs)"
    by (auto simp: ttls_below_def)
  with Cons.IH [of ?x True] Cons.IH [of m f] show ?case by (simp add: Min_ttls_below_Cons)
qed (simp add: ttls_below_def)

lemma max_int32: "uint (drop_bit 1 (- 1 :: 32 word)) = 2 ^ 31 - 1"
  by (simp add: unsigned_drop_bit_eq unsigned_minus_1_eq_mask mask_eq_exp_minus_1 drop_bit_eq_div)

lemma respMinTTL_Min: "respMinTTL resp = (if ttls resp = {} then 0 else Min (ttls resp) * second)"
proof -
  have "respMinTTL resp = (let (mn, found) = minTTL_loop (2 ^ 31 - 1, False) (m_Answer resp @ m_Ns resp)
      in if \<not> found then 0 else mn * second)"
    unfolding respMinTTL_def max_int32 by (simp add: minTTL_loop_append case_prod_beta)
  also have "\<dots> = (if ttls resp = {} then 0 else Min (ttls resp) * second)"
    by (simp add: minTTL_loop_spec ttls_def)
  finally show ?thesis .
qed

lemma respMinTTL_le: "t \<in> ttls resp \<Longrightarrow> respMinTTL resp \<le> t * second"
  using Min_le [of "ttls resp" t] by (auto simp: respMinTTL_Min ttls_def)

section \<open>The response cache\<close>

lemma Resolve_cache: "Resolve D p msg = (x, msg', p') \<Longrightarrow> responseCache p' = responseCache p"
  by (auto simp: Resolve_def Let_def split: prod.splits sum.splits option.splits)

lemma ResolveCached_hit:
  "cacheKey D msg = Some k \<Longrightarrow> responseCache p = Some rc \<Longrightarrow> cache_Get K rc t0 k = Some m \<Longrightarrow>
   ResolveCached D K t0 t1 p msg = (Inr m, msg, p)"
  by (simp add: ResolveCached_def)

lemma ResolveCached_miss:
  assumes "cacheKey D msg = Some k" and "responseCache p = Some rc" and "cache_Get K rc t0 k = None"
    and "Resolve D p msg = (Inr resp, msg', p')"
  shows "ResolveCached D K t0 t1 p msg =
     (Inr resp, msg',
      if m_Rcode resp = RcodeSuccess \<and> 0 < respMinTTL resp
      then p'\<lparr>responseCache := Some (cache_Set K rc t1 k resp (respMinTTL resp))\<rparr> else p')"
  using assms Resolve_cache [OF assms(4)] by (simp add: ResolveCached_def Let_def)

lemma ResolveCached_asks:
  assumes "responseCache p = Some rc" and "cacheKey D msg = Some k" and "cache_Get K rc t0 k = None"
  shows "fst (ResolveCached D K t0 t1 p msg) = fst (Resolve D p msg) \<and>
     client_net (snd (snd (ResolveCached D K t0 t1 p msg))) = client_net (snd (snd (Resolve D p msg)))"
  using assms by (auto simp: ResolveCached_def Let_def split: prod.split sum.split option.split)

lemma Resolve_Id:
  assumes "dns_library D" and "Resolve D p msg = (Inr resp, msg', p')"
  shows "m_Id resp = m_Id msg" and "msg' = msg\<lparr>m_RecursionDesired := True\<rparr>"
  using assms(2) dns_library.Exchange_Id [OF assms(1), of "client_net p" "msg\<lparr>m_RecursionDesired := True\<rparr>" "UpstreamAddr p"]
  by (auto simp: Resolve_def Let_def split: prod.splits sum.splits option.splits)

section \<open>Properties\<close>

text \<open>
  C33. What a second query gets. Let a first query have been answered with a response fetched at
  \<open>t1\<close>. If the response was a success and its lifetime, the smallest of its answer and authority
  records (0 if there is none below \<open>2 ^ 31 - 1\<close> seconds), is positive, every later query with its
  key is answered with a copy of it, as it was fetched, and nothing is sent upstream, until the
  lifetime is over, so never when a record of it has expired. Later than that, or if the response
  was not a success or had a lifetime of 0, the query is sent upstream. (The copy keeps the id and
  the lifetimes of the first response.)
\<close>

theorem ResolveCached_freshness:
  assumes "ttl_cache K entry dflt" and "cacheKey D msg = Some k" and "responseCache p = Some rc"
    and "cache_Get K rc t0 k = None" and "Resolve D p msg = (Inr resp, msg1, p1)"
    and "ResolveCached D K t0 t1 p msg = (out, msg', p')" and "0 \<le> t1"
    and "cacheKey D query = Some k" and "t0 \<le> t2"
  shows "out = Inr resp \<and>
     respMinTTL resp = (if ttls resp = {} then 0 else Min (ttls resp) * second) \<and>
     (\<forall>s \<in> ttls resp. respMinTTL resp \<le> s * second) \<and>
     (if m_Rcode resp = RcodeSuccess \<and> 0 < respMinTTL resp \<and> t2 \<le> t1 + respMinTTL resp
      then ResolveCached D K t2 t3 p' query = (Inr resp, query, p')
      else fst (ResolveCached D K t2 t3 p' query) = fst (Resolve D p' query) \<and>
           client_net (snd (snd (ResolveCached D K t2 t3 p' query))) = client_net (snd (snd (Resolve D p' query))))"
proof -
  let ?stored = "m_Rcode resp = RcodeSuccess \<and> 0 < respMinTTL resp"
  have out: "out = Inr resp" and p': "p' = (if ?stored
      then p1\<lparr>responseCache := Some (cache_Set K rc t1 k resp (respMinTTL resp))\<rparr> else p1)"
    using ResolveCached_miss [OF assms(2-5), of t1] assms(6) by auto
  let ?rc = "if ?stored then cache_Set K rc t1 k resp (respMinTTL resp) else rc"
  have rc: "responseCache p' = Some ?rc" using p' Resolve_cache [OF assms(5)] assms(3) by auto
  have stored: "cache_Get K (cache_Set K rc t1 k resp d) t2 k = (if t2 \<le> t1 + d then Some resp else None)" if "0 < d" for d
    using that assms(7) ttl_cache.cache_laws(1,3) [OF assms(1)] by (simp add: live_def expired_def expiry_def)
  have "cache_Get K rc t2 k = None"
    using assms(4,9) unfolding ttl_cache.cache_laws(1) [OF assms(1)] by (rule live_mono)
  have old: "cache_Get K ?rc t2 k = (if ?stored \<and> t2 \<le> t1 + respMinTTL resp then Some resp else None)"
    using stored [of "respMinTTL resp"] \<open>cache_Get K rc t2 k = None\<close> by auto
  have "if ?stored \<and> t2 \<le> t1 + respMinTTL resp
      then ResolveCached D K t2 t3 p' query = (Inr resp, query, p')
      else fst (ResolveCached D K t2 t3 p' query) = fst (Resolve D p' query) \<and>
           client_net (snd (snd (ResolveCached D K t2 t3 p' query))) = client_net (snd (snd (Resolve D p' query)))"
  proof (cases "?stored \<and> t2 \<le> t1 + respMinTTL resp")
    case True
    with old have "cache_Get K ?rc t2 k = Some resp" by simp
    from ResolveCached_hit [OF assms(8) rc this, of t3] True show ?thesis by simp
  next
    case False
    with old have "cache_Get K ?rc t2 k = None" by simp
    from ResolveCached_asks [OF rc assms(8) this, of t3] show ?thesis unfolding if_not_P [OF False] .
  qed
  moreover have "\<forall>s \<in> ttls resp. respMinTTL resp \<le> s * second" using respMinTTL_le by blast
  ultimately show ?thesis using out respMinTTL_Min [of resp] unfolding conj_assoc by (intro conjI)
qed

definition ex_msg :: "16 word \<Rightarrow> string \<Rightarrow> dns_msg" where
  "ex_msg i name = new_Msg\<lparr>m_Id := i, m_Question := [\<lparr>q_Name = name, q_Qtype = TypeA, q_Qclass = ClassINET\<rparr>]\<rparr>"

definition ex_answer :: "string \<Rightarrow> dns_rr" where
  "ex_answer name = \<lparr>rr_Name = name, rr_Rrtype = TypeA, rr_Class = ClassINET, rr_Ttl = 30, rr_Data = A_rdata [1, 2, 3, 4]\<rparr>"

definition ex_net :: mem_upstream where
  "ex_net = \<lparr>mu_up = True, mu_records = (\<lambda>n t. [ex_answer n])\<rparr>"

definition ex_upstream :: "(mem_upstream, dns_msg mem_cache) upstream_pkg" where
  "ex_upstream = InitCache mem_cache_ops (upstream_default ex_net) (60 * second) (120 * second)"

lemma ex_upstream_miss:
  "cacheKey mem_dns (ex_msg i ''a.b.'') = Some ''a.b.:A''"
  "responseCache ex_upstream = Some (cache_New mem_cache_ops (60 * second) (120 * second))"
  "cache_Get mem_cache_ops (cache_New mem_cache_ops (60 * second) (120 * second)) t k = None"
  "Resolve mem_dns ex_upstream (ex_msg i ''a.b.'') =
     (Inr ((mem_reply new_Msg ((ex_msg i ''a.b.'')\<lparr>m_RecursionDesired := True\<rparr>))\<lparr>m_Answer := [ex_answer ''a.b.'']\<rparr>),
      (ex_msg i ''a.b.'')\<lparr>m_RecursionDesired := True\<rparr>, ex_upstream)"
  by (simp_all add: cacheKey_def ex_msg_def mem_dns_def mem_TypeToString_def ToLower_def lower_char_def char_of_def bit_0
      ex_upstream_def InitCache_def mc.Get_New Resolve_def upstream_default_def mem_Exchange_def ex_net_def Let_def)


lemma ex_ttls:
  "m_Answer resp = [ex_answer n] \<Longrightarrow> m_Ns resp = [] \<Longrightarrow> respMinTTL resp = 30 * second"
  by (simp add: respMinTTL_Min ttls_def ttls_below_def ex_answer_def)
    (rule Min_eqI, auto)

abbreviation ex_reply :: "16 word \<Rightarrow> dns_msg" where
  "ex_reply i \<equiv> (mem_reply new_Msg ((ex_msg i ''a.b.'')\<lparr>m_RecursionDesired := True\<rparr>))\<lparr>m_Answer := [ex_answer ''a.b.'']\<rparr>"

lemma ex_reply: "respMinTTL (ex_reply i) = 30 * second" "m_Rcode (ex_reply i) = RcodeSuccess" "m_Id (ex_reply i) = i"
  by (simp_all add: ex_ttls mem_reply_def new_Msg_def ex_msg_def)

theorem ResolveCached_freshness_witness:
  "\<exists>p'. ResolveCached mem_dns mem_cache_ops 1 2 ex_upstream (ex_msg 7 ''a.b.'') =
       (Inr (ex_reply 7), (ex_msg 7 ''a.b.'')\<lparr>m_RecursionDesired := True\<rparr>, p') \<and>
     ResolveCached mem_dns mem_cache_ops (2 + 30 * second) 9 p' (ex_msg 8 ''a.b.'') = (Inr (ex_reply 7), ex_msg 8 ''a.b.'', p') \<and>
     fst (ResolveCached mem_dns mem_cache_ops (3 + 30 * second) 9 p' (ex_msg 8 ''a.b.'')) = fst (Resolve mem_dns p' (ex_msg 8 ''a.b.''))"
proof -
  obtain out msg' p' where run: "ResolveCached mem_dns mem_cache_ops 1 2 ex_upstream (ex_msg 7 ''a.b.'') = (out, msg', p')"
    by (metis surj_pair)
  moreover have "msg' = (ex_msg 7 ''a.b.'')\<lparr>m_RecursionDesired := True\<rparr>"
    using ResolveCached_miss [OF ex_upstream_miss(1-4), of 1 2 7] run by simp
  moreover note fresh = ResolveCached_freshness [OF mc.ttl_cache_axioms ex_upstream_miss(1-4) run _ ex_upstream_miss(1)]
  have "out = Inr (ex_reply 7)"
    "ResolveCached mem_dns mem_cache_ops (2 + 30 * second) 9 p' (ex_msg 8 ''a.b.'') = (Inr (ex_reply 7), ex_msg 8 ''a.b.'', p')"
    using fresh [of "2 + 30 * second" 9 8] ex_reply [of 7] by simp_all
  moreover have "fst (ResolveCached mem_dns mem_cache_ops (3 + 30 * second) 9 p' (ex_msg 8 ''a.b.'')) = fst (Resolve mem_dns p' (ex_msg 8 ''a.b.''))"
    using fresh [of "3 + 30 * second" 9 8] ex_reply [of 7] by simp
  ultimately show ?thesis by blast
qed

text \<open>
  A cached response is not a response to the query: after a query that was stored, every
  query of another client for the same name and type gets, while the entry lives, a response with
  the id of the first query, which a client has to refuse; the lifetimes of its records are those
  of the time it was fetched.
\<close>

theorem ResolveCached_foreign_id:
  assumes "dns_library D" and "ttl_cache K entry dflt" and "cacheKey D msg = Some k"
    and "responseCache p = Some rc" and "cache_Get K rc t0 k = None"
    and "Resolve D p msg = (Inr resp, msg1, p1)" and "m_Rcode resp = RcodeSuccess" and "0 < respMinTTL resp"
    and "ResolveCached D K t0 t1 p msg = (out, msg', p')" and "0 \<le> t1"
    and "cacheKey D query = Some k" and "m_Id query \<noteq> m_Id msg" and "t2 \<le> t1 + respMinTTL resp"
  shows "\<exists>r. ResolveCached D K t2 t3 p' query = (Inr r, query, p') \<and> m_Id r = m_Id msg \<and> m_Id r \<noteq> m_Id query \<and>
             m_Answer r = m_Answer resp"
proof -
  have p': "p' = p1\<lparr>responseCache := Some (cache_Set K rc t1 k resp (respMinTTL resp))\<rparr>"
    using ResolveCached_miss [OF assms(3-6), of t1] assms(7-9) by auto
  have "cache_Get K (cache_Set K rc t1 k resp (respMinTTL resp)) t2 k = Some resp"
    using assms(8,10,13) ttl_cache.cache_laws(1,3) [OF assms(2)] by (simp add: live_def expired_def expiry_def)
  then have "ResolveCached D K t2 t3 p' query = (Inr resp, query, p')"
    by (intro ResolveCached_hit [OF assms(11)]) (simp_all add: p')
  with Resolve_Id(1) [OF assms(1,6)] assms(12) show ?thesis by auto
qed

theorem ResolveCached_foreign_id_witness:
  "\<exists>r p'. ResolveCached mem_dns mem_cache_ops 5 5
       (snd (snd (ResolveCached mem_dns mem_cache_ops 1 2 ex_upstream (ex_msg 7 ''a.b.'')))) (ex_msg 8 ''a.b.'') =
     (Inr r, ex_msg 8 ''a.b.'', p') \<and> m_Id r = 7 \<and> m_Id (ex_msg 8 ''a.b.'') = 8"
proof -
  obtain out msg' p' where run: "ResolveCached mem_dns mem_cache_ops 1 2 ex_upstream (ex_msg 7 ''a.b.'') = (out, msg', p')"
    by (metis surj_pair)
  have ids: "m_Id (ex_msg i ''a.b.'') = i" for i by (simp add: ex_msg_def)
  have "\<exists>r. ResolveCached mem_dns mem_cache_ops 5 5 p' (ex_msg 8 ''a.b.'') = (Inr r, ex_msg 8 ''a.b.'', p') \<and>
      m_Id r = m_Id (ex_msg 7 ''a.b.'') \<and> m_Id r \<noteq> m_Id (ex_msg 8 ''a.b.'') \<and> m_Answer r = m_Answer (ex_reply 7)"
    by (rule ResolveCached_foreign_id [OF md.dns_library_axioms mc.ttl_cache_axioms ex_upstream_miss(1-4) ex_reply(2) _ run _
          ex_upstream_miss(1)]) (simp_all add: ids ex_reply)
  with run ids show ?thesis by auto
qed

end
