(* ===== verification/Net.thy ===== *)
theory Net imports Strconv Wire begin

text \<open>
  Addresses: what the source uses of Go's package \<^verbatim>\<open>net\<close>. \<open>SplitHostPort\<close> and
  \<open>JoinHostPort\<close> take the host from an address with a port and put it back;
  \<open>ParseIP\<close> reads an address in the IPv4 or IPv6 notation into its 16 bytes, and
  \<open>To4\<close> gives the four bytes of an IPv4 address among them.
\<close>

section \<open>Host and port\<close>

definition IndexByte :: "string \<Rightarrow> char \<Rightarrow> nat option" where
  "IndexByte s c = (let n = length (takeWhile (\<lambda>x. x \<noteq> c) s) in if n < length s then Some n else None)"

definition LastIndexByte :: "string \<Rightarrow> char \<Rightarrow> nat option" where
  "LastIndexByte s c =
     (let n = length (takeWhile (\<lambda>x. x \<noteq> c) (rev s)) in if n < length s then Some (length s - 1 - n) else None)"

datatype addr_error = MissingPort | TooManyColons | MissingBracket | UnexpectedBracket

definition SplitHostPort :: "string \<Rightarrow> addr_error + string \<times> string" where
  "SplitHostPort hostport =
     (case LastIndexByte hostport CHR '':'' of
        None \<Rightarrow> Inl MissingPort
      | Some i \<Rightarrow>
          (let finish = (\<lambda>host j k.
             if CHR ''['' \<in> set (drop j hostport) then Inl UnexpectedBracket
             else if CHR '']'' \<in> set (drop k hostport) then Inl UnexpectedBracket
             else Inr (host, drop (i + 1) hostport))
           in if take 1 hostport = ''['' then
                (case IndexByte hostport CHR '']'' of
                   None \<Rightarrow> Inl MissingBracket
                 | Some e \<Rightarrow>
                     (if e + 1 = length hostport then Inl MissingPort
                      else if e + 1 = i then finish (take (e - 1) (drop 1 hostport)) 1 (e + 1)
                      else if hostport ! (e + 1) = CHR '':'' then Inl TooManyColons
                      else Inl MissingPort))
              else let host = take i hostport in
                if CHR '':'' \<in> set host then Inl TooManyColons
                else finish host 0 0))"

text \<open>\<^verbatim>\<open>net.JoinHostPort\<close>: a host with a colon or a percent sign is put in brackets.\<close>

definition JoinHostPort :: "string \<Rightarrow> string \<Rightarrow> string" where
  "JoinHostPort host port =
     (if CHR '':'' \<in> set host \<or> CHR ''%'' \<in> set host then ''['' @ host @ '']:'' @ port
      else host @ '':'' @ port)"

definition no_brackets :: "string \<Rightarrow> bool" where
  "no_brackets s \<longleftrightarrow> CHR ''['' \<notin> set s \<and> CHR '']'' \<notin> set s"

lemma IndexByte_append: "c \<notin> set s \<Longrightarrow> IndexByte (s @ c # t) c = Some (length s)"
proof -
  assume "c \<notin> set s"
  then have "takeWhile (\<lambda>x. x \<noteq> c) (s @ c # t) = s" by (subst takeWhile_append2) auto
  then show ?thesis by (simp add: IndexByte_def)
qed

lemma LastIndexByte_append: "c \<notin> set t \<Longrightarrow> LastIndexByte (s @ c # t) c = Some (length s)"
proof -
  assume "c \<notin> set t"
  then have "takeWhile (\<lambda>x. x \<noteq> c) (rev t @ c # rev s) = rev t" by (subst takeWhile_append2) auto
  then show ?thesis by (simp add: LastIndexByte_def)
qed

lemma SplitHostPort_plain:
  assumes "CHR '':'' \<notin> set h" "CHR '':'' \<notin> set p" "no_brackets h" "no_brackets p"
  shows "SplitHostPort (h @ '':'' @ p) = Inr (h, p)"
proof -
  have "take 1 (h @ CHR '':'' # p) \<noteq> ''[''" using assms(3) by (cases h) (auto simp: no_brackets_def)
  then show ?thesis
    using assms LastIndexByte_append [of "CHR '':''" p h] by (auto simp: SplitHostPort_def no_brackets_def)
qed

lemma SplitHostPort_bracket:
  assumes "CHR '':'' \<notin> set p" "no_brackets h" "no_brackets p"
  shows "SplitHostPort (''['' @ h @ '']:'' @ p) = Inr (h, p)"
proof -
  have "LastIndexByte (''['' @ h @ '']:'' @ p) CHR '':'' = Some (length h + 2)"
    using LastIndexByte_append [of "CHR '':''" p "''['' @ h @ '']''"] assms(1) by simp
  moreover have "IndexByte (''['' @ h @ '']:'' @ p) CHR '']'' = Some (length h + 1)"
    using IndexByte_append [of "CHR '']''" "''['' @ h" "'':'' @ p"] assms(2) by (simp add: no_brackets_def)
  ultimately show ?thesis using assms by (simp add: SplitHostPort_def no_brackets_def)
qed

lemma SplitHostPort_JoinHostPort:
  assumes "CHR '':'' \<notin> set p" "no_brackets h" "no_brackets p"
  shows "SplitHostPort (JoinHostPort h p) = Inr (h, p)"
  using assms SplitHostPort_plain SplitHostPort_bracket by (auto simp: JoinHostPort_def)

section \<open>IP addresses\<close>

text \<open>One decimal field of an IPv4 address: one to three digits, no leading zero, at most 255.\<close>

definition parse_octet :: "string \<Rightarrow> byte option" where
  "parse_octet s =
     (if s = [] \<or> length s > 1 \<and> hd s = CHR ''0'' then None
      else case read_digits 0 s of
             None \<Rightarrow> None
           | Some n \<Rightarrow> if n > 255 then None else Some (word_of_nat n))"

definition parseIPv4 :: "string \<Rightarrow> byte list option" where
  "parseIPv4 s =
     (case map parse_octet (Split CHR ''.'' s) of
        [Some a, Some b, Some c, Some d] \<Rightarrow> Some [a, b, c, d]
      | _ \<Rightarrow> None)"

definition hex_val :: "char \<Rightarrow> nat option" where
  "hex_val c =
     (let n = of_char c :: nat in
      if 48 \<le> n \<and> n \<le> 57 then Some (n - 48)
      else if 97 \<le> n \<and> n \<le> 102 then Some (n - 87)
      else if 65 \<le> n \<and> n \<le> 70 then Some (n - 55) else None)"

definition is_hex :: "char \<Rightarrow> bool" where
  "is_hex c \<longleftrightarrow> hex_val c \<noteq> None"

definition hex_value :: "string \<Rightarrow> nat" where
  "hex_value ds = foldl (\<lambda>a c. 16 * a + the (hex_val c)) 0 ds"

text \<open>
  The loop of the IPv6 parser. \<open>bs\<close> are the bytes read so far and \<open>ell\<close> the position of
  the ellipsis, if it has been seen. The result is the bytes and the ellipsis, when all of the
  input is used up.
\<close>

function ipv6_loop :: "byte list \<Rightarrow> nat option \<Rightarrow> string \<Rightarrow> (byte list \<times> nat option) option" where
  "ipv6_loop bs ell s =
     (if length bs \<ge> 16 then (if s = [] then Some (bs, ell) else None)
      else let ds = takeWhile is_hex s; r = dropWhile is_hex s in
        if ds = [] \<or> length ds > 4 then None
        else if take 1 r = ''.'' then
          (if ell = None \<and> length bs \<noteq> 12 then None
           else if length bs + 4 > 16 then None
           else case parseIPv4 s of None \<Rightarrow> None | Some v4 \<Rightarrow> Some (bs @ v4, ell))
        else let bs' = bs @ [word_of_nat (hex_value ds div 256), word_of_nat (hex_value ds mod 256)] in
          (case r of
             [] \<Rightarrow> Some (bs', ell)
           | [c] \<Rightarrow> None
           | c # d # r' \<Rightarrow>
               (if c \<noteq> CHR '':'' then None
                else if d = CHR '':'' then
                  (if ell \<noteq> None then None
                   else if r' = [] then Some (bs', Some (length bs')) else ipv6_loop bs' (Some (length bs')) r')
                else ipv6_loop bs' ell (d # r'))))"
  by pat_completeness auto
termination
proof (relation "measure (\<lambda>(bs, ell, s). length s)", goal_cases)
  case (2 bs ell s ds r bs' c t d r')
  then have "Suc (Suc (length r')) \<le> length s" by (metis length_Cons length_dropWhile_le)
  then show ?case by simp
next
  case (3 bs ell s ds r bs' c t d r')
  then have "Suc (Suc (length r')) \<le> length s" by (metis length_Cons length_dropWhile_le)
  then show ?case by simp
qed simp

declare ipv6_loop.simps [simp del]

definition parseIPv6 :: "string \<Rightarrow> byte list option" where
  "parseIPv6 s =
     (if take 2 s = ''::'' \<and> length s = 2 then Some (replicate 16 0)
      else case (if take 2 s = ''::'' then ipv6_loop [] (Some 0) (drop 2 s) else ipv6_loop [] None s) of
             None \<Rightarrow> None
           | Some (bs, None) \<Rightarrow> if length bs = 16 then Some bs else None
           | Some (bs, Some e) \<Rightarrow>
               if length bs = 16 then None
               else Some (take e bs @ replicate (16 - length bs) 0 @ drop e bs))"

text \<open>The first of the characters \<^verbatim>\<open>. : %\<close> decides; an address with a zone is not an IP address.\<close>

definition ParseIP :: "string \<Rightarrow> byte list option" where
  "ParseIP s =
     (case dropWhile (\<lambda>c. c \<noteq> CHR ''.'' \<and> c \<noteq> CHR '':'' \<and> c \<noteq> CHR ''%'') s of
        [] \<Rightarrow> None
      | c # _ \<Rightarrow>
          (if c = CHR ''.'' then map_option (\<lambda>v4. replicate 10 0 @ [255, 255] @ v4) (parseIPv4 s)
           else if c = CHR '':'' then (if CHR ''%'' \<in> set s then None else parseIPv6 s)
           else None))"

definition To4 :: "byte list \<Rightarrow> byte list option" where
  "To4 ip =
     (if length ip = 4 then Some ip
      else if length ip = 16 \<and> take 10 ip = replicate 10 0 \<and> ip ! 10 = 255 \<and> ip ! 11 = 255
      then Some (drop 12 ip) else None)"

definition show_IPv4 :: "byte list \<Rightarrow> string" where
  "show_IPv4 v4 = Join (map (\<lambda>b. show_nat (unat b)) v4) ''.''"

lemma show_nat_no_dot [simp]: "CHR ''.'' \<notin> set (show_nat n)"
  using show_nat_digits [of "CHR ''.''" n] by auto

lemma hd_show_nat: "hd (show_nat n) = CHR ''0'' \<longleftrightarrow> n = 0"
proof (induction n rule: show_nat.induct)
  case (1 n)
  have "digit n = CHR ''0'' \<longleftrightarrow> n mod 10 = 0"
  proof
    assume "digit n = CHR ''0''"
    then have "(of_char (digit n) :: nat) = 48" by simp
    then show "n mod 10 = 0" by (simp add: of_char_digit)
  qed (simp add: digit_def char_of_def bit_0)
  with 1 show ?case by (subst show_nat.simps) (auto simp: hd_append)
qed

lemma parse_octet_show: "parse_octet (show_nat (unat (b :: byte))) = Some b"
proof -
  have "word_of_nat (unat b) = b" by simp
  moreover have "length (show_nat 0) = 1" by (simp add: show_nat.simps)
  ultimately show ?thesis
    using unat_byte [of b] by (cases "unat b = 0") (auto simp: parse_octet_def hd_show_nat)
qed

lemma parseIPv4_show: "parseIPv4 (show_IPv4 [a, b, c, d]) = Some [a, b, c, d]"
proof -
  have "Split CHR ''.'' (show_IPv4 [a, b, c, d]) = map (\<lambda>b. show_nat (unat b)) [a, b, c, d]"
    unfolding show_IPv4_def by (rule Split_Join) auto
  then show ?thesis by (simp add: parseIPv4_def parse_octet_show)
qed

text \<open>Every IPv4 address in dotted decimals is read back, as its IPv4-mapped 16 bytes.\<close>

lemma ParseIP_show_IPv4:
  "ParseIP (show_IPv4 [a, b, c, d]) = Some (replicate 10 0 @ [255, 255] @ [a, b, c, d])"
proof -
  let ?p = "\<lambda>c. c \<noteq> CHR ''.'' \<and> c \<noteq> CHR '':'' \<and> c \<noteq> CHR ''%''"
  have "CHR ''%'' \<notin> set (show_nat n)" for n using show_nat_digits [of "CHR ''%''" n] by auto
  then have "\<forall>x \<in> set (show_nat (unat a)). ?p x"
    by (metis show_nat_no_colon show_nat_no_dot)
  moreover obtain t where "show_IPv4 [a, b, c, d] = show_nat (unat a) @ CHR ''.'' # t"
    by (simp add: show_IPv4_def)
  ultimately have "dropWhile ?p (show_IPv4 [a, b, c, d]) = CHR ''.'' # t"
    by (simp add: dropWhile_append2)
  then show ?thesis by (simp add: ParseIP_def parseIPv4_show)
qed

lemma To4_mapped: "length v4 = 4 \<Longrightarrow> To4 (replicate 10 0 @ [255, 255] @ v4) = Some v4"
  by (simp add: To4_def nth_append numeral_eq_Suc)

lemma length_parseIPv4: "parseIPv4 s = Some v \<Longrightarrow> length v = 4"
  by (auto simp: parseIPv4_def split: list.splits option.splits)

end
