(* ===== verification/Handler.thy ===== *)
theory Handler imports Rule Ratelimit Analytics Upstream Net begin

text \<open>
  The query handler: \<^verbatim>\<open>internal/handler/handler.go\<close>.

  \<open>ProcessQuery\<close> composes the rate limiter, the rule checker, the upstream resolver and the
  log aggregator over the state of the process, a record of their states. The libraries are
  bundled in \<open>libs\<close>, the \<^verbatim>\<open>dns.ResponseWriter\<close> a query arrives with is given by its
  methods (\<open>resp_writer\<close>) over a state \<open>'w\<close>, and \<open>query_clock\<close> holds what the clock
  shows at each point of the handler that reads it. A panic of the rule checker passes through.
\<close>

section \<open>State\<close>

record ('c, 'r, 'z, 'u) libs =
  lib_cache :: "('c, cache_val) cache_ops"
  lib_redis :: "'r redis_client"
  lib_zset :: "'z zset_ops"
  lib_dns :: "'u dns_lib"

record ('c, 'r, 'z, 'h, 'u, 'k) app =
  app_rules :: "'c rule_pkg"
  app_redis :: 'r
  defaultRateLimiter :: "'z rate_limiter option"
  defaultRateLimitQueries :: int
  defaultRateLimitWindow :: time
  defaultAggregator :: "'h LogAggregator option"
  app_upstream :: "('u, 'k) upstream_pkg"
  DNSQueriesTotal :: "string \<times> string \<times> string \<Rightarrow> nat"
  DNSQueryDurationSeconds :: "(string \<times> string \<times> time) list"

record 'w resp_writer =
  rw_WriteMsg :: "'w \<Rightarrow> dns_msg \<Rightarrow> string option \<times> 'w"
  rw_Network :: "'w \<Rightarrow> string"
  rw_String :: "'w \<Rightarrow> string"

record query_clock =
  k_start :: time
  k_limiter :: time
  k_server_ms :: int
  k_call :: script_call
  k_check :: "time \<times> time"
  k_redirect :: "time \<times> time"
  k_elapsed :: time
  k_logged :: time

definition SetAggregator ::
  "'h LogAggregator option \<Rightarrow> ('c, 'r, 'z, 'h, 'u, 'k) app \<Rightarrow> ('c, 'r, 'z, 'h, 'u, 'k) app" where
  "SetAggregator g a = a\<lparr>defaultAggregator := g\<rparr>"

definition SetRateLimiter ::
  "'z rate_limiter option \<Rightarrow> ('c, 'r, 'z, 'h, 'u, 'k) app \<Rightarrow> ('c, 'r, 'z, 'h, 'u, 'k) app" where
  "SetRateLimiter rl a = a\<lparr>defaultRateLimiter := rl\<rparr>"

definition SetRateLimit :: "int \<Rightarrow> time \<Rightarrow> ('c, 'r, 'z, 'h, 'u, 'k) app \<Rightarrow> ('c, 'r, 'z, 'h, 'u, 'k) app" where
  "SetRateLimit queries window a = a\<lparr>defaultRateLimitQueries := queries, defaultRateLimitWindow := window\<rparr>"

section \<open>Addresses\<close>

definition extractClientIP :: "'w resp_writer \<Rightarrow> 'w \<Rightarrow> string" where
  "extractClientIP W w =
     (let addr = rw_String W w
      in case SplitHostPort addr of Inl err \<Rightarrow> addr | Inr (host, port) \<Rightarrow> host)"

definition getProtocol :: "'w resp_writer \<Rightarrow> 'w \<Rightarrow> string" where
  "getProtocol W w =
     (let addr = rw_Network W w
      in if addr = ''udp'' then ''UDP''
         else if addr = ''tcp'' then
           (let host = (case SplitHostPort (rw_String W w) of Inl err \<Rightarrow> [] | Inr (host, port) \<Rightarrow> host)
            in if host \<noteq> [] then ''DoT'' else ''TCP'')
         else addr)"

section \<open>Responses\<close>

text \<open>A write error is only logged, so the result is the writer after the attempt.\<close>

definition writeRateLimitResponse :: "'u dns_lib \<Rightarrow> 'w resp_writer \<Rightarrow> 'w \<Rightarrow> dns_msg \<Rightarrow> 'w" where
  "writeRateLimitResponse D W w msg =
     (let resp = dns_SetReply D new_Msg msg;
          resp = resp\<lparr>m_Rcode := RcodeRefused\<rparr>
      in snd (rw_WriteMsg W w resp))"

text \<open>The bytes of \<^verbatim>\<open>net.ParseIP(s)\<close>; the nil address has none.\<close>

definition ip_bytes :: "string \<Rightarrow> byte list" where
  "ip_bytes s = (case ParseIP s of None \<Rightarrow> [] | Some ip \<Rightarrow> ip)"

definition writeBlockResponse :: "'u dns_lib \<Rightarrow> 'w resp_writer \<Rightarrow> 'w \<Rightarrow> dns_msg \<Rightarrow> dns_question \<Rightarrow> 'w" where
  "writeBlockResponse D W w msg q =
     (let resp = dns_SetReply D new_Msg msg;
          resp = resp\<lparr>m_Rcode := RcodeNameError\<rparr>;
          rr = \<lparr>rr_Name = q_Name q, rr_Rrtype = TypeA, rr_Class = ClassINET, rr_Ttl = 60,
                rr_Data = A_rdata (ip_bytes ''0.0.0.0'')\<rparr>;
          resp = resp\<lparr>m_Answer := m_Answer resp @ [rr]\<rparr>;
          resp = (if q_Qtype q = TypeAAAA then
                    (let resp = resp\<lparr>m_Answer := []\<rparr>;
                         aaaa = \<lparr>rr_Name = q_Name q, rr_Rrtype = TypeAAAA, rr_Class = ClassINET, rr_Ttl = 60,
                                 rr_Data = AAAA_rdata (ip_bytes ''::'')\<rparr>
                     in resp\<lparr>m_Answer := m_Answer resp @ [aaaa]\<rparr>)
                  else resp)
      in snd (rw_WriteMsg W w resp))"

definition forwardResponse ::
  "'u dns_lib \<Rightarrow> 'w resp_writer \<Rightarrow> ('u, 'k) upstream_pkg \<Rightarrow> 'w \<Rightarrow> dns_msg \<Rightarrow> ('u, 'k) upstream_pkg \<times> 'w" where
  "forwardResponse D W up w msg =
     (case Resolve D up msg of
        (Inl err, msg', up') \<Rightarrow>
          (let resp = dns_SetReply D new_Msg msg';
               resp = resp\<lparr>m_Rcode := RcodeServerFailure\<rparr>
           in (up', snd (rw_WriteMsg W w resp)))
      | (Inr resp, msg', up') \<Rightarrow> (up', snd (rw_WriteMsg W w resp)))"

definition writeRedirectResponse ::
  "'u dns_lib \<Rightarrow> 'w resp_writer \<Rightarrow> ('u, 'k) upstream_pkg \<Rightarrow> 'w \<Rightarrow> dns_msg \<Rightarrow> dns_question \<Rightarrow> string \<Rightarrow>
   ('u, 'k) upstream_pkg \<times> 'w" where
  "writeRedirectResponse D W up w msg q redirectIP =
     (let resp = dns_SetReply D new_Msg msg;
          resp = resp\<lparr>m_Rcode := RcodeSuccess\<rparr>
      in case ParseIP redirectIP of
           None \<Rightarrow> forwardResponse D W up w msg
         | Some ip \<Rightarrow>
             (if To4 ip = None then forwardResponse D W up w msg
              else
                (let rr = \<lparr>rr_Name = q_Name q, rr_Rrtype = TypeA, rr_Class = ClassINET, rr_Ttl = 60,
                           rr_Data = A_rdata ip\<rparr>;
                     resp = resp\<lparr>m_Answer := m_Answer resp @ [rr]\<rparr>;
                     resp = (if q_Qtype q = TypeAAAA then resp\<lparr>m_Answer := []\<rparr> else resp)
                 in (up, snd (rw_WriteMsg W w resp)))))"

section \<open>The handler\<close>

definition submitLog ::
  "'w resp_writer \<Rightarrow> query_clock \<Rightarrow> ('c, 'r, 'z, 'h, 'u, 'k) app \<Rightarrow> 'w \<Rightarrow> string \<Rightarrow> string \<Rightarrow> string \<Rightarrow> string \<Rightarrow>
   ('c, 'r, 'z, 'h, 'u, 'k) app" where
  "submitLog W k a w userID domain qtype status =
     (case defaultAggregator a of
        None \<Rightarrow> a
      | Some g \<Rightarrow>
          a\<lparr>defaultAggregator := Some (SubmitLog g
              \<lparr>Timestamp = k_start k, UserID = userID, ClientIP = extractClientIP W w, Domain = domain,
               QueryType = qtype, Status = status, ResponseTime = k_logged k\<rparr>)\<rparr>)"

text \<open>The end of \<open>ProcessQuery\<close>: the metrics and the log record.\<close>

definition finish_query ::
  "'w resp_writer \<Rightarrow> query_clock \<Rightarrow> ('c, 'r, 'z, 'h, 'u, 'k) app \<Rightarrow> 'w \<Rightarrow> string \<Rightarrow> string \<Rightarrow> string \<Rightarrow> string \<Rightarrow>
   ('c, 'r, 'z, 'h, 'u, 'k) app" where
  "finish_query W k a w userID domain qtype status =
     (let protocol = getProtocol W w;
          a = a\<lparr>DNSQueriesTotal := (DNSQueriesTotal a)
                  ((protocol, status, qtype) := DNSQueriesTotal a (protocol, status, qtype) + 1),
                DNSQueryDurationSeconds := (protocol, status, k_elapsed k) # DNSQueryDurationSeconds a\<rparr>
      in submitLog W k a w userID domain qtype status)"

text \<open>The part of \<open>ProcessQuery\<close> after the rate limiter.\<close>

definition process_allowed ::
  "('c, 'r, 'z, 'u) libs \<Rightarrow> 'w resp_writer \<Rightarrow> query_clock \<Rightarrow> ('c, 'r, 'z, 'h, 'u, 'k) app \<Rightarrow> 'w \<Rightarrow>
   string \<Rightarrow> dns_msg \<Rightarrow> (go_panic + unit) \<times> ('c, 'r, 'z, 'h, 'u, 'k) app \<times> 'w" where
  "process_allowed L W k a w userID msg =
     (case m_Question msg of
        [] \<Rightarrow> (Inr (), a, w)
      | q # _ \<Rightarrow>
          (let domain = q_Name q;
               qtype = dns_TypeToString (lib_dns L) (q_Qtype q);
               (result, rules, rd) = CheckRule (lib_cache L) (lib_redis L) (fst (k_check k)) (snd (k_check k))
                 (app_rules a) (app_redis a) userID domain;
               a = a\<lparr>app_rules := rules, app_redis := rd\<rparr>
           in case result of
                Inl panic \<Rightarrow> (Inl panic, a, w)
              | Inr v \<Rightarrow>
                  (let (status, a, w) =
                     (if v = 1 then (StatusBlocked, a, writeBlockResponse (lib_dns L) W w msg q)
                      else
                        (let ((redirectIP, ok), rules, rd) =
                               GetRedirectDomain (lib_cache L) (lib_redis L) (fst (k_redirect k)) (snd (k_redirect k))
                                 (app_rules a) (app_redis a) userID domain;
                             a = a\<lparr>app_rules := rules, app_redis := rd\<rparr>
                         in if ok then
                              (let (up, w) = writeRedirectResponse (lib_dns L) W (app_upstream a) w msg q redirectIP
                               in (StatusRedirect, a\<lparr>app_upstream := up\<rparr>, w))
                            else
                              (let (up, w) = forwardResponse (lib_dns L) W (app_upstream a) w msg
                               in (StatusAllowed, a\<lparr>app_upstream := up\<rparr>, w))))
                   in (Inr (), finish_query W k a w userID domain qtype status, w))))"

definition ProcessQuery ::
  "('c, 'r, 'z, 'u) libs \<Rightarrow> 'w resp_writer \<Rightarrow> query_clock \<Rightarrow> ('c, 'r, 'z, 'h, 'u, 'k) app \<Rightarrow> 'w \<Rightarrow>
   string \<Rightarrow> dns_msg \<Rightarrow> (go_panic + unit) \<times> ('c, 'r, 'z, 'h, 'u, 'k) app \<times> 'w" where
  "ProcessQuery L W k a w userID msg =
     (case defaultRateLimiter a of
        None \<Rightarrow> process_allowed L W k a w userID msg
      | Some rl \<Rightarrow>
          (let (res, rl') = AllowQuery (lib_zset L) (k_call k) (k_limiter k) (k_server_ms k) rl userID
                 (defaultRateLimitQueries a) (defaultRateLimitWindow a);
               a = a\<lparr>defaultRateLimiter := Some rl'\<rparr>
           in case res of
                Inl err \<Rightarrow> process_allowed L W k a w userID msg
              | Inr allowed \<Rightarrow>
                  (if \<not> allowed then (Inr (), a, writeRateLimitResponse (lib_dns L) W w msg)
                   else process_allowed L W k a w userID msg)))"

definition HandleDNSQuery ::
  "('c, 'r, 'z, 'u) libs \<Rightarrow> 'w resp_writer \<Rightarrow> query_clock \<Rightarrow> ('c, 'r, 'z, 'h, 'u, 'k) app \<Rightarrow> string \<Rightarrow> 'w \<Rightarrow>
   dns_msg \<Rightarrow> (go_panic + unit) \<times> ('c, 'r, 'z, 'h, 'u, 'k) app \<times> 'w" where
  "HandleDNSQuery L W k a userID w msg = ProcessQuery L W k a w userID msg"

section \<open>Users\<close>

datatype user_error = EmptySNI | NoSubdomain string | EmptyUserInSNI string | InvalidPath string | EmptyUserInPath string

fun dotIndex_from :: "nat \<Rightarrow> string \<Rightarrow> int" where
  "dotIndex_from i [] = - 1"
| "dotIndex_from i (c # cs) = (if c = CHR ''.'' then int i else dotIndex_from (Suc i) cs)"

definition dotIndex :: "string \<Rightarrow> int" where
  "dotIndex s = dotIndex_from 0 s"

definition ExtractUserFromSNI :: "string \<Rightarrow> user_error + string" where
  "ExtractUserFromSNI serverName =
     (if serverName = [] then Inl EmptySNI
      else let idx = dotIndex serverName in
        if idx < 0 then Inl (NoSubdomain serverName)
        else let userID = take (nat idx) serverName in
          if userID = [] then Inl (EmptyUserInSNI serverName) else Inr userID)"

fun slashIndex_from :: "nat \<Rightarrow> string \<Rightarrow> int" where
  "slashIndex_from i [] = - 1"
| "slashIndex_from i (c # cs) = (if c = CHR ''/'' then int i else slashIndex_from (Suc i) cs)"

definition ExtractUserFromDoHPath :: "string \<Rightarrow> user_error + string" where
  "ExtractUserFromDoHPath path =
     (if length path = 0 \<or> path ! 0 \<noteq> CHR ''/'' then Inl (InvalidPath path)
      else let path = drop 1 path;
               slashIdx = slashIndex_from 0 path;
               userID = (if slashIdx \<ge> 0 then take (nat slashIdx) path else path)
           in if userID = [] then Inl (EmptyUserInPath path) else Inr userID)"


section \<open>Responses written\<close>

lemma ip_bytes_zero: "ip_bytes ''0.0.0.0'' = replicate 10 0 @ [255, 255, 0, 0, 0, 0]" "ip_bytes ''::'' = replicate 16 0"
proof -
  have "show_IPv4 [0, 0, 0, 0] = ''0.0.0.0''" by (simp add: show_IPv4_def show_nat.simps digit_def char_of_def bit_0)
  then show "ip_bytes ''0.0.0.0'' = replicate 10 0 @ [255, 255, 0, 0, 0, 0]"
    using ParseIP_show_IPv4 [of 0 0 0 0] by (simp add: ip_bytes_def)
  show "ip_bytes ''::'' = replicate 16 0" by (simp add: ip_bytes_def ParseIP_def parseIPv6_def)
qed

text \<open>\<open>wrote W w resp w'\<close>: the one message written on the way from \<open>w\<close> to \<open>w'\<close> is \<open>resp\<close>.\<close>

definition wrote :: "'w resp_writer \<Rightarrow> 'w \<Rightarrow> dns_msg \<Rightarrow> 'w \<Rightarrow> bool" where
  "wrote W w resp w' \<longleftrightarrow> w' = snd (rw_WriteMsg W w resp)"

lemma wrote_iff [simp]: "wrote W w resp (snd (rw_WriteMsg W w resp))"
  by (simp add: wrote_def)

definition zero_record :: "dns_question \<Rightarrow> dns_rr" where
  "zero_record q =
     (if q_Qtype q = TypeAAAA
      then \<lparr>rr_Name = q_Name q, rr_Rrtype = TypeAAAA, rr_Class = ClassINET, rr_Ttl = 60,
            rr_Data = AAAA_rdata (replicate 16 0)\<rparr>
      else \<lparr>rr_Name = q_Name q, rr_Rrtype = TypeA, rr_Class = ClassINET, rr_Ttl = 60,
            rr_Data = A_rdata (replicate 10 0 @ [255, 255, 0, 0, 0, 0])\<rparr>)"

lemma m_Answer_new [simp]: "m_Answer new_Msg = []"
  by (simp add: new_Msg_def)

text \<open>The two addresses that answer a redirected query, and what the handler does with any other.\<close>

lemma writeRedirectResponse_eq:
  "writeRedirectResponse D W up w msg q s =
     (if ParseIP s = None \<or> To4 (the (ParseIP s)) = None then forwardResponse D W up w msg
      else (up, snd (rw_WriteMsg W w ((dns_SetReply D new_Msg msg)\<lparr>m_Rcode := RcodeSuccess,
        m_Answer := (if q_Qtype q = TypeAAAA then [] else m_Answer (dns_SetReply D new_Msg msg) @
          [\<lparr>rr_Name = q_Name q, rr_Rrtype = TypeA, rr_Class = ClassINET, rr_Ttl = 60,
            rr_Data = A_rdata (the (ParseIP s))\<rparr>])\<rparr>))))"
  by (auto simp: writeRedirectResponse_def Let_def split: option.split)

lemma writeBlockResponse_eq:
  "writeBlockResponse D W w msg q =
     snd (rw_WriteMsg W w ((dns_SetReply D new_Msg msg)\<lparr>m_Rcode := RcodeNameError,
       m_Answer := (if q_Qtype q = TypeAAAA then [] else m_Answer (dns_SetReply D new_Msg msg)) @ [zero_record q]\<rparr>))"
  by (simp add: writeBlockResponse_def Let_def zero_record_def ip_bytes_zero)

context dns_library
begin

lemmas reply_laws = SetReply_Id SetReply_Response SetReply_Rcode SetReply_Question SetReply_Answer

lemma writeBlockResponse_reply:
  assumes "m_Question msg = q # qs"
  shows "\<exists>resp. wrote W w resp (writeBlockResponse D W w msg q) \<and> m_Id resp = m_Id msg \<and> m_Response resp \<and>
           m_Rcode resp = RcodeNameError \<and> m_Question resp = [q] \<and> m_Answer resp = [zero_record q]"
  unfolding writeBlockResponse_eq by (rule exI, rule conjI, rule wrote_iff) (simp add: assms reply_laws)

lemma forwardResponse_reply:
  "\<exists>resp. wrote W w resp (snd (forwardResponse D W up w msg)) \<and> m_Id resp = m_Id msg"
proof -
  obtain x msg' up' where r: "Resolve D up msg = (x, msg', up')" by (metis surj_pair)
  have i: "m_Id msg' = m_Id msg" using r by (auto simp: Resolve_def Let_def split: prod.splits sum.splits option.splits)
  show ?thesis
  proof (cases x)
    case (Inl e)
    then have f: "snd (forwardResponse D W up w msg) =
        snd (rw_WriteMsg W w ((dns_SetReply D new_Msg msg')\<lparr>m_Rcode := RcodeServerFailure\<rparr>))"
      using r by (simp add: forwardResponse_def Let_def)
    show ?thesis unfolding f by (rule exI, rule conjI, rule wrote_iff) (simp add: i reply_laws)
  next
    case (Inr y)
    then have "snd (forwardResponse D W up w msg) = snd (rw_WriteMsg W w y)" using r by (simp add: forwardResponse_def)
    moreover have "m_Id y = m_Id msg" using Resolve_Id(1) [OF dns_library_axioms] r Inr by blast
    ultimately show ?thesis using wrote_iff [of W w y] by metis
  qed
qed

lemma writeRedirectResponse_reply:
  "\<exists>resp. wrote W w resp (snd (writeRedirectResponse D W up w msg q ip)) \<and> m_Id resp = m_Id msg"
proof (cases "ParseIP ip = None \<or> To4 (the (ParseIP ip)) = None")
  case True
  then show ?thesis using forwardResponse_reply by (simp add: writeRedirectResponse_eq)
next
  case False
  show ?thesis unfolding writeRedirectResponse_eq if_not_P [OF False] snd_conv
    by (rule exI, rule conjI, rule wrote_iff) (simp add: reply_laws)
qed

lemma writeRedirectResponse_IPv4:
  assumes "m_Question msg = q # qs" and "length v4 = 4"
  shows "\<exists>resp. writeRedirectResponse D W up w msg q (show_IPv4 v4) = (up, snd (rw_WriteMsg W w resp)) \<and>
           m_Id resp = m_Id msg \<and> m_Response resp \<and> m_Rcode resp = RcodeSuccess \<and> m_Question resp = [q] \<and>
           m_Answer resp = (if q_Qtype q = TypeAAAA then []
             else [\<lparr>rr_Name = q_Name q, rr_Rrtype = TypeA, rr_Class = ClassINET, rr_Ttl = 60,
                    rr_Data = A_rdata (replicate 10 0 @ [255, 255] @ v4)\<rparr>])"
proof -
  obtain a b c d where v4: "v4 = [a, b, c, d]"
    using assms(2) by (auto simp: numeral_eq_Suc length_Suc_conv)
  have p: "ParseIP (show_IPv4 v4) = Some (replicate 10 0 @ [255, 255] @ v4)"
    unfolding v4 by (rule ParseIP_show_IPv4)
  have np: "\<not> (ParseIP (show_IPv4 v4) = None \<or> To4 (the (ParseIP (show_IPv4 v4))) = None)"
    using To4_mapped [OF assms(2)] by (simp add: p)
  show ?thesis unfolding writeRedirectResponse_eq if_not_P [OF np]
    by (rule exI, rule conjI, rule refl) (simp add: p assms(1) reply_laws)
qed

end

section \<open>The handler, case by case\<close>

lemma submitLog_frame [simp]:
  "app_rules (submitLog W k a w u d t s) = app_rules a" "app_redis (submitLog W k a w u d t s) = app_redis a"
  "app_upstream (submitLog W k a w u d t s) = app_upstream a"
  by (simp_all add: submitLog_def split: option.split)

lemma finish_query_frame [simp]:
  "app_rules (finish_query W k a w u d t s) = app_rules a" "app_redis (finish_query W k a w u d t s) = app_redis a"
  "app_upstream (finish_query W k a w u d t s) = app_upstream a"
  by (simp_all add: finish_query_def Let_def)

lemma finish_query_log [simp]:
  "defaultAggregator (finish_query W k a w u d t s) =
     map_option (\<lambda>g. SubmitLog g \<lparr>Timestamp = k_start k, UserID = u, ClientIP = extractClientIP W w, Domain = d,
                                 QueryType = t, Status = s, ResponseTime = k_logged k\<rparr>) (defaultAggregator a)"
  by (simp add: finish_query_def submitLog_def Let_def split: option.split)

abbreviation check_of ::
  "('c, 'r, 'z, 'u) libs \<Rightarrow> query_clock \<Rightarrow> ('c, 'r, 'z, 'h, 'u, 'k) app \<Rightarrow> string \<Rightarrow> string \<Rightarrow>
   (go_panic + int) \<times> 'c rule_pkg \<times> 'r" where
  "check_of L k a u d \<equiv> CheckRule (lib_cache L) (lib_redis L) (fst (k_check k)) (snd (k_check k))
     (app_rules a) (app_redis a) u d"

abbreviation redirect_of ::
  "('c, 'r, 'z, 'u) libs \<Rightarrow> query_clock \<Rightarrow> 'c rule_pkg \<Rightarrow> 'r \<Rightarrow> string \<Rightarrow> string \<Rightarrow>
   (string \<times> bool) \<times> 'c rule_pkg \<times> 'r" where
  "redirect_of L k rules rd u d \<equiv> GetRedirectDomain (lib_cache L) (lib_redis L) (fst (k_redirect k)) (snd (k_redirect k))
     rules rd u d"

lemma process_panic:
  assumes "m_Question msg = q # qs" and "check_of L k a u (q_Name q) = (Inl e, rules, rd)"
  shows "process_allowed L W k a w u msg = (Inl e, a\<lparr>app_rules := rules, app_redis := rd\<rparr>, w)"
  using assms by (simp add: process_allowed_def Let_def)

lemma process_blocked:
  assumes "m_Question msg = q # qs" and "check_of L k a u (q_Name q) = (Inr 1, rules, rd)"
  shows "process_allowed L W k a w u msg =
     (let w' = writeBlockResponse (lib_dns L) W w msg q in
      (Inr (), finish_query W k (a\<lparr>app_rules := rules, app_redis := rd\<rparr>) w' u (q_Name q)
         (dns_TypeToString (lib_dns L) (q_Qtype q)) StatusBlocked, w'))"
  using assms by (simp add: process_allowed_def Let_def)

lemma process_redirected:
  assumes "m_Question msg = q # qs" and "check_of L k a u (q_Name q) = (Inr v, rules, rd)" and "v \<noteq> 1"
    and "redirect_of L k rules rd u (q_Name q) = ((ip, True), rules', rd')"
    and "writeRedirectResponse (lib_dns L) W (app_upstream a) w msg q ip = (up, w')"
  shows "process_allowed L W k a w u msg =
     (Inr (), finish_query W k (a\<lparr>app_rules := rules', app_redis := rd', app_upstream := up\<rparr>) w' u (q_Name q)
         (dns_TypeToString (lib_dns L) (q_Qtype q)) StatusRedirect, w')"
  using assms by (simp add: process_allowed_def Let_def)

lemma process_forwarded:
  assumes "m_Question msg = q # qs" and "check_of L k a u (q_Name q) = (Inr v, rules, rd)" and "v \<noteq> 1"
    and "redirect_of L k rules rd u (q_Name q) = ((ip, False), rules', rd')"
    and "forwardResponse (lib_dns L) W (app_upstream a) w msg = (up, w')"
  shows "process_allowed L W k a w u msg =
     (Inr (), finish_query W k (a\<lparr>app_rules := rules', app_redis := rd', app_upstream := up\<rparr>) w' u (q_Name q)
         (dns_TypeToString (lib_dns L) (q_Qtype q)) StatusAllowed, w')"
  using assms by (simp add: process_allowed_def Let_def)

lemma process_passed:
  assumes "m_Question msg = q # qs" and "check_of L k a u (q_Name q) = (Inr v, rules, rd)" and "v \<noteq> 1"
  shows "\<exists>a' w' status. process_allowed L W k a w u msg = (Inr (), a', w') \<and>
     (status = StatusAllowed \<and> (app_upstream a', w') = forwardResponse (lib_dns L) W (app_upstream a) w msg \<or>
      status = StatusRedirect \<and> (\<exists>ip. (app_upstream a', w') = writeRedirectResponse (lib_dns L) W (app_upstream a) w msg q ip)) \<and>
     defaultAggregator a' = map_option (\<lambda>g. SubmitLog g
       \<lparr>Timestamp = k_start k, UserID = u, ClientIP = extractClientIP W w', Domain = q_Name q,
        QueryType = dns_TypeToString (lib_dns L) (q_Qtype q), Status = status, ResponseTime = k_logged k\<rparr>)
       (defaultAggregator a)"
proof -
  obtain ip ok rules' rd' where re: "redirect_of L k rules rd u (q_Name q) = ((ip, ok), rules', rd')" by (metis surj_pair)
  show ?thesis
  proof (cases ok)
    case True
    obtain up w' where wr: "writeRedirectResponse (lib_dns L) W (app_upstream a) w msg q ip = (up, w')" by (metis surj_pair)
    have ok: "ok = True" using True by simp
    show ?thesis unfolding process_redirected [OF assms re [unfolded ok] wr]
      by (intro exI conjI, rule refl, rule disjI2) (simp_all add: wr exI [of _ ip])
  next
    case False
    obtain up w' where wr: "forwardResponse (lib_dns L) W (app_upstream a) w msg = (up, w')" by (metis surj_pair)
    have ok: "ok = False" using False by simp
    show ?thesis unfolding process_forwarded [OF assms re [unfolded ok] wr]
      by (intro exI conjI, rule refl, rule disjI1) (simp_all add: wr)
  qed
qed

lemma process_allowed_replies:
  assumes D: "dns_library (lib_dns L)" and q: "m_Question msg = q # qs"
    and run: "process_allowed L W k a w u msg = (Inr (), a', w')"
  shows "\<exists>resp. wrote W w resp w' \<and> m_Id resp = m_Id msg"
proof -
  obtain res rules rd where ch: "check_of L k a u (q_Name q) = (res, rules, rd)" by (metis surj_pair)
  obtain v where v: "res = Inr v" using run process_panic [OF q, of L k a u _ rules rd W w] ch by (cases res) auto
  show ?thesis
  proof (cases "v = 1")
    case True
    with process_blocked [OF q, of L k a u rules rd W w] ch v run have "w' = writeBlockResponse (lib_dns L) W w msg q"
      by (simp add: Let_def)
    then show ?thesis using dns_library.writeBlockResponse_reply [OF D q, of W w] by metis
  next
    case False
    obtain ip ok rules' rd' where re: "redirect_of L k rules rd u (q_Name q) = ((ip, ok), rules', rd')"
      by (metis surj_pair)
    show ?thesis
    proof (cases ok)
      case True
      obtain up w1 where wr: "writeRedirectResponse (lib_dns L) W (app_upstream a) w msg q ip = (up, w1)" by (metis surj_pair)
      have "w' = w1" using process_redirected [OF q ch [unfolded v] False _ wr] re True run by simp
      then show ?thesis using dns_library.writeRedirectResponse_reply [OF D, of W w "app_upstream a" msg q ip] wr by simp
    next
      case nok: False
      obtain up w1 where wr: "forwardResponse (lib_dns L) W (app_upstream a) w msg = (up, w1)" by (metis surj_pair)
      have "w' = w1" using process_forwarded [OF q ch [unfolded v] False _ wr] re nok run by simp
      then show ?thesis using dns_library.forwardResponse_reply [OF D, of W w "app_upstream a" msg] wr by simp
    qed
  qed
qed


text \<open>The rate limiter does not refuse the query: there is none, it admits it, or it fails.\<close>

definition admits :: "('c, 'r, 'z, 'u) libs \<Rightarrow> query_clock \<Rightarrow> ('c, 'r, 'z, 'h, 'u, 'k) app \<Rightarrow> string \<Rightarrow> bool" where
  "admits L k a u \<longleftrightarrow>
     (case defaultRateLimiter a of
        None \<Rightarrow> True
      | Some rl \<Rightarrow> fst (AllowQuery (lib_zset L) (k_call k) (k_limiter k) (k_server_ms k) rl u
                        (defaultRateLimitQueries a) (defaultRateLimitWindow a)) \<noteq> Inr False)"

lemma ProcessQuery_admitted:
  assumes "admits L k a u"
  shows "\<exists>rl. ProcessQuery L W k a w u msg = process_allowed L W k (a\<lparr>defaultRateLimiter := rl\<rparr>) w u msg"
proof (cases "defaultRateLimiter a")
  case None
  then have a: "a\<lparr>defaultRateLimiter := None\<rparr> = a" by simp
  show ?thesis by (intro exI [of _ None]) (simp only: ProcessQuery_def None option.case a)
next
  case (Some rl)
  obtain res rl' where al: "AllowQuery (lib_zset L) (k_call k) (k_limiter k) (k_server_ms k) rl u
      (defaultRateLimitQueries a) (defaultRateLimitWindow a) = (res, rl')" by (metis surj_pair)
  with Some assms have "res \<noteq> Inr False" by (simp add: admits_def)
  with Some al show ?thesis
    by (intro exI [of _ "Some rl'"]) (auto simp: ProcessQuery_def Let_def split: sum.split)
qed

lemma ProcessQuery_refused:
  assumes "defaultRateLimiter a = Some rl"
    and "AllowQuery (lib_zset L) (k_call k) (k_limiter k) (k_server_ms k) rl u
           (defaultRateLimitQueries a) (defaultRateLimitWindow a) = (Inr False, rl')"
  shows "ProcessQuery L W k a w u msg =
     (Inr (), a\<lparr>defaultRateLimiter := Some rl'\<rparr>, writeRateLimitResponse (lib_dns L) W w msg)"
  using assms by (simp add: ProcessQuery_def Let_def)

lemma ProcessQuery_reply:
  assumes "dns_library (lib_dns L)" and "m_Question msg = q # qs"
    and "ProcessQuery L W k a w u msg = (Inr (), a', w')"
  shows "\<exists>resp. wrote W w resp w' \<and> m_Id resp = m_Id msg"
proof (cases "admits L k a u")
  case True
  obtain rl where "ProcessQuery L W k a w u msg = process_allowed L W k (a\<lparr>defaultRateLimiter := rl\<rparr>) w u msg"
    using ProcessQuery_admitted [OF True, of W w msg] by (elim exE)
  with assms(3) show ?thesis using process_allowed_replies [OF assms(1,2)] by metis
next
  case False
  then obtain rl rl' where rl: "defaultRateLimiter a = Some rl"
    "AllowQuery (lib_zset L) (k_call k) (k_limiter k) (k_server_ms k) rl u
       (defaultRateLimitQueries a) (defaultRateLimitWindow a) = (Inr False, rl')"
    by (auto simp: admits_def split: option.splits) (metis prod.collapse)
  with assms(3) have w': "w' = writeRateLimitResponse (lib_dns L) W w msg" by (simp add: ProcessQuery_refused)
  show ?thesis unfolding w' writeRateLimitResponse_def Let_def
    by (rule exI, rule conjI, rule wrote_iff) (simp add: dns_library.SetReply_Id [OF assms(1)])
qed

lemma process_allowed_untouched:
  assumes "process_allowed L W k a w u msg = (res, a', w')" and "m_Question msg = [] \<or> (\<exists>e. res = Inl e)"
  shows "w' = w"
proof (cases "m_Question msg")
  case (Cons q qs)
  obtain x rules rd where ch: "check_of L k a u (q_Name q) = (x, rules, rd)" by (metis surj_pair)
  show ?thesis
  proof (cases x)
    case (Inl e)
    with assms(1) process_panic [OF Cons, of L k a u e rules rd W w] ch show ?thesis by simp
  next
    case (Inr v)
    with assms ch Cons show ?thesis
      by (auto simp: process_allowed_def Let_def split: if_splits prod.splits)
  qed
qed (use assms(1) in \<open>simp add: process_allowed_def\<close>)

text \<open>Whatever happens, at most one message is written.\<close>

lemma ProcessQuery_writer:
  assumes "dns_library (lib_dns L)" and "ProcessQuery L W k a w u msg = (res, a', w')"
  shows "w' = w \<or> (\<exists>resp. wrote W w resp w')"
proof (cases "admits L k a u")
  case True
  obtain rl where run: "ProcessQuery L W k a w u msg = process_allowed L W k (a\<lparr>defaultRateLimiter := rl\<rparr>) w u msg"
    using ProcessQuery_admitted [OF True, of W w msg] by (elim exE)
  show ?thesis
  proof (cases "m_Question msg = [] \<or> (\<exists>e. res = Inl e)")
    case True
    with run assms(2) process_allowed_untouched [of L W k "a\<lparr>defaultRateLimiter := rl\<rparr>" w u msg res a' w'] show ?thesis by simp
  next
    case False
    then obtain q qs where q: "m_Question msg = q # qs" and "res = Inr ()" by (cases "m_Question msg"; cases res) auto
    with ProcessQuery_reply [OF assms(1) q, of W k a w u a' w'] assms(2) show ?thesis by auto
  qed
next
  case False
  then obtain rl rl' where "defaultRateLimiter a = Some rl"
    "AllowQuery (lib_zset L) (k_call k) (k_limiter k) (k_server_ms k) rl u
       (defaultRateLimitQueries a) (defaultRateLimitWindow a) = (Inr False, rl')"
    by (auto simp: admits_def split: option.splits) (metis prod.collapse)
  with assms(2) have w': "w' = writeRateLimitResponse (lib_dns L) W w msg" by (simp add: ProcessQuery_refused)
  show ?thesis unfolding w' writeRateLimitResponse_def Let_def by (rule disjI2, rule exI, rule wrote_iff)
qed

lemma ProcessQuery_check_blocked:
  assumes "dns_library (lib_dns L)" and "admits L k a u" and "m_Question msg = q # qs"
    and "global (app_rules a) = Some c"
    and "Check (lib_cache L) (lib_redis L) (fst (k_check k)) (snd (k_check k)) c (app_redis a) u
           (norm_domain (q_Name q)) = (Inr 1, c', rd)"
  shows "\<exists>a' w' resp. ProcessQuery L W k a w u msg = (Inr (), a', w') \<and> wrote W w resp w' \<and>
     m_Id resp = m_Id msg \<and> m_Rcode resp = RcodeNameError \<and> m_Question resp = [q] \<and>
     m_Answer resp = [zero_record q] \<and> app_upstream a' = app_upstream a \<and>
     defaultAggregator a' = map_option (\<lambda>g. SubmitLog g
       \<lparr>Timestamp = k_start k, UserID = u, ClientIP = extractClientIP W w', Domain = q_Name q,
        QueryType = dns_TypeToString (lib_dns L) (q_Qtype q), Status = StatusBlocked, ResponseTime = k_logged k\<rparr>)
       (defaultAggregator a)"
proof -
  obtain rl where run: "ProcessQuery L W k a w u msg = process_allowed L W k (a\<lparr>defaultRateLimiter := rl\<rparr>) w u msg"
    using ProcessQuery_admitted [OF assms(2), of W w msg] by (elim exE)
  let ?a = "a\<lparr>defaultRateLimiter := rl\<rparr>"
  obtain rules where "check_of L k ?a u (q_Name q) = (Inr 1, rules, rd)"
    using assms(4,5) by (simp add: CheckRule_def Let_def norm_domain_def)
  from process_blocked [OF assms(3) this, of W w]
  have "process_allowed L W k ?a w u msg =
     (Inr (), finish_query W k (?a\<lparr>app_rules := rules, app_redis := rd\<rparr>) (writeBlockResponse (lib_dns L) W w msg q) u (q_Name q)
         (dns_TypeToString (lib_dns L) (q_Qtype q)) StatusBlocked, writeBlockResponse (lib_dns L) W w msg q)"
    by (simp add: Let_def)
  with run dns_library.writeBlockResponse_reply [OF assms(1,3), of W w] show ?thesis by auto
qed

lemma ProcessQuery_blocked:
  assumes "dns_library (lib_dns L)"
    and "checker_env (lib_cache L) entry dflt (lib_redis L) sets_of hashes_of pub_log"
    and "admits L k a u" and "m_Question msg = q # qs" and "global (app_rules a) = Some c"
    and "\<not> suffix ''..'' (q_Name q)"
    and "cache_Get (lib_cache L) (cache c) (fst (k_check k)) (check_cacheKey u (norm_domain (q_Name q))) = None"
    and "blocked_spec (fallback c) (seen_blocklist (lib_redis L) sets_of c (app_redis a) u (norm_domain (q_Name q)))
           (norm_domain (q_Name q))"
  shows "\<exists>a' w' resp. ProcessQuery L W k a w u msg = (Inr (), a', w') \<and> wrote W w resp w' \<and>
     m_Id resp = m_Id msg \<and> m_Rcode resp = RcodeNameError \<and> m_Question resp = [q] \<and>
     m_Answer resp = [zero_record q] \<and> app_upstream a' = app_upstream a \<and>
     defaultAggregator a' = map_option (\<lambda>g. SubmitLog g
       \<lparr>Timestamp = k_start k, UserID = u, ClientIP = extractClientIP W w', Domain = q_Name q,
        QueryType = dns_TypeToString (lib_dns L) (q_Qtype q), Status = StatusBlocked, ResponseTime = k_logged k\<rparr>)
       (defaultAggregator a)"
proof -
  let ?d = "norm_domain (q_Name q)"
  note twice = norm_domain_twice [OF assms(6)]
  have miss: "cache_Get (lib_cache L) (cache c) (fst (k_check k)) (check_cacheKey u (norm_domain ?d)) = None"
    using assms(7) by (simp add: twice)
  have "True \<longleftrightarrow> blocked_spec (fallback c) (seen_blocklist (lib_redis L) sets_of c (app_redis a) u ?d) (norm_domain ?d)"
    using assms(8) by (simp add: twice)
  from checker_env.Check_miss [OF assms(2) miss this, of "snd (k_check k)"] obtain c' rd where
    "Check (lib_cache L) (lib_redis L) (fst (k_check k)) (snd (k_check k)) c (app_redis a) u ?d = (Inr 1, c', rd)" by auto
  from ProcessQuery_check_blocked [OF assms(1,3-5) this] show ?thesis .
qed

section \<open>Users in names and paths\<close>

lemma dotIndex_from: "dotIndex_from i s = (if CHR ''.'' \<in> set s then int (i + length (takeWhile (\<lambda>c. c \<noteq> CHR ''.'') s)) else - 1)"
  by (induction s arbitrary: i) auto

lemma slashIndex_from: "slashIndex_from i s = (if CHR ''/'' \<in> set s then int (i + length (takeWhile (\<lambda>c. c \<noteq> CHR ''/'') s)) else - 1)"
  by (induction s arbitrary: i) auto

lemma take_takeWhile: "take (length (takeWhile P s)) s = takeWhile P s"
  by (metis takeWhile_eq_take)

lemma takeWhile_sep: "c \<in> set s \<Longrightarrow> takeWhile (\<lambda>x. x \<noteq> c) s = u \<longleftrightarrow> c \<notin> set u \<and> (\<exists>r. s = u @ c # r)"
proof
  assume c: "c \<in> set s" and u: "takeWhile (\<lambda>x. x \<noteq> c) s = u"
  have "c \<notin> set u" using u by (auto dest: set_takeWhileD)
  moreover have "dropWhile (\<lambda>x. x \<noteq> c) s \<noteq> []" using c by (auto simp: dropWhile_eq_Nil_conv)
  then obtain r where "dropWhile (\<lambda>x. x \<noteq> c) s = c # r"
    by (metis (mono_tags, lifting) hd_dropWhile list.collapse)
  with u have "s = u @ c # r" by (metis takeWhile_dropWhile_id)
  ultimately show "c \<notin> set u \<and> (\<exists>r. s = u @ c # r)" by blast
next
  assume "c \<notin> set u \<and> (\<exists>r. s = u @ c # r)"
  then show "takeWhile (\<lambda>x. x \<noteq> c) s = u" by (auto simp: takeWhile_append takeWhile_eq_all_conv)
qed

lemma ExtractUserFromSNI_iff:
  "ExtractUserFromSNI s = Inr u \<longleftrightarrow> u \<noteq> [] \<and> CHR ''.'' \<notin> set u \<and> (\<exists>r. s = u @ ''.'' @ r)"
proof (cases "CHR ''.'' \<in> set s")
  case True
  then have "ExtractUserFromSNI s = Inr u \<longleftrightarrow> u \<noteq> [] \<and> takeWhile (\<lambda>c. c \<noteq> CHR ''.'') s = u"
    by (auto simp: ExtractUserFromSNI_def dotIndex_def dotIndex_from take_takeWhile Let_def)
  with takeWhile_sep [OF True, of u] show ?thesis by auto
next
  case False
  then show ?thesis by (auto simp: ExtractUserFromSNI_def dotIndex_def dotIndex_from)
qed

lemma ExtractUserFromDoHPath_iff:
  "ExtractUserFromDoHPath p = Inr u \<longleftrightarrow>
     u \<noteq> [] \<and> CHR ''/'' \<notin> set u \<and> (p = ''/'' @ u \<or> (\<exists>r. p = ''/'' @ u @ ''/'' @ r))"
proof (cases p)
  case (Cons c s)
  show ?thesis
  proof (cases "CHR ''/'' \<in> set s")
    case True
    then have "ExtractUserFromDoHPath p = Inr u \<longleftrightarrow>
        c = CHR ''/'' \<and> u \<noteq> [] \<and> takeWhile (\<lambda>c. c \<noteq> CHR ''/'') s = u"
      by (auto simp: Cons ExtractUserFromDoHPath_def slashIndex_from take_takeWhile Let_def)
    with takeWhile_sep [OF True, of u] True show ?thesis by (auto simp: Cons)
  next
    case False
    then show ?thesis by (auto simp: Cons ExtractUserFromDoHPath_def slashIndex_from Let_def)
  qed
qed (simp add: ExtractUserFromDoHPath_def)

section \<open>Example data for the witnesses\<close>

text \<open>A writer that keeps the messages, for a client at a given network and address.\<close>

record list_writer =
  lw_sent :: "dns_msg list"
  lw_network :: string
  lw_addr :: string

definition list_writer_ops :: "list_writer resp_writer" where
  "list_writer_ops = \<lparr>rw_WriteMsg = (\<lambda>w m. (None, w\<lparr>lw_sent := lw_sent w @ [m]\<rparr>)), rw_Network = lw_network, rw_String = lw_addr\<rparr>"

definition ex_writer :: list_writer where
  "ex_writer = \<lparr>lw_sent = [], lw_network = ''udp'', lw_addr = ''10.1.1.1:5353''\<rparr>"

definition ex_libs :: "(cache_val mem_cache, mem_redis, mem_zset, mem_upstream) libs" where
  "ex_libs = \<lparr>lib_cache = mem_cache_ops, lib_redis = mem_redis_ops, lib_zset = mem_zset_ops, lib_dns = mem_dns\<rparr>"

definition ex_app :: "(cache_val mem_cache, mem_redis, mem_zset, mem_ch, mem_upstream, dns_msg mem_cache) app" where
  "ex_app = \<lparr>app_rules = \<lparr>global = Some ex_checker, totalChecks = 0\<rparr>, app_redis = ex_redis, defaultRateLimiter = None,
     defaultRateLimitQueries = 100, defaultRateLimitWindow = second,
     defaultAggregator = Some (NewLogAggregator 10 5 second), app_upstream = upstream_default ex_net,
     DNSQueriesTotal = (\<lambda>_. 0), DNSQueryDurationSeconds = []\<rparr>"

definition ex_clock :: query_clock where
  "ex_clock = \<lparr>k_start = 3, k_limiter = 4, k_server_ms = 4, k_call = Replied, k_check = (5, 6), k_redirect = (7, 8),
               k_elapsed = 9, k_logged = 10\<rparr>"

lemmas ex_handler_defs = ex_libs_def ex_app_def ex_clock_def ex_writer_def list_writer_ops_def

lemma ex_app_admits: "admits L k ex_app u"
  by (simp add: admits_def ex_app_def)


section \<open>Properties\<close>

text \<open>
  C2. Every query with a question gets exactly one response, with the id of the query: on every
  path of \<open>ProcessQuery\<close> that returns (refused, blocked, redirected, forwarded, upstream
  failure), one message is written and no other.
\<close>

theorem ProcessQuery_replies_once:
  assumes "dns_library (lib_dns L)" and "m_Question msg = q # qs"
    and "ProcessQuery L W k a w u msg = (Inr (), a', w')"
  shows "\<exists>resp. wrote W w resp w' \<and> m_Id resp = m_Id msg"
  by (rule ProcessQuery_reply [OF assms])

definition ex_run where
  "ex_run name = ProcessQuery ex_libs list_writer_ops ex_clock ex_app ex_writer ''alice'' (ex_msg 7 name)"

lemma ex_run_returns:
  "fst (ex_run ''w.example.com.'') = Inr ()" "length (lw_sent (snd (snd (ex_run ''w.example.com.'')))) = 1"
  by code_simp+

theorem ProcessQuery_replies_once_witness:
  "\<exists>resp. lw_sent (snd (snd (ex_run ''w.example.com.''))) = [resp] \<and> m_Id resp = 7"
proof -
  let ?r = "ex_run ''w.example.com.''"
  have "m_Question (ex_msg 7 ''w.example.com.'') = [\<lparr>q_Name = ''w.example.com.'', q_Qtype = TypeA, q_Qclass = ClassINET\<rparr>]"
    by (simp add: ex_msg_def)
  moreover have "ProcessQuery ex_libs list_writer_ops ex_clock ex_app ex_writer ''alice'' (ex_msg 7 ''w.example.com.'') =
      (Inr (), fst (snd ?r), snd (snd ?r))"
    using ex_run_returns(1) unfolding ex_run_def by (metis prod.collapse)
  moreover have "dns_library (lib_dns ex_libs)" using md.dns_library_axioms by (simp add: ex_libs_def)
  ultimately have "\<exists>resp. wrote list_writer_ops ex_writer resp (snd (snd ?r)) \<and> m_Id resp = m_Id (ex_msg 7 ''w.example.com.'')"
    by (intro ProcessQuery_replies_once)
  then show ?thesis by (auto simp: wrote_def list_writer_ops_def ex_writer_def ex_msg_def)
qed

text \<open>
  What the rules decide about a domain, by the reference and not by the code of the checker: the
  decision in the cache while there is one, and else whether the domain matches the block list as
  the lookup sees it (empty if the checker is disabled or Redis fails) or the built-in list.
  \<open>None\<close> is the key of a block decision that holds a redirect target.
\<close>

definition rule_decision ::
  "('c, 'r, 'z, 'u) libs \<Rightarrow> ('r \<Rightarrow> string \<Rightarrow> string set) \<Rightarrow> query_clock \<Rightarrow> ('c, 'r, 'z, 'h, 'u, 'k) app \<Rightarrow>
   string \<Rightarrow> string \<Rightarrow> bool option" where
  "rule_decision L sets_of k a u domain =
     (let d = norm_domain domain
      in case global (app_rules a) of
           None \<Rightarrow> Some (fallback_match defaultFallback d)
         | Some c \<Rightarrow>
             (case cache_Get (lib_cache L) (cache c) (fst (k_check k)) (check_cacheKey u d) of
                Some (CBool b) \<Rightarrow> Some b
              | Some (CStr s) \<Rightarrow> None
              | None \<Rightarrow> Some (blocked_spec (fallback c) (seen_blocklist (lib_redis L) sets_of c (app_redis a) u d) d)))"

lemma check_of_decision:
  assumes "checker_env (lib_cache L) entry dflt (lib_redis L) sets_of hashes_of pub_log"
    and "\<not> suffix ''..'' domain"
  shows "fst (check_of L k a u domain) =
     (case rule_decision L sets_of k a u domain of None \<Rightarrow> Inl TypeAssertion | Some b \<Rightarrow> Inr (if b then 1 else 0))"
proof (cases "global (app_rules a)")
  case None
  then show ?thesis
    by (simp add: CheckRule_def rule_decision_def Let_def norm_domain_def fallbackLoop_iff)
next
  case (Some c)
  let ?d = "norm_domain domain"
  note twice = norm_domain_twice [OF assms(2)]
  have run: "fst (check_of L k a u domain) =
      fst (Check (lib_cache L) (lib_redis L) (fst (k_check k)) (snd (k_check k)) c (app_redis a) u ?d)"
    using Some by (simp add: CheckRule_def Let_def norm_domain_def split: prod.split)
  show ?thesis
  proof (cases "cache_Get (lib_cache L) (cache c) (fst (k_check k)) (check_cacheKey u ?d)")
    case None
    let ?b = "blocked_spec (fallback c) (seen_blocklist (lib_redis L) sets_of c (app_redis a) u ?d) ?d"
    have "cache_Get (lib_cache L) (cache c) (fst (k_check k)) (check_cacheKey u (norm_domain ?d)) = None"
      "?b \<longleftrightarrow> blocked_spec (fallback c) (seen_blocklist (lib_redis L) sets_of c (app_redis a) u ?d) (norm_domain ?d)"
      using None by (simp_all add: twice)
    from checker_env.Check_miss [OF assms(1) this, of "snd (k_check k)"] run Some None show ?thesis
      by (auto simp: rule_decision_def Let_def)
  next
    case hit: (Some v)
    with Some run show ?thesis by (cases v) (simp_all add: Check_eq rule_decision_def Let_def twice)
  qed
qed

text \<open>
  C1. The rules decide what happens to a query the rate limiter lets pass, whether the decision is
  taken from the cache or made afresh. If it is to block, the client gets NXDOMAIN for its question,
  with a zero address of the family it asked for; nothing is sent upstream; and one log record with
  the status BLOCKED, the user, the domain as queried and the client's address is submitted. If it
  is to let the domain pass, the query is answered (by the upstream server or with the target of a
  redirect) and not logged as blocked. If the cached value is not a decision, the handler
  panics without a response, a log record or an upstream query. The decision may be up to 60 seconds
  old; what bounds its age is stated with the checker.
\<close>

theorem blocked_query_never_forwarded:
  assumes "dns_library (lib_dns L)"
    and "checker_env (lib_cache L) entry dflt (lib_redis L) sets_of hashes_of pub_log"
    and "admits L k a u" and "m_Question msg = q # qs" and "\<not> suffix ''..'' (q_Name q)"
  shows "case rule_decision L sets_of k a u (q_Name q) of
       Some True \<Rightarrow> \<exists>a' w' resp. ProcessQuery L W k a w u msg = (Inr (), a', w') \<and> wrote W w resp w' \<and>
         m_Id resp = m_Id msg \<and> m_Rcode resp = RcodeNameError \<and> m_Question resp = [q] \<and>
         m_Answer resp = [zero_record q] \<and> app_upstream a' = app_upstream a \<and>
         defaultAggregator a' = map_option (\<lambda>g. SubmitLog g
           \<lparr>Timestamp = k_start k, UserID = u, ClientIP = extractClientIP W w', Domain = q_Name q,
            QueryType = dns_TypeToString (lib_dns L) (q_Qtype q), Status = StatusBlocked, ResponseTime = k_logged k\<rparr>)
           (defaultAggregator a)
     | Some False \<Rightarrow> \<exists>a' w' status. ProcessQuery L W k a w u msg = (Inr (), a', w') \<and>
         (status = StatusAllowed \<and> (app_upstream a', w') = forwardResponse (lib_dns L) W (app_upstream a) w msg \<or>
          status = StatusRedirect \<and> (\<exists>ip. (app_upstream a', w') = writeRedirectResponse (lib_dns L) W (app_upstream a) w msg q ip)) \<and>
         defaultAggregator a' = map_option (\<lambda>g. SubmitLog g
           \<lparr>Timestamp = k_start k, UserID = u, ClientIP = extractClientIP W w', Domain = q_Name q,
            QueryType = dns_TypeToString (lib_dns L) (q_Qtype q), Status = status, ResponseTime = k_logged k\<rparr>)
           (defaultAggregator a)
     | None \<Rightarrow> \<exists>a'. ProcessQuery L W k a w u msg = (Inl TypeAssertion, a', w) \<and>
         app_upstream a' = app_upstream a \<and> defaultAggregator a' = defaultAggregator a"
proof -
  obtain rl where run: "ProcessQuery L W k a w u msg = process_allowed L W k (a\<lparr>defaultRateLimiter := rl\<rparr>) w u msg"
    using ProcessQuery_admitted [OF assms(3), of W w msg] by (elim exE)
  let ?a = "a\<lparr>defaultRateLimiter := rl\<rparr>"
  obtain res rules rd where ch: "check_of L k ?a u (q_Name q) = (res, rules, rd)" by (metis surj_pair)
  have res: "res = (case rule_decision L sets_of k a u (q_Name q) of
      None \<Rightarrow> Inl TypeAssertion | Some b \<Rightarrow> Inr (if b then 1 else 0))"
    using check_of_decision [OF assms(2,5), of k a u] ch by simp
  consider "rule_decision L sets_of k a u (q_Name q) = None"
    | "rule_decision L sets_of k a u (q_Name q) = Some True" | "rule_decision L sets_of k a u (q_Name q) = Some False"
    by (cases "rule_decision L sets_of k a u (q_Name q)") auto
  then show ?thesis
  proof cases
    case 1
    with res ch have "check_of L k ?a u (q_Name q) = (Inl TypeAssertion, rules, rd)" by simp
    from process_panic [OF assms(4) this, of W w] 1 run show ?thesis by simp
  next
    case 2
    with process_blocked [OF assms(4), of L k ?a u rules rd W w] ch res run
      dns_library.writeBlockResponse_reply [OF assms(1,4), of W w] show ?thesis by (auto simp: Let_def)
  next
    case 3
    with process_passed [OF assms(4), of L k ?a u 0 rules rd W w] ch res run show ?thesis by (auto; metis)
  qed
qed

theorem blocked_query_never_forwarded_witness:
  "\<exists>a' w' resp. ProcessQuery ex_libs list_writer_ops ex_clock ex_app ex_writer ''alice'' (ex_msg 7 ''w.Example.com.'') =
     (Inr (), a', w') \<and> m_Rcode resp = RcodeNameError \<and> lw_sent w' = [resp] \<and> app_upstream a' = app_upstream ex_app"
proof -
  let ?n = "''w.Example.com.''"
  let ?q = "\<lparr>q_Name = ?n, q_Qtype = TypeA, q_Qclass = ClassINET\<rparr>"
  have D: "dns_library (lib_dns ex_libs)" using md.dns_library_axioms by (simp add: ex_libs_def)
  have E: "checker_env (lib_cache ex_libs) mc_entry mc_default (lib_redis ex_libs) mr_sets_of mr_hashes_of mr_log"
    using mem.checker_env_axioms by (simp add: ex_libs_def)
  have q: "m_Question (ex_msg 7 ?n) = ?q # []" by (simp add: ex_msg_def)
  have n: "\<not> suffix ''..'' (q_Name ?q)" and d: "rule_decision ex_libs mr_sets_of ex_clock ex_app ''alice'' (q_Name ?q) = Some True"
    by code_simp+
  from blocked_query_never_forwarded [where k = ex_clock and u = "''alice''" and W = list_writer_ops and w = ex_writer,
      OF D E ex_app_admits q n, unfolded d] show ?thesis
    by (auto simp: wrote_def list_writer_ops_def ex_writer_def)
qed

text \<open>
  What the rate limiter decides. A query over the limit is answered with REFUSED and nothing
  else happens: no rule is checked, nothing is sent upstream, no log record and no metric is
  written. A limiter that fails does not stop the resolver: the query is then processed exactly as
  an admitted one.
\<close>

theorem ProcessQuery_rate_limit:
  assumes "dns_library (lib_dns L)" and "defaultRateLimiter a = Some rl"
    and "AllowQuery (lib_zset L) (k_call k) (k_limiter k) (k_server_ms k) rl u
           (defaultRateLimitQueries a) (defaultRateLimitWindow a) = (res, rl')"
  shows "case res of
       Inr False \<Rightarrow> \<exists>w' resp. ProcessQuery L W k a w u msg = (Inr (), a\<lparr>defaultRateLimiter := Some rl'\<rparr>, w') \<and>
         wrote W w resp w' \<and> m_Id resp = m_Id msg \<and> m_Rcode resp = RcodeRefused \<and> m_Answer resp = []
     | _ \<Rightarrow> ProcessQuery L W k a w u msg = process_allowed L W k (a\<lparr>defaultRateLimiter := Some rl'\<rparr>) w u msg"
proof -
  have "\<exists>w' resp. ProcessQuery L W k a w u msg = (Inr (), a\<lparr>defaultRateLimiter := Some rl'\<rparr>, w') \<and>
      wrote W w resp w' \<and> m_Id resp = m_Id msg \<and> m_Rcode resp = RcodeRefused \<and> m_Answer resp = []" if "res = Inr False"
    unfolding ProcessQuery_refused [OF assms(2) assms(3) [unfolded that]] writeRateLimitResponse_def Let_def
    by (rule exI, rule exI, rule conjI, rule refl, rule conjI, rule wrote_iff)
      (simp add: dns_library.reply_laws [OF assms(1)])
  moreover have "ProcessQuery L W k a w u msg = process_allowed L W k (a\<lparr>defaultRateLimiter := Some rl'\<rparr>) w u msg"
    if "res \<noteq> Inr False"
    using assms(2,3) that by (auto simp: ProcessQuery_def Let_def split: sum.split)
  ultimately show ?thesis by (auto split: sum.split bool.split)
qed

theorem ProcessQuery_rate_limit_witness:
  "\<exists>a' w' resp. ProcessQuery ex_libs list_writer_ops ex_clock
       (ex_app\<lparr>defaultRateLimiter := Some (NewRateLimiter 0 (\<lambda>_. ([], None))), defaultRateLimitQueries := 0\<rparr>)
       ex_writer ''alice'' (ex_msg 7 ''a.b.'') = (Inr (), a', w') \<and>
     lw_sent w' = [resp] \<and> m_Rcode resp = RcodeRefused"
proof -
  let ?rl = "NewRateLimiter 0 (\<lambda>_. ([], None)) :: mem_zset rate_limiter"
  let ?a = "ex_app\<lparr>defaultRateLimiter := Some ?rl, defaultRateLimitQueries := 0\<rparr>"
  let ?q = "AllowQuery (lib_zset ex_libs) (k_call ex_clock) (k_limiter ex_clock) (k_server_ms ex_clock) ?rl ''alice''
           (defaultRateLimitQueries ?a) (defaultRateLimitWindow ?a)"
  have q: "?q = (Inr False, snd ?q)"
    by (simp add: AllowQuery_def allowScript_def mem_zset_ops_def mz_live_def mz_key_def Let_def NewRateLimiter_def
        ex_libs_def ex_clock_def)
  have D: "dns_library (lib_dns ex_libs)" using md.dns_library_axioms by (simp add: ex_libs_def)
  have a: "defaultRateLimiter ?a = Some ?rl" by simp
  from ProcessQuery_rate_limit [OF D a q, of list_writer_ops ex_writer "ex_msg 7 ''a.b.''"] show ?thesis
    by (auto simp: wrote_def list_writer_ops_def ex_writer_def)
qed


text \<open>
  C32. A redirect to an IPv4 address is served as that address: when the rules let the domain
  pass and have a redirect for it, the client gets one A record with exactly these four bytes, or
  an empty success for an AAAA question, and nothing is sent upstream. A target that is not an
  IPv4 address is ignored and the query is forwarded. In both cases the log says REDIRECTED.
\<close>

theorem redirected_query:
  assumes "dns_library (lib_dns L)" and "admits L k a u" and "m_Question msg = q # qs"
    and "check_of L k a u (q_Name q) = (Inr v, rules, rd)" and "v \<noteq> 1"
    and "redirect_of L k rules rd u (q_Name q) = ((ip, True), rules', rd')"
  shows "\<exists>a' w'. ProcessQuery L W k a w u msg = (Inr (), a', w') \<and>
     defaultAggregator a' = map_option (\<lambda>g. SubmitLog g
       \<lparr>Timestamp = k_start k, UserID = u, ClientIP = extractClientIP W w', Domain = q_Name q,
        QueryType = dns_TypeToString (lib_dns L) (q_Qtype q), Status = StatusRedirect, ResponseTime = k_logged k\<rparr>)
       (defaultAggregator a) \<and>
     (\<forall>v4. ip = show_IPv4 v4 \<and> length v4 = 4 \<longrightarrow> app_upstream a' = app_upstream a \<and>
        (\<exists>resp. wrote W w resp w' \<and> m_Id resp = m_Id msg \<and> m_Rcode resp = RcodeSuccess \<and>
           m_Answer resp = (if q_Qtype q = TypeAAAA then []
             else [\<lparr>rr_Name = q_Name q, rr_Rrtype = TypeA, rr_Class = ClassINET, rr_Ttl = 60,
                    rr_Data = A_rdata (replicate 10 0 @ [255, 255] @ v4)\<rparr>]))) \<and>
     (ParseIP ip = None \<or> To4 (the (ParseIP ip)) = None \<longrightarrow>
        (app_upstream a', w') = forwardResponse (lib_dns L) W (app_upstream a) w msg)"
proof -
  obtain rl where run: "ProcessQuery L W k a w u msg = process_allowed L W k (a\<lparr>defaultRateLimiter := rl\<rparr>) w u msg"
    using ProcessQuery_admitted [OF assms(2), of W w msg] by (elim exE)
  obtain up w' where wr: "writeRedirectResponse (lib_dns L) W (app_upstream a) w msg q ip = (up, w')" by (metis surj_pair)
  let ?a = "a\<lparr>defaultRateLimiter := rl\<rparr>"
  let ?a' = "finish_query W k (?a\<lparr>app_rules := rules', app_redis := rd', app_upstream := up\<rparr>) w' u (q_Name q)
         (dns_TypeToString (lib_dns L) (q_Qtype q)) StatusRedirect"
  have pq: "ProcessQuery L W k a w u msg = (Inr (), ?a', w')"
    using process_redirected [OF assms(3), of L k ?a u v rules rd ip rules' rd' W w up w'] assms(4-6) wr run by simp
  moreover have "up = app_upstream a \<and> (\<exists>resp. wrote W w resp w' \<and> m_Id resp = m_Id msg \<and> m_Rcode resp = RcodeSuccess \<and>
      m_Answer resp = (if q_Qtype q = TypeAAAA then []
        else [\<lparr>rr_Name = q_Name q, rr_Rrtype = TypeA, rr_Class = ClassINET, rr_Ttl = 60,
               rr_Data = A_rdata (replicate 10 0 @ [255, 255] @ v4)\<rparr>]))" if "ip = show_IPv4 v4" "length v4 = 4" for v4
    using dns_library.writeRedirectResponse_IPv4 [OF assms(1,3) that(2), of W "app_upstream a" w] wr that(1)
    by (auto simp: wrote_def)
  moreover have "(up, w') = forwardResponse (lib_dns L) W (app_upstream a) w msg"
    if "ParseIP ip = None \<or> To4 (the (ParseIP ip)) = None"
    using wr that by (simp add: writeRedirectResponse_eq)
  ultimately show ?thesis by (intro exI [of _ ?a'] exI [of _ w']) simp
qed

lemma ex_redirect_check:
  "fst (check_of ex_libs ex_clock ex_app ''alice'' ''x.tv.'') = Inr 0"
  "fst (redirect_of ex_libs ex_clock (fst (snd (check_of ex_libs ex_clock ex_app ''alice'' ''x.tv.'')))
     (snd (snd (check_of ex_libs ex_clock ex_app ''alice'' ''x.tv.''))) ''alice'' ''x.tv.'') = (''10.0.0.9'', True)"
  by code_simp+

theorem redirected_query_witness:
  "\<exists>a' w' resp. ProcessQuery ex_libs list_writer_ops ex_clock ex_app ex_writer ''alice'' (ex_msg 7 ''x.tv.'') = (Inr (), a', w') \<and>
     lw_sent w' = [resp] \<and> map rr_Data (m_Answer resp) = [A_rdata (replicate 10 0 @ [255, 255, 10, 0, 0, 9])]"
proof -
  let ?c = "check_of ex_libs ex_clock ex_app ''alice'' ''x.tv.''"
  let ?r = "redirect_of ex_libs ex_clock (fst (snd ?c)) (snd (snd ?c)) ''alice'' ''x.tv.''"
  let ?q = "\<lparr>q_Name = ''x.tv.'', q_Qtype = TypeA, q_Qclass = ClassINET\<rparr>"
  have D: "dns_library (lib_dns ex_libs)" using md.dns_library_axioms by (simp add: ex_libs_def)
  have q: "m_Question (ex_msg 7 ''x.tv.'') = ?q # []" by (simp add: ex_msg_def)
  have c: "check_of ex_libs ex_clock ex_app ''alice'' (q_Name ?q) = (Inr 0, fst (snd ?c), snd (snd ?c))"
    using ex_redirect_check(1) by (simp add: prod_eq_iff)
  have r: "redirect_of ex_libs ex_clock (fst (snd ?c)) (snd (snd ?c)) ''alice'' (q_Name ?q) =
      ((''10.0.0.9'', True), fst (snd ?r), snd (snd ?r))"
    using ex_redirect_check(2) by (simp add: prod_eq_iff)
  have ip: "''10.0.0.9'' = show_IPv4 [10, 0, 0, 9]"
    by (simp add: show_IPv4_def show_nat.simps digit_def char_of_def bit_0)
  have t: "q_Qtype ?q \<noteq> TypeAAAA" by (simp add: dns_consts)
  from redirected_query [OF D ex_app_admits q c _ r, of list_writer_ops ex_writer] ip t show ?thesis
    by (fastforce simp: wrote_def list_writer_ops_def ex_writer_def)
qed

text \<open>
  The log reports redirects that never happened: when the rules hold a cached negative answer
  for the domain (as they do after any first query for a domain without a redirect), the query is
  forwarded like an allowed one and its log record says REDIRECTED.
\<close>

theorem forwarded_query_logged_as_redirected:
  assumes "admits L k a u" and "m_Question msg = q # qs"
    and "check_of L k a u (q_Name q) = (Inr v, rules, rd)" and "v \<noteq> 1" and "global rules = Some c"
    and "cache_Get (lib_cache L) (cache c) (fst (k_redirect k)) (redirect_cacheKey u (norm_domain (q_Name q))) = Some (CStr [])"
  shows "\<exists>a' w'. ProcessQuery L W k a w u msg = (Inr (), a', w') \<and>
     (app_upstream a', w') = forwardResponse (lib_dns L) W (app_upstream a) w msg \<and>
     defaultAggregator a' = map_option (\<lambda>g. SubmitLog g
       \<lparr>Timestamp = k_start k, UserID = u, ClientIP = extractClientIP W w', Domain = q_Name q,
        QueryType = dns_TypeToString (lib_dns L) (q_Qtype q), Status = StatusRedirect, ResponseTime = k_logged k\<rparr>)
       (defaultAggregator a)"
proof -
  obtain rl where run: "ProcessQuery L W k a w u msg = process_allowed L W k (a\<lparr>defaultRateLimiter := rl\<rparr>) w u msg"
    using ProcessQuery_admitted [OF assms(1), of W w msg] by (elim exE)
  obtain up w' where fw: "forwardResponse (lib_dns L) W (app_upstream a) w msg = (up, w')" by (metis surj_pair)
  have "redirect_of L k rules rd u (q_Name q) = (([], True), rules, rd)"
    using assms(5,6) by (simp add: GetRedirectDomain_def GetRedirect_def norm_domain_def Let_def)
  moreover have "writeRedirectResponse (lib_dns L) W (app_upstream a) w msg q [] = (up, w')"
    using fw by (simp add: writeRedirectResponse_eq ParseIP_def)
  ultimately have "process_allowed L W k (a\<lparr>defaultRateLimiter := rl\<rparr>) w u msg =
     (Inr (), finish_query W k (a\<lparr>defaultRateLimiter := rl, app_rules := rules, app_redis := rd, app_upstream := up\<rparr>) w' u (q_Name q)
         (dns_TypeToString (lib_dns L) (q_Qtype q)) StatusRedirect, w')"
    using process_redirected [OF assms(2), of L k "a\<lparr>defaultRateLimiter := rl\<rparr>"] assms(3,4) by simp
  with run fw show ?thesis by simp
qed

definition ex_app_negative :: "(cache_val mem_cache, mem_redis, mem_zset, mem_ch, mem_upstream, dns_msg mem_cache) app" where
  "ex_app_negative = fst (snd (ProcessQuery ex_libs list_writer_ops ex_clock ex_app ex_writer ''alice'' (ex_msg 7 ''plain.org.'')))"

lemma ex_negative:
  "defaultRateLimiter ex_app_negative = None"
  "fst (check_of ex_libs ex_clock ex_app_negative ''alice'' ''plain.org.'') = Inr 0"
  "map_option (\<lambda>c. cache_Get mem_cache_ops (cache c) 7 (redirect_cacheKey ''alice'' (norm_domain ''plain.org.'')))
     (global (fst (snd (check_of ex_libs ex_clock ex_app_negative ''alice'' ''plain.org.'')))) = Some (Some (CStr []))"
  "map_option (\<lambda>g. (map Status (logCh g), logCh_cap g)) (defaultAggregator ex_app_negative) = Some ([StatusAllowed], 10)"
  by code_simp+

theorem forwarded_query_logged_as_redirected_witness:
  "\<exists>a' w'. ProcessQuery ex_libs list_writer_ops ex_clock ex_app_negative ex_writer ''alice'' (ex_msg 8 ''plain.org.'') = (Inr (), a', w') \<and>
     (app_upstream a', w') = forwardResponse mem_dns list_writer_ops (app_upstream ex_app_negative) ex_writer (ex_msg 8 ''plain.org.'') \<and>
     map_option (\<lambda>g. map Status (logCh g)) (defaultAggregator a') = Some [StatusAllowed, StatusRedirect]"
proof -
  let ?c = "check_of ex_libs ex_clock ex_app_negative ''alice'' ''plain.org.''"
  let ?q = "\<lparr>q_Name = ''plain.org.'', q_Qtype = TypeA, q_Qclass = ClassINET\<rparr>"
  have ad: "admits ex_libs ex_clock ex_app_negative ''alice''" using ex_negative(1) by (simp add: admits_def)
  have q: "m_Question (ex_msg 8 ''plain.org.'') = ?q # []" by (simp add: ex_msg_def)
  have c: "check_of ex_libs ex_clock ex_app_negative ''alice'' (q_Name ?q) = (Inr 0, fst (snd ?c), snd (snd ?c))"
    using ex_negative(2) by (simp add: prod_eq_iff)
  obtain ck where g: "global (fst (snd ?c)) = Some ck"
    "cache_Get (lib_cache ex_libs) (cache ck) (fst (k_redirect ex_clock)) (redirect_cacheKey ''alice'' (norm_domain (q_Name ?q))) = Some (CStr [])"
    using ex_negative(3) by (auto simp: ex_libs_def ex_clock_def)
  have "(0::int) \<noteq> 1" by simp
  from forwarded_query_logged_as_redirected [OF ad q c this g, of list_writer_ops ex_writer] show ?thesis
    using ex_negative(4) by (auto simp: ex_libs_def SubmitLog_def)
qed

text \<open>
  The user of a connection: from a TLS server name it is exactly the first label, which must
  not be empty and must be followed by a dot; from a DNS-over-HTTPS path it is exactly the first
  segment, which must not be empty. All other names and paths are errors.
\<close>

theorem ExtractUser_correct:
  "(ExtractUserFromSNI s = Inr u \<longleftrightarrow> u \<noteq> [] \<and> CHR ''.'' \<notin> set u \<and> (\<exists>r. s = u @ ''.'' @ r)) \<and>
   (ExtractUserFromDoHPath p = Inr u \<longleftrightarrow>
      u \<noteq> [] \<and> CHR ''/'' \<notin> set u \<and> (p = ''/'' @ u \<or> (\<exists>r. p = ''/'' @ u @ ''/'' @ r)))"
  by (rule conjI [OF ExtractUserFromSNI_iff ExtractUserFromDoHPath_iff])

text \<open>
  What is recorded of the client: for an address \<^verbatim>\<open>host:port\<close> of a connection the log gets the
  host, IPv6 addresses without their brackets. The protocol label of every plain TCP query with a
  host is \<^verbatim>\<open>DoT\<close>, although DNS over TLS has a network of its own; \<^verbatim>\<open>TCP\<close> is never reported for it.
\<close>

theorem client_labels:
  assumes "rw_String W w = JoinHostPort host port" and "CHR '':'' \<notin> set port" and "no_brackets host"
    and "no_brackets port" and "host \<noteq> []"
  shows "extractClientIP W w = host \<and>
         getProtocol W w = (if rw_Network W w = ''udp'' then ''UDP''
                            else if rw_Network W w = ''tcp'' then ''DoT'' else rw_Network W w)"
  using SplitHostPort_JoinHostPort [OF assms(2-4)] assms(1,5)
  by (simp add: extractClientIP_def getProtocol_def Let_def)

theorem client_labels_witness:
  "extractClientIP list_writer_ops \<lparr>lw_sent = [], lw_network = ''tcp'', lw_addr = ''[fe80::1]:53''\<rparr> = ''fe80::1'' \<and>
   getProtocol list_writer_ops \<lparr>lw_sent = [], lw_network = ''tcp'', lw_addr = ''[fe80::1]:53''\<rparr> = ''DoT''"
  using client_labels [of list_writer_ops "\<lparr>lw_sent = [], lw_network = ''tcp'', lw_addr = ''[fe80::1]:53''\<rparr>" "''fe80::1''" "''53''"]
  by (simp add: list_writer_ops_def JoinHostPort_def no_brackets_def)

text \<open>
  A query without a question gets no response at all: if the rate limiter lets it pass, the
  writer is left untouched, and neither a log record nor a metric is written.
\<close>

theorem empty_question_unanswered:
  assumes "admits L k a u" and "m_Question msg = []"
  shows "\<exists>rl. ProcessQuery L W k a w u msg = (Inr (), a\<lparr>defaultRateLimiter := rl\<rparr>, w)"
proof -
  obtain rl where "ProcessQuery L W k a w u msg = process_allowed L W k (a\<lparr>defaultRateLimiter := rl\<rparr>) w u msg"
    using ProcessQuery_admitted [OF assms(1), of W w msg] by (elim exE)
  with assms(2) show ?thesis by (intro exI [of _ rl]) (simp add: process_allowed_def)
qed

theorem empty_question_unanswered_witness:
  "\<exists>rl. ProcessQuery ex_libs list_writer_ops ex_clock ex_app ex_writer ''alice'' new_Msg =
     (Inr (), ex_app\<lparr>defaultRateLimiter := rl\<rparr>, ex_writer)"
  by (rule empty_question_unanswered [OF ex_app_admits]) (simp add: new_Msg_def)

end
