(* ===== verification/Server.thy ===== *)
theory Server imports Handler begin

text \<open>
  The servers: \<^verbatim>\<open>internal/server/dot.go\<close>, \<^verbatim>\<open>internal/server/doh.go\<close> and \<^verbatim>\<open>internal/server/std.go\<close>.

  A TLS connection is what the client sends, what becomes of the connection after that (the
  client closes it, it breaks, or the client keeps it open and sends nothing more), how many bytes
  each read returns at most, and what was written to it. An HTTP request is the part of it that the handler reads. Both
  kinds of response writers are instances of \<open>resp_writer\<close> of theory \<open>Handler\<close>; the locale
  \<open>silent_reader\<close> is what the connection loop relies on: answering a query does not consume
  input.
\<close>

section \<open>DNS over TLS: connections\<close>

datatype read_error = ReadEOF | ReadUnexpectedEOF | ErrBuf | UnpackFailed string | ReadFailed string
  | Blocked \<comment> \<open>no error: the read has not returned, since nothing more has come\<close>

record tls_conn =
  tc_in :: "byte list"
  tc_end :: read_error \<comment> \<open>what a read meets after these bytes: \<open>ReadEOF\<close> if the client has closed its side,
    \<open>Blocked\<close> if it keeps the connection open\<close>
  tc_chunks :: "nat list" \<comment> \<open>how many bytes the next reads return at most; all that is asked for at the end\<close>
  tc_out :: "byte list"
  tc_broken :: bool \<comment> \<open>the write side fails\<close>
  tc_remote :: string
  tc_closed :: bool

text \<open>
  A read returns at least one byte, and may return fewer than asked for. There is no deadline: while
  the client keeps the connection open and sends nothing, the read does not return.
\<close>

definition conn_Read :: "tls_conn \<Rightarrow> nat \<Rightarrow> (read_error + byte list) \<times> tls_conn" where
  "conn_Read c n =
     (if tc_in c = [] then (Inl (tc_end c), c)
      else let k = (case tc_chunks c of [] \<Rightarrow> n | x # _ \<Rightarrow> min n (max 1 x))
           in (Inr (take k (tc_in c)), c\<lparr>tc_in := drop k (tc_in c), tc_chunks := tl (tc_chunks c)\<rparr>))"

text \<open>\<^verbatim>\<open>io.ReadFull\<close>: reads until the buffer is full; \<open>got\<close> is what has been read already.\<close>

function read_loop :: "tls_conn \<Rightarrow> nat \<Rightarrow> byte list \<Rightarrow> (read_error + byte list) \<times> tls_conn" where
  "read_loop c n got =
     (if n \<le> length got then (Inr got, c)
      else case conn_Read c (n - length got) of
             (Inl e, c') \<Rightarrow> (Inl (if e = ReadEOF \<and> got \<noteq> [] then ReadUnexpectedEOF else e), c')
           | (Inr bs, c') \<Rightarrow> (if bs = [] then (Inl ReadUnexpectedEOF, c') else read_loop c' n (got @ bs)))"
  by pat_completeness auto
termination by (relation "measure (\<lambda>(c, n, got). n - length got)") (auto intro!: diff_less_mono2)

declare read_loop.simps [simp del]

definition readFull :: "tls_conn \<Rightarrow> nat \<Rightarrow> (read_error + byte list) \<times> tls_conn" where
  "readFull c n = read_loop c n []"

text \<open>The two bytes of the length: what the read leaves out of the buffer stays zero.\<close>

definition readMsgFromConn :: "'u dns_lib \<Rightarrow> tls_conn \<Rightarrow> (read_error + dns_msg) \<times> tls_conn" where
  "readMsgFromConn D c =
     (case conn_Read c 2 of
        (Inl err, c1) \<Rightarrow> (Inl err, c1)
      | (Inr bs, c1) \<Rightarrow>
          (let buf = bs @ replicate (2 - length bs) 0;
               len = unat (buf ! 0) * 256 + unat (buf ! 1)
           in if len > 65535 then (Inl ErrBuf, c1)
              else case readFull c1 len of
                (Inl err, c2) \<Rightarrow> (Inl err, c2)
              | (Inr data, c2) \<Rightarrow>
                  (case dns_Unpack D data of
                     Inl err \<Rightarrow> (Inl (UnpackFailed err), c2)
                   | Inr msg \<Rightarrow> (Inr msg, c2))))"

definition conn_Write :: "tls_conn \<Rightarrow> byte list \<Rightarrow> string option \<times> tls_conn" where
  "conn_Write c bs =
     (if tc_broken c \<or> tc_closed c then (Some ''write failed'', c) else (None, c\<lparr>tc_out := tc_out c @ bs\<rparr>))"

definition writeMsgToConn :: "'u dns_lib \<Rightarrow> tls_conn \<Rightarrow> dns_msg \<Rightarrow> string option \<times> tls_conn" where
  "writeMsgToConn D c msg =
     (case dns_Pack D msg of
        Inl err \<Rightarrow> (Some err, c)
      | Inr packed \<Rightarrow>
          (let len = length packed;
               header = [word_of_nat (len div 256), word_of_nat (len mod 256)]
           in case conn_Write c header of
                (Some err, c1) \<Rightarrow> (Some err, c1)
              | (None, c1) \<Rightarrow> conn_Write c1 packed))"

definition dotResponseWriter :: "'u dns_lib \<Rightarrow> tls_conn resp_writer" where
  "dotResponseWriter D = \<lparr>rw_WriteMsg = writeMsgToConn D, rw_Network = (\<lambda>c. ''dot''), rw_String = tc_remote\<rparr>"

definition tlsVersionString :: "16 word \<Rightarrow> string" where
  "tlsVersionString v = (if v = 0x0303 then ''TLS1.2'' else if v = 0x0304 then ''TLS1.3'' else ''unknown'')"

definition conn_Close :: "tls_conn \<Rightarrow> tls_conn" where
  "conn_Close c = c\<lparr>tc_closed := True\<rparr>"

text \<open>
  The loop over the messages of a connection. Each query takes the clock readings at the head of
  the list. A run that ends with the connection still open is waiting in a read for the client, or has
  used up the list.
\<close>

fun dot_loop ::
  "('c, 'r, 'z, 'u) libs \<Rightarrow> query_clock list \<Rightarrow> ('c, 'r, 'z, 'h, 'u, 'k) app \<Rightarrow> string \<Rightarrow> tls_conn \<Rightarrow>
   (go_panic + unit) \<times> ('c, 'r, 'z, 'h, 'u, 'k) app \<times> tls_conn" where
  "dot_loop L [] a userID c = (Inr (), a, c)"
| "dot_loop L (k # ks) a userID c =
     (case readMsgFromConn (lib_dns L) c of
        (Inl err, c1) \<Rightarrow> (Inr (), a, if err = Blocked then c1 else conn_Close c1)
      | (Inr msg, c1) \<Rightarrow>
          (case HandleDNSQuery L (dotResponseWriter (lib_dns L)) k a userID c1 msg of
             (Inl panic, a2, c2) \<Rightarrow> (Inl panic, a2, conn_Close c2)
           | (Inr _, a2, c2) \<Rightarrow> dot_loop L ks a2 userID c2))"

definition handleDoTConnection ::
  "('c, 'r, 'z, 'u) libs \<Rightarrow> query_clock list \<Rightarrow> bool \<Rightarrow> bool \<Rightarrow> string \<Rightarrow> ('c, 'r, 'z, 'h, 'u, 'k) app \<Rightarrow> tls_conn \<Rightarrow>
   (go_panic + unit) \<times> ('c, 'r, 'z, 'h, 'u, 'k) app \<times> tls_conn" where
  "handleDoTConnection L ks isTLS handshakeOk serverName a c =
     (if \<not> isTLS then (Inr (), a, conn_Close c)
      else if \<not> handshakeOk then (Inr (), a, conn_Close c)
      else let userID = (case ExtractUserFromSNI serverName of Inl err \<Rightarrow> ''unknown'' | Inr u \<Rightarrow> u)
           in dot_loop L ks a userID c)"

section \<open>DNS over HTTPS\<close>

definition dnsMimeType :: string where "dnsMimeType = ''application/dns-message''"

record http_writer =
  hw_status :: "nat option"
  hw_ctype :: string
  hw_body :: "byte list"
  hw_broken :: bool \<comment> \<open>the client is gone: writes of the body fail\<close>
  hw_remote :: string

record http_request =
  hr_Path :: string
  hr_Method :: string
  hr_dns :: string
  hr_ContentType :: string
  hr_Body :: "string + byte list"
  hr_RemoteAddr :: string

text \<open>The first \<^verbatim>\<open>WriteHeader\<close> sends the headers; later ones, and later headers, have no effect.\<close>

definition http_WriteHeader :: "http_writer \<Rightarrow> string \<Rightarrow> nat \<Rightarrow> http_writer" where
  "http_WriteHeader w ctype code =
     (case hw_status w of None \<Rightarrow> w\<lparr>hw_status := Some code, hw_ctype := ctype\<rparr> | Some _ \<Rightarrow> w)"

definition http_Write :: "http_writer \<Rightarrow> byte list \<Rightarrow> string option \<times> http_writer" where
  "http_Write w bs =
     (if hw_broken w then (Some ''write failed'', w) else (None, w\<lparr>hw_body := hw_body w @ bs\<rparr>))"

definition http_Error :: "http_writer \<Rightarrow> string \<Rightarrow> nat \<Rightarrow> http_writer" where
  "http_Error w msg code =
     snd (http_Write (http_WriteHeader w ''text/plain; charset=utf-8'' code) (bytes_of_string (msg @ [CHR 0x0A])))"

definition doh_WriteMsg :: "'u dns_lib \<Rightarrow> http_writer \<Rightarrow> dns_msg \<Rightarrow> string option \<times> http_writer" where
  "doh_WriteMsg D w msg =
     (case dns_Pack D msg of
        Inl err \<Rightarrow> (Some err, w)
      | Inr packed \<Rightarrow> http_Write (http_WriteHeader w dnsMimeType 200) packed)"

definition dohResponseWriter :: "'u dns_lib \<Rightarrow> http_writer resp_writer" where
  "dohResponseWriter D = \<lparr>rw_WriteMsg = doh_WriteMsg D, rw_Network = (\<lambda>w. ''doh''), rw_String = hw_remote\<rparr>"

subsection \<open>Base 64\<close>

text \<open>\<^verbatim>\<open>base64.RawURLEncoding\<close>: the alphabet for URLs, no padding, line breaks ignored.\<close>

definition b64_val :: "char \<Rightarrow> nat option" where
  "b64_val c =
     (let n = of_char c :: nat in
      if 65 \<le> n \<and> n \<le> 90 then Some (n - 65)
      else if 97 \<le> n \<and> n \<le> 122 then Some (n - 71)
      else if 48 \<le> n \<and> n \<le> 57 then Some (n + 4)
      else if c = CHR ''-'' then Some 62
      else if c = CHR ''_'' then Some 63 else None)"

fun b64_bytes :: "nat list \<Rightarrow> byte list option" where
  "b64_bytes [] = Some []"
| "b64_bytes [a] = None"
| "b64_bytes [a, b] = Some [word_of_nat (4 * a + b div 16)]"
| "b64_bytes [a, b, c] = Some [word_of_nat (4 * a + b div 16), word_of_nat (16 * (b mod 16) + c div 4)]"
| "b64_bytes (a # b # c # d # r) =
     map_option (\<lambda>bs. [word_of_nat (4 * a + b div 16), word_of_nat (16 * (b mod 16) + c div 4),
                       word_of_nat (64 * (c mod 4) + d)] @ bs) (b64_bytes r)"

definition DecodeString :: "string \<Rightarrow> byte list option" where
  "DecodeString s =
     (let vs = map b64_val (filter (\<lambda>c. c \<noteq> CHR 0x0A \<and> c \<noteq> CHR 0x0D) s)
      in if None \<in> set vs then None else b64_bytes (map the vs))"

text \<open>The bytes of the query that a request carries, or the error it is answered with.\<close>

definition doh_message :: "http_request \<Rightarrow> (string \<times> nat) + byte list" where
  "doh_message r =
     (if hr_Method r = ''GET'' then
        (let dnsParam = hr_dns r in
         if dnsParam = [] then Inl (''missing dns parameter'', 400)
         else case DecodeString dnsParam of
                None \<Rightarrow> Inl (''invalid base64'', 400)
              | Some bs \<Rightarrow> Inr bs)
      else if hr_Method r = ''POST'' then
        (if \<not> HasPrefix (hr_ContentType r) dnsMimeType then Inl (''expected application/dns-message'', 415)
         else case hr_Body r of
                Inl err \<Rightarrow> Inl (''read error'', 400)
              | Inr b \<Rightarrow> Inr (take 65535 b))
      else Inl (''method not allowed'', 405))"

definition handleDoH ::
  "('c, 'r, 'z, 'u) libs \<Rightarrow> query_clock \<Rightarrow> ('c, 'r, 'z, 'h, 'u, 'k) app \<Rightarrow> http_writer \<Rightarrow> http_request \<Rightarrow>
   (go_panic + unit) \<times> ('c, 'r, 'z, 'h, 'u, 'k) app \<times> http_writer" where
  "handleDoH L k a w r =
     (case ExtractUserFromDoHPath (hr_Path r) of
        Inl err \<Rightarrow> (Inr (), a, http_Error w ''invalid path'' 400)
      | Inr userID \<Rightarrow>
          (case doh_message r of
             Inl (m, code) \<Rightarrow> (Inr (), a, http_Error w m code)
           | Inr msgBytes \<Rightarrow>
               (case dns_Unpack (lib_dns L) msgBytes of
                  Inl err \<Rightarrow> (Inr (), a, http_Error w ''invalid DNS message'' 400)
                | Inr msg \<Rightarrow>
                    HandleDNSQuery L (dohResponseWriter (lib_dns L)) k a userID (w\<lparr>hw_remote := hr_RemoteAddr r\<rparr>) msg)))"

section \<open>Plain DNS\<close>

definition DefaultUserID :: string where "DefaultUserID = ''default''"

definition envStdUserID :: "(string \<Rightarrow> string) \<Rightarrow> string" where
  "envStdUserID getenv = (let v = getenv ''STD_USER_ID'' in if v \<noteq> [] then v else DefaultUserID)"

definition ServeDNS ::
  "('c, 'r, 'z, 'u) libs \<Rightarrow> 'w resp_writer \<Rightarrow> query_clock \<Rightarrow> ('c, 'r, 'z, 'h, 'u, 'k) app \<Rightarrow> string \<Rightarrow> 'w \<Rightarrow>
   dns_msg \<Rightarrow> (go_panic + unit) \<times> ('c, 'r, 'z, 'h, 'u, 'k) app \<times> 'w" where
  "ServeDNS L W k a userID w msg = HandleDNSQuery L W k a userID w msg"

section \<open>Framing\<close>

lemma conn_Read_sound:
  "conn_Read c n = (Inr bs, c') \<Longrightarrow> tc_in c = bs @ tc_in c' \<and> tc_out c' = tc_out c \<and> length bs \<le> n"
  by (auto simp: conn_Read_def Let_def split: if_splits list.splits)

lemma conn_Read_progress: "conn_Read c n = (Inr bs, c') \<Longrightarrow> 0 < n \<Longrightarrow> bs \<noteq> []"
  by (auto simp: conn_Read_def Let_def split: if_splits list.splits)

text \<open>Whatever the sizes of the reads, \<^verbatim>\<open>io.ReadFull\<close> gets the next \<open>n\<close> bytes if they come.\<close>

lemma read_loop_full:
  "length got \<le> n \<Longrightarrow> n \<le> length got + length (tc_in c) \<Longrightarrow>
   \<exists>c'. read_loop c n got = (Inr (got @ take (n - length got) (tc_in c)), c') \<and>
        tc_in c' = drop (n - length got) (tc_in c) \<and> tc_out c' = tc_out c"
proof (induction c n got rule: read_loop.induct)
  case (1 c n got)
  show ?case
  proof (cases "n \<le> length got")
    case True
    with 1(2) show ?thesis by (subst read_loop.simps) simp
  next
    case False
    with 1(3) have ne: "tc_in c \<noteq> []" by auto
    obtain bs c1 where r: "conn_Read c (n - length got) = (Inr bs, c1)"
      using ne by (simp add: conn_Read_def Let_def)
    note s = conn_Read_sound [OF r]
    have bs: "bs \<noteq> []" using conn_Read_progress [OF r] False by simp
    have "\<exists>c'. read_loop c1 n (got @ bs) = (Inr ((got @ bs) @ take (n - length (got @ bs)) (tc_in c1)), c') \<and>
        tc_in c' = drop (n - length (got @ bs)) (tc_in c1) \<and> tc_out c' = tc_out c1"
      using 1(1) [OF False r [symmetric]] bs s 1(2,3) False by auto
    then obtain c' where c': "read_loop c1 n (got @ bs) = (Inr ((got @ bs) @ take (n - length (got @ bs)) (tc_in c1)), c')"
        "tc_in c' = drop (n - length (got @ bs)) (tc_in c1)" "tc_out c' = tc_out c1" by blast
    have "read_loop c n got = read_loop c1 n (got @ bs)" using False r bs by (subst read_loop.simps) simp
    moreover have "take (n - length got) (tc_in c) = bs @ take (n - length (got @ bs)) (tc_in c1)"
      "drop (n - length got) (tc_in c) = drop (n - length (got @ bs)) (tc_in c1)"
      using s by simp_all
    ultimately show ?thesis using c' s by simp
  qed
qed

lemma readFull_ok:
  assumes "tc_in c = bs @ rest" and "length bs = n"
  shows "\<exists>c'. readFull c n = (Inr bs, c') \<and> tc_in c' = rest \<and> tc_out c' = tc_out c"
  using read_loop_full [of "[]" n c] assms by (simp add: readFull_def)

definition frame :: "byte list \<Rightarrow> byte list" where
  "frame bs = be16 (word_of_nat (length bs)) @ bs"

lemma header_bytes: "[word_of_nat (n div 256), word_of_nat (n mod 256)] = be16 (word_of_nat n :: 16 word)"
proof -
  have "unat (word_cat2 (word_of_nat (n div 256)) (word_of_nat (n mod 256))) = 256 * (n div 256 mod 256) + n mod 256"
    by (simp add: unat_word_cat2 unat_of_nat take_bit_eq_mod)
  also have "\<dots> = n mod (256 * 256)" by (simp only: mod_mult2_eq)
  also have "\<dots> = unat (word_of_nat n :: 16 word)" by (simp add: unat_of_nat take_bit_eq_mod)
  finally have "word_cat2 (word_of_nat (n div 256)) (word_of_nat (n mod 256)) = (word_of_nat n :: 16 word)"
    by (rule unsigned_word_eqI)
  then show ?thesis by (metis be16_word_cat2)
qed

lemma writeMsgToConn_frame:
  assumes "dns_Pack D msg = Inr bs" and "\<not> tc_broken c" and "\<not> tc_closed c"
  shows "writeMsgToConn D c msg = (None, c\<lparr>tc_out := tc_out c @ frame bs\<rparr>)"
  using assms header_bytes [of "length bs"] by (simp add: writeMsgToConn_def conn_Write_def Let_def frame_def)

text \<open>
  What the reader makes of a frame, for every length. The two bytes of the length come in one read.
  A length of 65536 bytes or more has been cut to 16 bits.
\<close>

lemma readMsgFromConn_header:
  assumes "tc_in c = frame bs @ rest" and "conn_Read c 2 = (Inr h, c1)" and "length h = 2"
  shows "\<exists>c'. readMsgFromConn D c =
      (case dns_Unpack D (take (length bs mod 65536) bs) of Inl e \<Rightarrow> Inl (UnpackFailed e) | Inr m \<Rightarrow> Inr m, c') \<and>
      c' = snd (readFull c1 (length bs mod 65536)) \<and>
      tc_in c' = drop (length bs mod 65536) bs @ rest \<and> tc_out c' = tc_out c"
proof -
  let ?n = "length bs mod 65536"
  obtain x y where xy: "be16 (word_of_nat (length bs) :: 16 word) = [x, y]" by (simp add: be16_def)
  have h: "h = [x, y]" and c1: "tc_in c1 = bs @ rest" "tc_out c1 = tc_out c"
    using conn_Read_sound [OF assms(2)] assms(1,3) xy by (auto simp: frame_def length_Suc_conv numeral_2_eq_2)
  have "word_cat2 x y = (word_of_nat (length bs) :: 16 word)" using xy by (metis be16_word_cat2 BigEndian_be16' Inr_inject)
  then have len: "unat x * 256 + unat y = ?n"
    using unat_word_cat2 [of x y] by (simp add: unat_of_nat take_bit_eq_mod)
  have small: "\<not> 65535 < ?n" by simp
  have "length (take ?n bs) = ?n" by simp
  then obtain c2 where c2: "readFull c1 ?n = (Inr (take ?n bs), c2)" "tc_in c2 = drop ?n bs @ rest" "tc_out c2 = tc_out c1"
    using readFull_ok [of c1 "take ?n bs" "drop ?n bs @ rest" ?n] c1(1) by (auto simp flip: append_assoc)
  have "readMsgFromConn D c = (case dns_Unpack D (take ?n bs) of Inl e \<Rightarrow> Inl (UnpackFailed e) | Inr m \<Rightarrow> Inr m, c2)"
    using small by (simp add: readMsgFromConn_def assms(2) h len c2(1) split: sum.split)
  with c2 c1 show ?thesis by simp
qed

text \<open>A first read of one byte: it is taken for the high byte of the length, with a low byte of zero.\<close>

lemma readMsgFromConn_short:
  assumes "tc_in c = hi # rest" and "tc_chunks c = 1 # xs" and "256 * unat hi \<le> length rest"
  shows "\<exists>c'. readMsgFromConn D c =
           (case dns_Unpack D (take (256 * unat hi) rest) of Inl e \<Rightarrow> Inl (UnpackFailed e) | Inr m \<Rightarrow> Inr m, c') \<and>
         tc_in c' = drop (256 * unat hi) rest"
proof -
  define c1 where "c1 = c\<lparr>tc_in := rest, tc_chunks := xs\<rparr>"
  have rd: "conn_Read c 2 = (Inr [hi], c1)" using assms by (simp add: conn_Read_def c1_def)
  obtain c2 where "readFull c1 (256 * unat hi) = (Inr (take (256 * unat hi) rest), c2)" "tc_in c2 = drop (256 * unat hi) rest"
    using readFull_ok [of c1 "take (256 * unat hi) rest" "drop (256 * unat hi) rest" "256 * unat hi"] assms(3) by (auto simp: c1_def)
  moreover have "\<not> 65535 < 256 * unat hi" using unat_byte [of hi] by simp
  ultimately show ?thesis by (simp add: readMsgFromConn_def rd mult.commute split: sum.split)
qed

section \<open>What a read leaves\<close>

text \<open>Reading only takes bytes off the input; it leaves the rest of the connection alone.\<close>

definition reads_to :: "tls_conn \<Rightarrow> tls_conn \<Rightarrow> bool" where
  "reads_to c c' \<longleftrightarrow> (\<exists>k j. c' = c\<lparr>tc_in := drop k (tc_in c), tc_chunks := drop j (tc_chunks c)\<rparr>)"

lemma reads_toI: "c' = c\<lparr>tc_in := drop k (tc_in c), tc_chunks := drop j (tc_chunks c)\<rparr> \<Longrightarrow> reads_to c c'"
  unfolding reads_to_def by blast

lemma reads_to_refl [intro, simp]: "reads_to c c"
  by (rule reads_toI [where k = 0 and j = 0]) simp

lemma reads_to_trans [trans]:
  assumes "reads_to c c1" and "reads_to c1 c2"
  shows "reads_to c c2"
proof -
  from assms(1) obtain k j where 1: "c1 = c\<lparr>tc_in := drop k (tc_in c), tc_chunks := drop j (tc_chunks c)\<rparr>"
    by (auto simp: reads_to_def)
  from assms(2) obtain k' j' where "c2 = c1\<lparr>tc_in := drop k' (tc_in c1), tc_chunks := drop j' (tc_chunks c1)\<rparr>"
    by (auto simp: reads_to_def)
  with 1 show ?thesis by (intro reads_toI [where k = "k' + k" and j = "j' + j"]) simp
qed

lemma reads_toD:
  assumes "reads_to c c'"
  shows "tc_out c' = tc_out c" "tc_broken c' = tc_broken c" "tc_closed c' = tc_closed c"
    "length (tc_in c') \<le> length (tc_in c)" "set (tc_chunks c') \<subseteq> set (tc_chunks c)"
  using assms by (auto simp: reads_to_def dest: in_set_dropD)

lemma conn_Read_reads_to: "conn_Read c n = (r, c') \<Longrightarrow> reads_to c c'"
  by (auto simp: conn_Read_def Let_def drop_Suc intro!: reads_toI [where j = 1] split: if_splits)

lemma read_loop_reads_to: "read_loop c n got = (r, c') \<Longrightarrow> reads_to c c'"
proof (induction c n got rule: read_loop.induct)
  case (1 c n got)
  show ?case
  proof (cases "n \<le> length got")
    case True
    with 1(2) show ?thesis by (simp add: read_loop.simps [of c])
  next
    case False
    obtain x c1 where r: "conn_Read c (n - length got) = (x, c1)" by (metis surj_pair)
    note conn_Read_reads_to [OF this]
    moreover have "c' = c1 \<or> (\<exists>bs. x = Inr bs \<and> bs \<noteq> [] \<and> read_loop c1 n (got @ bs) = (r, c'))"
      using 1(2) False r by (simp add: read_loop.simps [of c]) (auto split: sum.splits if_splits)
    ultimately show ?thesis using 1(1) [OF False r [symmetric]] by (auto intro: reads_to_trans)
  qed
qed

lemma readMsgFromConn_reads_to:
  assumes "readMsgFromConn D c = (r, c')"
  shows "reads_to c c'"
proof -
  obtain x c1 where rd: "conn_Read c 2 = (x, c1)" by (metis surj_pair)
  note 1 = conn_Read_reads_to [OF rd]
  have "reads_to c1 c'"
    using assms rd read_loop_reads_to
    by (auto simp: readMsgFromConn_def readFull_def Let_def split: sum.splits if_splits prod.splits)
  with 1 show ?thesis by (rule reads_to_trans)
qed


section \<open>The connection loop\<close>

text \<open>Writing a response leaves what the client has sent, or what is known of it, as it is.\<close>

locale silent_reader =
  fixes W :: "'w resp_writer" and input :: "'w \<Rightarrow> 'i"
  assumes write_silent: "input (snd (rw_WriteMsg W w m)) = input w"
begin

lemma HandleDNSQuery_silent:
  assumes "dns_library (lib_dns L)" and "HandleDNSQuery L W k a u w msg = (res, a', w')"
  shows "input w' = input w"
  using ProcessQuery_writer [OF assms(1), of W k a w u msg res a' w'] assms(2)
  by (auto simp: HandleDNSQuery_def wrote_def write_silent)

end

definition tc_rest :: "tls_conn \<Rightarrow> byte list \<times> read_error \<times> nat list \<times> bool \<times> string \<times> bool" where
  "tc_rest c = (tc_in c, tc_end c, tc_chunks c, tc_broken c, tc_remote c, tc_closed c)"

interpretation dotw: silent_reader "dotResponseWriter D" tc_rest for D
  by unfold_locales
    (auto simp: dotResponseWriter_def writeMsgToConn_def conn_Write_def Let_def tc_rest_def split: sum.split)


lemma reads_to_end: "reads_to c c' \<Longrightarrow> tc_end c' = tc_end c"
  by (auto simp: reads_to_def)




text \<open>
  The two bytes of each length come in one read, for messages of the given lengths; how the messages
  themselves are split into reads does not matter.
\<close>

fun headers_whole :: "nat list \<Rightarrow> tls_conn \<Rightarrow> bool" where
  "headers_whole [] c = True"
| "headers_whole (n # ns) c =
     (case conn_Read c 2 of
        (Inl e, c1) \<Rightarrow> False
      | (Inr h, c1) \<Rightarrow> length h = 2 \<and> headers_whole ns (snd (readFull c1 n)))"

text \<open>What has been written makes no difference to the reads.\<close>

lemma conn_Read_out: "conn_Read (c\<lparr>tc_out := out\<rparr>) n = apsnd (\<lambda>c. c\<lparr>tc_out := out\<rparr>) (conn_Read c n)"
  by (simp add: conn_Read_def Let_def)

lemma read_loop_out: "read_loop (c\<lparr>tc_out := out\<rparr>) n got = apsnd (\<lambda>c. c\<lparr>tc_out := out\<rparr>) (read_loop c n got)"
proof (induction c n got rule: read_loop.induct)
  case (1 c n got)
  obtain x c1 where r: "conn_Read c (n - length got) = (x, c1)" by (metis surj_pair)
  show ?case
  proof (cases x)
    case (Inl e)
    then show ?thesis
      unfolding read_loop.simps [of "c\<lparr>tc_out := out\<rparr>"] read_loop.simps [of c] by (simp add: conn_Read_out r)
  next
    case (Inr bs)
    with 1 [OF _ r [symmetric] Inr] show ?thesis
      unfolding read_loop.simps [of "c\<lparr>tc_out := out\<rparr>"] read_loop.simps [of c] by (simp add: conn_Read_out r)
  qed
qed

lemma headers_whole_out: "headers_whole ns (c\<lparr>tc_out := out\<rparr>) = headers_whole ns c"
proof (induction ns arbitrary: c)
  case (Cons n ns)
  obtain x c1 where r: "conn_Read c 2 = (x, c1)" by (metis surj_pair)
  have "headers_whole ns (snd (readFull (c1\<lparr>tc_out := out\<rparr>) n)) = headers_whole ns (snd (readFull c1 n))"
    unfolding readFull_def read_loop_out using Cons.IH [of "snd (read_loop c1 n [])"] by simp
  then show ?case by (cases x) (simp_all add: conn_Read_out r)
qed simp

lemma headers_whole_rest:
  assumes "tc_rest c2 = tc_rest c1"
  shows "headers_whole ns c2 = headers_whole ns c1"
proof -
  have "c2 = c1\<lparr>tc_out := tc_out c2\<rparr>" using assms by (simp add: tc_rest_def)
  then show ?thesis by (metis headers_whole_out)
qed

text \<open>What reaches the client of a list of responses: a frame for each that can be packed.\<close>

definition replies_out :: "'u dns_lib \<Rightarrow> dns_msg list \<Rightarrow> byte list" where
  "replies_out D resps = concat (map (\<lambda>r. case dns_Pack D r of Inl e \<Rightarrow> [] | Inr bs \<Rightarrow> frame bs) resps)"

lemma replies_out_simps [simp]:
  "replies_out D [] = []"
  "replies_out D (r # rs) = (case dns_Pack D r of Inl e \<Rightarrow> [] | Inr bs \<Rightarrow> frame bs) @ replies_out D rs"
  by (simp_all add: replies_out_def)

lemma dot_wrote:
  assumes "wrote (dotResponseWriter D) c resp c'" and "\<not> tc_broken c" and "\<not> tc_closed c"
  shows "tc_out c' = tc_out c @ replies_out D [resp]"
proof (cases "dns_Pack D resp")
  case (Inl e)
  with assms(1) show ?thesis by (simp add: wrote_def dotResponseWriter_def writeMsgToConn_def)
next
  case (Inr bs)
  with writeMsgToConn_frame [OF Inr assms(2,3)] assms(1) show ?thesis by (simp add: wrote_def dotResponseWriter_def)
qed

lemma dot_loop_step:
  assumes D: "dns_library (lib_dns L)" and inp: "tc_in c = frame p @ rest" and p: "length p < 65536"
    and hw: "headers_whole (length p # ns) c" and m: "dns_Unpack (lib_dns L) p = Inr msg" and q: "m_Question msg \<noteq> []"
    and ok: "\<not> tc_broken c" "\<not> tc_closed c" and run: "dot_loop L (k # ks) a u c = (Inr (), a', c')"
  shows "\<exists>resp a2 c2. m_Id resp = m_Id msg \<and> tc_out c2 = tc_out c @ replies_out (lib_dns L) [resp] \<and>
    tc_in c2 = rest \<and> tc_end c2 = tc_end c \<and> headers_whole ns c2 \<and> \<not> tc_broken c2 \<and> \<not> tc_closed c2 \<and>
    dot_loop L ks a2 u c2 = (Inr (), a', c')"
proof -
  obtain h c0 where h: "conn_Read c 2 = (Inr h, c0)" "length h = 2" "headers_whole ns (snd (readFull c0 (length p)))"
    using hw by (auto split: prod.splits sum.splits)
  obtain c1 where rd: "readMsgFromConn (lib_dns L) c = (Inr msg, c1)" and c1: "tc_in c1 = rest" "headers_whole ns c1"
    using readMsgFromConn_header [OF inp h(1,2), of "lib_dns L"] p m h(3) by auto
  note fr = reads_toD [OF readMsgFromConn_reads_to [OF rd]] reads_to_end [OF readMsgFromConn_reads_to [OF rd]]
  obtain res a2 c2 where h: "HandleDNSQuery L (dotResponseWriter (lib_dns L)) k a u c1 msg = (res, a2, c2)"
    by (metis surj_pair)
  have res: "res = Inr ()" and run': "dot_loop L ks a2 u c2 = (Inr (), a', c')"
    using run rd h by (cases res; simp)+
  obtain q0 qs where q: "m_Question msg = q0 # qs" using q by (cases "m_Question msg") auto
  obtain resp where wr: "wrote (dotResponseWriter (lib_dns L)) c1 resp c2" and i: "m_Id resp = m_Id msg"
    using ProcessQuery_reply [OF D q h [unfolded HandleDNSQuery_def res]] by (elim exE conjE)
  have c2: "tc_rest c2 = tc_rest c1" by (rule dotw.HandleDNSQuery_silent [OF D h])
  have "tc_out c2 = tc_out c @ replies_out (lib_dns L) [resp]" using dot_wrote [OF wr] fr ok by simp
  then show ?thesis using i run' c1 c2 fr ok headers_whole_rest [OF c2]
    by (intro exI [of _ resp] exI [of _ a2] exI [of _ c2]) (auto simp: tc_rest_def)
qed

lemma dot_loop_answers:
  assumes D: "dns_library (lib_dns L)"
    and "list_all2 (\<lambda>p m. length p < 65536 \<and> dns_Unpack (lib_dns L) p = Inr m \<and> m_Question m \<noteq> []) pkts msgs"
    and "tc_in c = concat (map frame pkts)" and "headers_whole (map length pkts) c" and "\<not> tc_broken c" and "\<not> tc_closed c"
    and "length pkts < length ks" and "dot_loop L ks a u c = (Inr (), a', c')"
  shows "\<exists>resps. map m_Id resps = map m_Id msgs \<and> tc_out c' = tc_out c @ replies_out (lib_dns L) resps \<and>
    (tc_closed c' \<longleftrightarrow> tc_end c \<noteq> Blocked)"
  using assms(2-)
proof (induction pkts msgs arbitrary: a c ks rule: list_all2_induct)
  case Nil
  then obtain k ks' where ks: "ks = k # ks'" by (cases ks) auto
  have "readMsgFromConn (lib_dns L) c = (Inl (tc_end c), c)"
    using Nil(1) by (simp add: readMsgFromConn_def conn_Read_def)
  with Nil ks show ?case by (auto simp: conn_Close_def split: if_splits)
next
  case (Cons p pkts m msgs)
  then obtain k ks' where ks: "ks = k # ks'" by (cases ks) auto
  have inp: "tc_in c = frame p @ concat (map frame pkts)" using Cons.prems(1) by simp
  have hw: "headers_whole (length p # map length pkts) c" using Cons.prems(2) by simp
  obtain resp a2 c2 where s: "m_Id resp = m_Id m" "tc_out c2 = tc_out c @ replies_out (lib_dns L) [resp]"
      "tc_in c2 = concat (map frame pkts)" "headers_whole (map length pkts) c2" "\<not> tc_broken c2" "\<not> tc_closed c2"
      "dot_loop L ks' a2 u c2 = (Inr (), a', c')" "tc_end c2 = tc_end c"
    using dot_loop_step [OF D inp _ hw _ _ Cons.prems(3,4) Cons.prems(6) [unfolded ks], of m] Cons.hyps(1)
    by (elim exE conjE) auto
  have "length pkts < length ks'" using Cons.prems(5) ks by simp
  from Cons.IH [OF s(3-6) this s(7)] obtain resps where "map m_Id resps = map m_Id msgs"
      "tc_out c' = tc_out c2 @ replies_out (lib_dns L) resps" "tc_closed c' \<longleftrightarrow> tc_end c2 \<noteq> Blocked" by (elim exE conjE)
  with s(1,2,8) show ?case by (intro exI [of _ "resp # resps"]) simp
qed

section \<open>Base 64 is inverted\<close>

text \<open>The encoder of \<^verbatim>\<open>base64.RawURLEncoding\<close>, which a client of the GET form uses.\<close>

fun b64_sextets :: "byte list \<Rightarrow> nat list" where
  "b64_sextets [] = []"
| "b64_sextets [x] = [unat x div 4, 16 * (unat x mod 4)]"
| "b64_sextets [x, y] = [unat x div 4, 16 * (unat x mod 4) + unat y div 16, 4 * (unat y mod 16)]"
| "b64_sextets (x # y # z # r) =
     [unat x div 4, 16 * (unat x mod 4) + unat y div 16, 4 * (unat y mod 16) + unat z div 64, unat z mod 64] @ b64_sextets r"

definition b64_char :: "nat \<Rightarrow> char" where
  "b64_char n = (if n < 26 then char_of (n + 65) else if n < 52 then char_of (n + 71)
                 else if n < 62 then char_of (n - 4) else if n = 62 then CHR ''-'' else CHR ''_'')"

definition EncodeToString :: "byte list \<Rightarrow> string" where
  "EncodeToString bs = map b64_char (b64_sextets bs)"

lemma b64_val_char: "n < 64 \<Longrightarrow> b64_val (b64_char n) = Some n"
  by (auto simp: b64_val_def b64_char_def Let_def)

lemma b64_char_no_break: "n < 64 \<Longrightarrow> b64_char n \<noteq> CHR 0x0A \<and> b64_char n \<noteq> CHR 0x0D"
  using b64_val_char [of n] by (auto simp: b64_val_def)

lemma b64_sextets_less: "n \<in> set (b64_sextets bs) \<Longrightarrow> n < 64"
proof (induction bs rule: b64_sextets.induct)
  case (2 x)
  then show ?case using unat_byte [of x] by auto
next
  case (3 x y)
  then show ?case using unat_byte [of x] unat_byte [of y] by auto
next
  case (4 x y z r)
  then show ?case using unat_byte [of x] unat_byte [of y] unat_byte [of z] by auto
qed simp

lemma digit_split:
  fixes d m k :: nat
  assumes "k < d"
  shows "(d * m + k) div d = m" and "(d * m + k) mod d = k" and "d * m div d = m"
  using assms by auto

lemma word_nat_id: "word_of_nat (unat x) = x"
  by simp

lemma b64_join:
  fixes x y z :: byte
  shows "word_of_nat (4 * (unat x div 4) + (16 * (unat x mod 4)) div 16) = x"
    "word_of_nat (4 * (unat x div 4) + (16 * (unat x mod 4) + unat y div 16) div 16) = x"
    "word_of_nat (16 * ((16 * (unat x mod 4) + unat y div 16) mod 16) + (4 * (unat y mod 16)) div 4) = y"
    "word_of_nat (16 * ((16 * (unat x mod 4) + unat y div 16) mod 16) + (4 * (unat y mod 16) + unat z div 64) div 4) = y"
    "word_of_nat (64 * ((4 * (unat y mod 16) + unat z div 64) mod 4) + unat z mod 64) = z"
proof -
  have "unat y div 16 < 16" "unat z div 64 < 4"
    using unat_byte [of y] unat_byte [of z] by (simp_all add: less_mult_imp_div_less)
  note digits = digit_split [OF this(1)] digit_split [OF this(2)] digit_split(3) [of 0 4, simplified]
  show "word_of_nat (4 * (unat x div 4) + (16 * (unat x mod 4)) div 16) = x"
    "word_of_nat (4 * (unat x div 4) + (16 * (unat x mod 4) + unat y div 16) div 16) = x"
    "word_of_nat (16 * ((16 * (unat x mod 4) + unat y div 16) mod 16) + (4 * (unat y mod 16)) div 4) = y"
    "word_of_nat (16 * ((16 * (unat x mod 4) + unat y div 16) mod 16) + (4 * (unat y mod 16) + unat z div 64) div 4) = y"
    "word_of_nat (64 * ((4 * (unat y mod 16) + unat z div 64) mod 4) + unat z mod 64) = z"
    by (simp_all only: digits mult_div_mod_eq word_nat_id)
qed

lemma b64_bytes_sextets: "b64_bytes (b64_sextets bs) = Some bs"
  by (induction bs rule: b64_sextets.induct) (simp_all only: b64_sextets.simps b64_bytes.simps b64_join append.simps option.map)

lemma Decode_Encode: "DecodeString (EncodeToString bs) = Some bs"
proof -
  have "filter (\<lambda>c. c \<noteq> CHR 0x0A \<and> c \<noteq> CHR 0x0D) (EncodeToString bs) = EncodeToString bs"
    by (auto simp: EncodeToString_def filter_id_conv dest!: b64_sextets_less b64_char_no_break)
  moreover have "map b64_val (EncodeToString bs) = map Some (b64_sextets bs)"
    by (auto simp: EncodeToString_def dest: b64_sextets_less b64_val_char)
  ultimately show ?thesis by (auto simp: DecodeString_def Let_def comp_def b64_bytes_sextets)
qed

lemma EncodeToString_Nil [simp]: "EncodeToString bs = [] \<longleftrightarrow> bs = []"
  by (cases bs rule: b64_sextets.cases) (auto simp: EncodeToString_def)

section \<open>Properties: DNS over TLS\<close>

lemma handleDoTConnection_loop:
  "handleDoTConnection L ks True True sni a c =
     dot_loop L ks a (case ExtractUserFromSNI sni of Inl err \<Rightarrow> ''unknown'' | Inr u \<Rightarrow> u) c"
  by (simp add: handleDoTConnection_def)

text \<open>
  C6. A DoT client that sends queries back to back is answered in order, one response per
  query with the id of that query, however the bytes of the messages are split into reads, provided
  the two bytes of each length come in one read: with \<open>pkts\<close> the queries on the wire and \<open>msgs\<close> what
  they unpack to, the bytes written to the connection are the frames of the responses that can be
  packed, in that order, and nothing else. (In the frame of a response of 65536 bytes or more the
  length is cut to 16 bits.) The connection is then closed if the client has closed its side or the
  connection has broken, and waits for the next query otherwise.
\<close>

theorem dot_answers_in_order:
  assumes "dns_library (lib_dns L)"
    and "list_all2 (\<lambda>p m. length p < 65536 \<and> dns_Unpack (lib_dns L) p = Inr m \<and> m_Question m \<noteq> []) pkts msgs"
    and "tc_in c = concat (map frame pkts)" and "headers_whole (map length pkts) c" and "\<not> tc_broken c" and "\<not> tc_closed c"
    and "length pkts < length ks" and "handleDoTConnection L ks True True sni a c = (Inr (), a', c')"
  shows "\<exists>resps. map m_Id resps = map m_Id msgs \<and> tc_out c' = tc_out c @ replies_out (lib_dns L) resps \<and>
    (tc_closed c' \<longleftrightarrow> tc_end c \<noteq> Blocked)"
  by (rule dot_loop_answers [OF assms(1-7) assms(8) [unfolded handleDoTConnection_loop]])


text \<open>
  C16. The length of a response is cut to 16 bits, and nothing checks that it fits. When a response packs
  to 65536 bytes or more, a client that reads it as the server reads its own input takes the first
  bytes for the whole message, as many as the length modulo 65536, and goes on reading the rest of
  the response as if it were further messages.
\<close>

theorem dot_oversized_response:
  assumes "dns_Pack D resp = Inr bs" and "65536 \<le> length bs" and "\<not> tc_broken c" and "\<not> tc_closed c"
    and "tc_out (snd (rw_WriteMsg (dotResponseWriter D) c resp)) = tc_out c @ tc_in peer" and "headers_whole [length bs mod 65536] peer"
  shows "\<exists>peer'. readMsgFromConn D peer =
       (case dns_Unpack D (take (length bs mod 65536) bs) of Inl e \<Rightarrow> Inl (UnpackFailed e) | Inr m \<Rightarrow> Inr m, peer') \<and>
     tc_in peer' = drop (length bs mod 65536) bs \<and> tc_in peer' \<noteq> []"
proof -
  have inp: "tc_in peer = frame bs @ []"
    using writeMsgToConn_frame [OF assms(1,3,4)] assms(5) by (simp add: dotResponseWriter_def)
  obtain h c1 where h: "conn_Read peer 2 = (Inr h, c1)" "length h = 2" using assms(6) by (auto split: prod.splits sum.splits)
  have "length bs mod 65536 < length bs" using assms(2) by (rule less_le_trans [rotated]) simp
  then have "drop (length bs mod 65536) bs \<noteq> []" by simp
  with readMsgFromConn_header [OF inp h, of D] show ?thesis by auto
qed

text \<open>
  The length of a message is read with a single \<^verbatim>\<open>conn.Read\<close>, whose count is ignored. When
  that read returns one byte, the message that follows is misread: a query of fewer than 256 bytes
  is dropped and the connection closed with no response and no trace in the state of the process.
\<close>

theorem dot_short_read_drops_query:
  assumes "dns_Unpack (lib_dns L) [] = Inl e" and "tc_in c = frame p @ rest" and "length p < 256"
    and "tc_chunks c = 1 # xs" and "ks \<noteq> []"
  shows "\<exists>c'. handleDoTConnection L ks True True sni a c = (Inr (), a, c') \<and> tc_out c' = tc_out c \<and> tc_closed c'"
proof -
  obtain k ks' where ks: "ks = k # ks'" using assms(5) by (cases ks) auto
  have "frame p = [word_of_nat (length p div 256), word_of_nat (length p mod 256)] @ p"
    using header_bytes [of "length p"] by (simp add: frame_def)
  with assms(2,3) have "tc_in c = 0 # word_of_nat (length p) # p @ rest" by simp
  with readMsgFromConn_short [OF this assms(4), of "lib_dns L"] obtain c1 where
    rd: "readMsgFromConn (lib_dns L) c = (Inl (UnpackFailed e), c1)" using assms(1) by auto
  then show ?thesis using reads_toD(1) [OF readMsgFromConn_reads_to [OF rd]] by (simp add: handleDoTConnection_loop ks conn_Close_def)
qed

subsection \<open>Witnesses\<close>

definition ex_query_bytes :: "byte list" where
  "ex_query_bytes = [0, 7, 0, 1] @ bytes_of_string ''w.example.com.''"

definition ex_dot_conn :: tls_conn where
  "ex_dot_conn = \<lparr>tc_in = frame ex_query_bytes, tc_end = ReadEOF, tc_chunks = [2, 5], tc_out = [], tc_broken = False,
              tc_remote = ''10.1.1.1:5353'', tc_closed = False\<rparr>"

lemma ex_query_unpacks: "dns_Unpack mem_dns ex_query_bytes = Inr (ex_msg 7 ''w.example.com.'')"
  by (simp add: mem_dns_def mem_Unpack_def ex_query_bytes_def ex_msg_def word_cat2_def TypeA_def)


text \<open>A response of 65540 bytes: its name is that long.\<close>

definition ex_long_reply :: dns_msg where
  "ex_long_reply = ex_msg 7 (replicate 65536 CHR ''a'')"

theorem dot_oversized_response_witness:
  "\<exists>bs. mem_Pack ex_long_reply = Inr bs \<and>
     fst (readMsgFromConn mem_dns (ex_dot_conn\<lparr>tc_in := frame bs\<rparr>)) = Inr (ex_msg 7 []) \<and> length (drop 4 bs) = 65536"
proof -
  let ?long = "bytes_of_string (replicate 65536 CHR ''a'')"
  have long: "length ?long = 65536" by (simp only: length_bytes_of_string length_replicate)
  let ?bs = "be16 7 @ be16 TypeA @ ?long"
  let ?peer = "ex_dot_conn\<lparr>tc_in := frame ?bs\<rparr>"
  have p: "dns_Pack mem_dns ex_long_reply = Inr ?bs" by (simp add: mem_dns_def mem_Pack_def ex_long_reply_def ex_msg_def)
  have len: "length ?bs = 65540" by (simp only: length_append length_be16 long)
  have ok: "65536 \<le> length ?bs" "\<not> tc_broken ex_dot_conn" "\<not> tc_closed ex_dot_conn" unfolding len by (simp_all add: ex_dot_conn_def)
  have out: "tc_out (snd (rw_WriteMsg (dotResponseWriter mem_dns) ex_dot_conn ex_long_reply)) = tc_out ex_dot_conn @ tc_in ?peer"
    using writeMsgToConn_frame [OF p ok(2,3)] by (simp add: dotResponseWriter_def)
  have "be16 65540 = [0, 4]" by (simp add: be16_def)
  then have "frame ?bs = [0, 4] @ ?bs" by (simp only: frame_def len of_nat_numeral)
  then have hw: "headers_whole [length ?bs mod 65536] ?peer"
    by (simp add: conn_Read_def ex_dot_conn_def)
  have "take (length ?bs mod 65536) ?bs = be16 7 @ be16 TypeA" unfolding len by (simp add: be16_def)
  then have "dns_Unpack mem_dns (take (length ?bs mod 65536) ?bs) = Inr (ex_msg 7 [])"
    by (simp add: mem_dns_def mem_Unpack_def be16_def word_cat2_def ex_msg_def TypeA_def string_of_bytes_def)
  with dot_oversized_response [OF p ok out hw] obtain peer' where
    "readMsgFromConn mem_dns ?peer = (Inr (ex_msg 7 []), peer')" by auto
  moreover have "mem_Pack ex_long_reply = Inr ?bs" using p by (simp add: mem_dns_def)
  ultimately show ?thesis by (intro exI [of _ ?bs]) simp
qed

theorem dot_short_read_drops_query_witness:
  "\<exists>c'. handleDoTConnection ex_libs [ex_clock] True True ''alice.dns.example'' ex_app (ex_dot_conn\<lparr>tc_chunks := [1]\<rparr>) =
     (Inr (), ex_app, c') \<and> tc_out c' = [] \<and> tc_closed c'"
  using dot_short_read_drops_query [of ex_libs "''short buffer''" "ex_dot_conn\<lparr>tc_chunks := [1]\<rparr>" ex_query_bytes "[]" "[]" "[ex_clock]"
      "''alice.dns.example''" ex_app]
  by (simp add: ex_libs_def ex_dot_conn_def ex_query_bytes_def bytes_of_string_def mem_dns_def mem_Unpack_def)

text \<open>Whether the handler returns or panics does not depend on the writer.\<close>

lemma process_allowed_result:
  "fst (process_allowed L W k a w u msg) = fst (process_allowed L W' k a w' u msg)"
  by (simp add: process_allowed_def Let_def split: list.split sum.split prod.split)

lemma HandleDNSQuery_result:
  "fst (HandleDNSQuery L W k a u w msg) = fst (HandleDNSQuery L W' k a u w' msg)"
  unfolding HandleDNSQuery_def ProcessQuery_def Let_def
  by (auto split: option.split prod.split sum.split simp: process_allowed_result [of L W _ _ w _ _ W' w'])

lemma ex_dot_header:
  "conn_Read ex_dot_conn 2 = (Inr [0, 18], ex_dot_conn\<lparr>tc_in := ex_query_bytes, tc_chunks := [5]\<rparr>)" "length [0 :: byte, 18] = 2"
  by code_simp+

lemma ex_dot_returns:
  "fst (handleDoTConnection ex_libs [ex_clock, ex_clock] True True ''alice.dns.example'' ex_app ex_dot_conn) = Inr ()"
proof -
  have u: "ExtractUserFromSNI ''alice.dns.example'' = Inr ''alice''" by code_simp
  have len: "length ex_query_bytes < 65536" by (simp add: ex_query_bytes_def)
  obtain c1 where rd: "readMsgFromConn (lib_dns ex_libs) ex_dot_conn = (Inr (ex_msg 7 ''w.example.com.''), c1)" "tc_in c1 = []"
    using readMsgFromConn_header [OF _ ex_dot_header, of ex_query_bytes "[]" mem_dns] len ex_query_unpacks
    by (auto simp: ex_dot_conn_def ex_libs_def)
  obtain r a2 c2 where h: "HandleDNSQuery ex_libs (dotResponseWriter (lib_dns ex_libs)) ex_clock ex_app ''alice'' c1
      (ex_msg 7 ''w.example.com.'') = (r, a2, c2)" by (metis surj_pair)
  have "r = Inr ()"
    using HandleDNSQuery_result [of ex_libs "dotResponseWriter (lib_dns ex_libs)" ex_clock ex_app "''alice''" c1 "ex_msg 7 ''w.example.com.''"
        list_writer_ops ex_writer] h ex_run_returns(1) by (simp add: ex_run_def HandleDNSQuery_def)
  moreover have "dns_library (lib_dns ex_libs)" by (simp add: ex_libs_def md.dns_library_axioms)
  then have "tc_in c2 = []" "tc_end c2 = ReadEOF"
    using dotw.HandleDNSQuery_silent [OF _ h] rd(2) reads_to_end [OF readMsgFromConn_reads_to [OF rd(1)]]
    by (simp_all add: tc_rest_def ex_dot_conn_def)
  then have "readMsgFromConn (lib_dns ex_libs) c2 = (Inl ReadEOF, c2)" by (simp add: readMsgFromConn_def conn_Read_def)
  ultimately show ?thesis using rd(1) h by (simp add: handleDoTConnection_loop u)
qed

theorem dot_answers_in_order_witness:
  "\<exists>resps. map m_Id resps = [7] \<and>
     tc_out (snd (snd (handleDoTConnection ex_libs [ex_clock, ex_clock] True True ''alice.dns.example'' ex_app ex_dot_conn))) =
     replies_out mem_dns resps \<and>
     tc_closed (snd (snd (handleDoTConnection ex_libs [ex_clock, ex_clock] True True ''alice.dns.example'' ex_app ex_dot_conn)))"
proof -
  let ?r = "handleDoTConnection ex_libs [ex_clock, ex_clock] True True ''alice.dns.example'' ex_app ex_dot_conn"
  have r: "?r = (Inr (), fst (snd ?r), snd (snd ?r))" using ex_dot_returns by (metis prod.collapse)
  have D: "dns_library (lib_dns ex_libs)" by (simp add: ex_libs_def md.dns_library_axioms)
  have hw: "headers_whole (map length [ex_query_bytes]) ex_dot_conn" by (simp add: ex_dot_header)
  have "length ex_query_bytes < 65536" by (simp add: ex_query_bytes_def)
  then have m: "list_all2 (\<lambda>p m. length p < 65536 \<and> dns_Unpack (lib_dns ex_libs) p = Inr m \<and> m_Question m \<noteq> [])
      [ex_query_bytes] [ex_msg 7 ''w.example.com.'']"
    using ex_query_unpacks by (simp add: ex_libs_def) (simp add: ex_msg_def)
  have c: "tc_in ex_dot_conn = concat (map frame [ex_query_bytes])" "\<not> tc_broken ex_dot_conn" "\<not> tc_closed ex_dot_conn"
    "length [ex_query_bytes] < length [ex_clock, ex_clock]" "tc_out ex_dot_conn = []" "tc_end ex_dot_conn \<noteq> Blocked"
    by (simp_all add: ex_dot_conn_def)
  have "lib_dns ex_libs = mem_dns" "m_Id (ex_msg 7 ''w.example.com.'') = 7" by (simp_all add: ex_libs_def ex_msg_def)
  with dot_answers_in_order [OF D m c(1) hw c(2-4) r] c(5,6) show ?thesis by simp
qed

section \<open>Properties: DNS over HTTPS\<close>

interpretation dohw: silent_reader "dohResponseWriter D" "\<lambda>w. (hw_remote w, hw_broken w)" for D
  by unfold_locales
    (auto simp: dohResponseWriter_def doh_WriteMsg_def http_Write_def http_WriteHeader_def split: sum.split option.split)












text \<open>
  C22. The two forms of a DoH request are the same query: a message sent in the \<^verbatim>\<open>dns\<close> parameter of
  a GET request, in base 64, is handled exactly like the same message in the body of a POST
  request, for every non-empty message of at most 65535 bytes.
\<close>

theorem doh_get_post_equivalent:
  assumes "bs \<noteq> []" and "length bs \<le> 65535" and "HasPrefix ct dnsMimeType"
  shows "handleDoH L k a w (r\<lparr>hr_Method := ''GET'', hr_dns := EncodeToString bs\<rparr>) =
         handleDoH L k a w (r\<lparr>hr_Method := ''POST'', hr_ContentType := ct, hr_Body := Inr bs\<rparr>)"
proof -
  have "doh_message (r\<lparr>hr_Method := ''GET'', hr_dns := EncodeToString bs\<rparr>) = Inr bs"
    "doh_message (r\<lparr>hr_Method := ''POST'', hr_ContentType := ct, hr_Body := Inr bs\<rparr>) = Inr bs"
    using assms by (simp_all add: doh_message_def Decode_Encode)
  then show ?thesis by (simp add: handleDoH_def split: sum.split)
qed

definition ex_http :: http_writer where
  "ex_http = \<lparr>hw_status = None, hw_ctype = [], hw_body = [], hw_broken = False, hw_remote = []\<rparr>"

definition ex_doh_request :: http_request where
  "ex_doh_request = \<lparr>hr_Path = ''/alice'', hr_Method = ''POST'', hr_dns = [], hr_ContentType = dnsMimeType,
                 hr_Body = Inr ex_query_bytes, hr_RemoteAddr = ''10.1.1.1:5353''\<rparr>"

lemma ex_query_bytes_size [simp]: "ex_query_bytes \<noteq> []" "length ex_query_bytes = 18"
  by (simp_all add: ex_query_bytes_def)

theorem doh_get_post_equivalent_witness:
  "handleDoH ex_libs ex_clock ex_app ex_http (ex_doh_request\<lparr>hr_Method := ''GET'', hr_dns := EncodeToString ex_query_bytes\<rparr>) =
   handleDoH ex_libs ex_clock ex_app ex_http ex_doh_request"
  using doh_get_post_equivalent [of ex_query_bytes dnsMimeType ex_libs ex_clock ex_app ex_http ex_doh_request]
  by (simp add: ex_doh_request_def HasPrefix_def dnsMimeType_def)






end
