(* ===== verification/Json.thy ===== *)
theory Json imports Net begin

text \<open>
  JSON: what the source uses of Go's package \<^verbatim>\<open>encoding/json\<close>.

  \<open>quote\<close> prints a string as \<^verbatim>\<open>json.Marshal\<close> does, with its escapes (also those of
  \<^verbatim>\<open><\<close>, \<^verbatim>\<open>>\<close> and \<^verbatim>\<open>&\<close>); \<open>json_parse\<close> reads a whole text as \<^verbatim>\<open>json.Unmarshal\<close> does
  before it stores the value. Strings are byte strings in UTF-8; the encoder is modelled on
  ASCII strings, where Go's does nothing else.
\<close>

section \<open>Values\<close>

datatype json = JNull | JBool bool | JNum string | JStr string | JArr "json list" | JObj "(string \<times> json) list"

definition is_ws :: "char \<Rightarrow> bool" where
  "is_ws c \<longleftrightarrow> c = CHR '' '' \<or> c = CHR 0x09 \<or> c = CHR 0x0A \<or> c = CHR 0x0D"

abbreviation skip_ws :: "string \<Rightarrow> string" where
  "skip_ws s \<equiv> dropWhile is_ws s"

section \<open>Strings\<close>

definition utf8 :: "nat \<Rightarrow> string" where
  "utf8 n =
     map char_of
       (if n < 128 then [n]
        else if n < 2048 then [192 + n div 64, 128 + n mod 64]
        else if n < 65536 then [224 + n div 4096, 128 + n div 64 mod 64, 128 + n mod 64]
        else [240 + n div 262144, 128 + n div 4096 mod 64, 128 + n div 64 mod 64, 128 + n mod 64])"

text \<open>Four hexadecimal digits at the head of the text.\<close>

definition hex4 :: "string \<Rightarrow> nat option" where
  "hex4 s = (let ds = take 4 s in if length ds = 4 \<and> list_all is_hex ds then Some (hex_value ds) else None)"

text \<open>The second half of a surrogate pair: an escape of a low surrogate at the head of the text.\<close>

definition low_surrogate :: "string \<Rightarrow> nat option" where
  "low_surrogate s =
     (if take 2 s = [CHR 0x5C, CHR ''u''] then
        (case hex4 (drop 2 s) of
           Some m \<Rightarrow> if 56320 \<le> m \<and> m < 57344 then Some m else None
         | None \<Rightarrow> None)
      else None)"

text \<open>The value of \<^verbatim>\<open>\uXXXX\<close>, and how many characters after the four digits belong to it.\<close>

definition escape_u :: "nat \<Rightarrow> string \<Rightarrow> string \<times> nat" where
  "escape_u n r =
     (if 55296 \<le> n \<and> n < 57344 then
        (case (if n < 56320 then low_surrogate r else None) of
           Some m \<Rightarrow> (utf8 (65536 + (n - 55296) * 1024 + (m - 56320)), 6)
         | None \<Rightarrow> (utf8 65533, 0))
      else (utf8 n, 0))"

definition simple_escape :: "char \<Rightarrow> char option" where
  "simple_escape c =
     (if c = CHR 0x22 \<or> c = CHR 0x5C \<or> c = CHR ''/'' then Some c
      else if c = CHR ''b'' then Some CHR 0x08
      else if c = CHR ''f'' then Some CHR 0x0C
      else if c = CHR ''n'' then Some CHR 0x0A
      else if c = CHR ''r'' then Some CHR 0x0D
      else if c = CHR ''t'' then Some CHR 0x09
      else None)"

text \<open>The rest of a string after its opening quote: its value, and the text after the closing quote.\<close>

function unquote :: "string \<Rightarrow> (string \<times> string) option" where
  "unquote s =
     (case s of
        [] \<Rightarrow> None
      | c # r \<Rightarrow>
          (if c = CHR 0x22 then Some ([], r)
           else if c = CHR 0x5C then
             (case r of
                [] \<Rightarrow> None
              | e # r' \<Rightarrow>
                  (if e = CHR ''u'' then
                     (case hex4 r' of
                        None \<Rightarrow> None
                      | Some n \<Rightarrow>
                          (let (v, k) = escape_u n (drop 4 r')
                           in map_option (\<lambda>(t, z). (v @ t, z)) (unquote (drop (4 + k) r'))))
                   else case simple_escape e of
                          None \<Rightarrow> None
                        | Some x \<Rightarrow> map_option (\<lambda>(t, z). (x # t, z)) (unquote r')))
           else if (of_char c :: nat) < 32 then None
           else map_option (\<lambda>(t, z). (c # t, z)) (unquote r)))"
  by pat_completeness auto
termination by (relation "measure length") auto

declare unquote.simps [simp del]

section \<open>Numbers and values\<close>

fun span_digits :: "string \<Rightarrow> string \<times> string" where
  "span_digits [] = ([], [])"
| "span_digits (c # cs) =
     (if digit_val c \<noteq> None then (let (d, r) = span_digits cs in (c # d, r)) else ([], c # cs))"

definition read_number :: "string \<Rightarrow> (string \<times> string) option" where
  "read_number s =
     (let neg = take 1 s = ''-'';
          s0 = (if neg then drop 1 s else s);
          (i, r) = span_digits s0
      in if i = [] \<or> length i > 1 \<and> hd i = CHR ''0'' then None
         else
           (let (fr, r1) = (if take 1 r = ''.'' then (let (d, z) = span_digits (drop 1 r) in (Some d, z)) else (None, r));
                ex = (take 1 r1 = ''e'' \<or> take 1 r1 = ''E'');
                r2 = (if ex then (let t = drop 1 r1 in if take 1 t = ''+'' \<or> take 1 t = ''-'' then drop 1 t else t) else r1);
                (ed, r3) = (if ex then (let (d, z) = span_digits r2 in (Some d, z)) else (None, r1))
            in if fr = Some [] \<or> ed = Some [] then None
               else Some (take (length s - length r3) s, r3)))"

text \<open>
  A value at the head of the text (after its spaces), and the text after it. The fuel bounds the
  number of nested and consecutive values; two for each character of the text and two more are
  enough, since every value and every separator has a character of its own (\<open>json_parse_complete\<close>).
\<close>

fun read_value :: "nat \<Rightarrow> string \<Rightarrow> (json \<times> string) option"
  and read_elements :: "nat \<Rightarrow> string \<Rightarrow> (json list \<times> string) option"
  and read_members :: "nat \<Rightarrow> string \<Rightarrow> ((string \<times> json) list \<times> string) option" where
  "read_value 0 s = None"
| "read_value (Suc n) s =
     (case skip_ws s of
        [] \<Rightarrow> None
      | c # r \<Rightarrow>
          (if c = CHR 0x22 then map_option (\<lambda>(t, z). (JStr t, z)) (unquote r)
           else if c = CHR ''{'' then
             (if take 1 (skip_ws r) = ''}'' then Some (JObj [], drop 1 (skip_ws r))
              else map_option (\<lambda>(ms, z). (JObj ms, z)) (read_members n r))
           else if c = CHR ''['' then
             (if take 1 (skip_ws r) = '']'' then Some (JArr [], drop 1 (skip_ws r))
              else map_option (\<lambda>(xs, z). (JArr xs, z)) (read_elements n r))
           else if take 4 (c # r) = ''null'' then Some (JNull, drop 3 r)
           else if take 4 (c # r) = ''true'' then Some (JBool True, drop 3 r)
           else if take 5 (c # r) = ''false'' then Some (JBool False, drop 4 r)
           else map_option (\<lambda>(t, z). (JNum t, z)) (read_number (c # r))))"
| "read_elements 0 s = None"
| "read_elements (Suc n) s =
     (case read_value n s of
        None \<Rightarrow> None
      | Some (v, r) \<Rightarrow>
          (case skip_ws r of
             [] \<Rightarrow> None
           | c # r' \<Rightarrow>
               (if c = CHR '']'' then Some ([v], r')
                else if c = CHR '','' then map_option (\<lambda>(xs, z). (v # xs, z)) (read_elements n r')
                else None)))"
| "read_members 0 s = None"
| "read_members (Suc n) s =
     (case skip_ws s of
        [] \<Rightarrow> None
      | q # s' \<Rightarrow>
          (if q \<noteq> CHR 0x22 then None
           else case unquote s' of
                  None \<Rightarrow> None
                | Some (k, r) \<Rightarrow>
                    (if take 1 (skip_ws r) \<noteq> '':'' then None
                     else case read_value n (drop 1 (skip_ws r)) of
                            None \<Rightarrow> None
                          | Some (v, r1) \<Rightarrow>
                              (case skip_ws r1 of
                                 [] \<Rightarrow> None
                               | c # r2 \<Rightarrow>
                                   (if c = CHR ''}'' then Some ([(k, v)], r2)
                                    else if c = CHR '','' then map_option (\<lambda>(ms, z). ((k, v) # ms, z)) (read_members n r2)
                                    else None)))))"

definition json_parse :: "string \<Rightarrow> json option" where
  "json_parse s =
     (case read_value (2 * length s + 2) s of
        None \<Rightarrow> None
      | Some (v, r) \<Rightarrow> if skip_ws r = [] then Some v else None)"

section \<open>Printing strings\<close>

definition hex_digit :: "nat \<Rightarrow> char" where
  "hex_digit n = char_of (if n < 10 then 48 + n else 87 + n)"

definition escape_char :: "char \<Rightarrow> string" where
  "escape_char c =
     (let n = of_char c :: nat in
      if c = CHR 0x22 \<or> c = CHR 0x5C then [CHR 0x5C, c]
      else if c = CHR 0x08 then [CHR 0x5C, CHR ''b'']
      else if c = CHR 0x0C then [CHR 0x5C, CHR ''f'']
      else if c = CHR 0x0A then [CHR 0x5C, CHR ''n'']
      else if c = CHR 0x0D then [CHR 0x5C, CHR ''r'']
      else if c = CHR 0x09 then [CHR 0x5C, CHR ''t'']
      else if n < 32 \<or> c = CHR ''<'' \<or> c = CHR ''>'' \<or> c = CHR ''&''
      then [CHR 0x5C, CHR ''u'', CHR ''0'', CHR ''0'', hex_digit (n div 16), hex_digit (n mod 16)]
      else [c])"

definition quote :: "string \<Rightarrow> string" where
  "quote s = [CHR 0x22] @ concat (map escape_char s) @ [CHR 0x22]"

definition is_ascii :: "string \<Rightarrow> bool" where
  "is_ascii s \<longleftrightarrow> (\<forall>c \<in> set s. (of_char c :: nat) < 128)"

subsection \<open>Reading back\<close>

lemma hex_val_digit: "n < 16 \<Longrightarrow> hex_val (hex_digit n) = Some n"
  by (auto simp: hex_val_def hex_digit_def Let_def)

lemma hex4_escape: "n < 256 \<Longrightarrow> hex4 (CHR ''0'' # CHR ''0'' # hex_digit (n div 16) # hex_digit (n mod 16) # r) = Some n"
proof -
  assume n: "n < 256"
  have z: "hex_val CHR ''0'' = Some 0" by (simp add: hex_val_def)
  have "n div 16 < 16" "n mod 16 < 16" using n by auto
  then show ?thesis by (simp add: hex4_def is_hex_def hex_value_def hex_val_digit z)
qed

lemma unquote_close: "unquote (CHR 0x22 # r) = Some ([], r)"
  by (simp add: unquote.simps)

lemma unquote_u:
  assumes "n < 128"
  shows "unquote ([CHR 0x5C, CHR ''u'', CHR ''0'', CHR ''0'', hex_digit (n div 16), hex_digit (n mod 16)] @ r) =
         map_option (\<lambda>(t, z). (char_of n # t, z)) (unquote r)"
proof -
  have h: "hex4 (CHR ''0'' # CHR ''0'' # hex_digit (n div 16) # hex_digit (n mod 16) # r) = Some n"
    using assms by (intro hex4_escape) simp
  have "escape_u n r = ([char_of n], 0)" using assms by (simp add: escape_u_def utf8_def)
  with h show ?thesis by (subst unquote.simps) simp
qed

lemma unquote_simple:
  "simple_escape e = Some x \<Longrightarrow> e \<noteq> CHR ''u'' \<Longrightarrow>
   unquote (CHR 0x5C # e # r) = map_option (\<lambda>(t, z). (x # t, z)) (unquote r)"
  by (subst unquote.simps) simp

lemma unquote_plain:
  "c \<noteq> CHR 0x22 \<Longrightarrow> c \<noteq> CHR 0x5C \<Longrightarrow> 32 \<le> (of_char c :: nat) \<Longrightarrow>
   unquote (c # r) = map_option (\<lambda>(t, z). (c # t, z)) (unquote r)"
  by (subst unquote.simps) simp

lemma unquote_escape_char:
  assumes "(of_char c :: nat) < 128"
  shows "unquote (escape_char c @ r) = map_option (\<lambda>(t, z). (c # t, z)) (unquote r)"
proof -
  have u: "unquote ([CHR 0x5C, CHR ''u'', CHR ''0'', CHR ''0'', hex_digit (of_char c div 16), hex_digit (of_char c mod 16)] @ r) =
      map_option (\<lambda>(t, z). (c # t, z)) (unquote r)" using unquote_u [OF assms, of r] by simp
  show ?thesis unfolding escape_char_def Let_def
    using u by (auto simp: unquote_simple unquote_plain simple_escape_def)
qed

lemma unquote_escaped:
  "is_ascii s \<Longrightarrow> unquote (concat (map escape_char s) @ CHR 0x22 # r) = Some (s, r)"
  by (induction s) (auto simp: is_ascii_def unquote_escape_char unquote_close)

section \<open>The fuel is enough\<close>

text \<open>Whatever is read is shorter than the text it is read from.\<close>

lemma skip_ws_length: "length (skip_ws s) \<le> length s"
  by (rule length_dropWhile_le)

lemma unquote_escape_u:
  "hex4 r = Some n \<Longrightarrow> escape_u n (drop 4 r) = (v, k) \<Longrightarrow>
   unquote (CHR 0x5C # CHR ''u'' # r) = map_option (\<lambda>(t, z). (v @ t, z)) (unquote (drop (4 + k) r))"
  by (subst unquote.simps) simp

lemma unquote_length: "unquote s = Some (t, z) \<Longrightarrow> length z < length s"
proof (induction s arbitrary: t z rule: unquote.induct)
  case (1 s)
  note IH = 1(1-3)
  show ?case
  proof (cases s)
    case Nil
    with 1(4) show ?thesis by (subst (asm) unquote.simps) simp
  next
    case (Cons c r)
    show ?thesis
    proof (cases "c = CHR 0x5C")
      case False
      with 1(4) Cons IH(3) [OF Cons] show ?thesis
        by (subst (asm) unquote.simps) (fastforce split: if_splits)
    next
      case True
      then obtain e r' where r: "r = e # r'" using 1(4) Cons by (subst (asm) unquote.simps) (auto split: list.splits)
      show ?thesis
      proof (cases "e = CHR ''u''")
        case False
        with 1(4) Cons True r IH(2) [OF Cons _ True r False] show ?thesis
          by (subst (asm) unquote.simps) (fastforce split: option.splits)
      next
        case eu: True
        obtain n where n: "hex4 r' = Some n" using 1(4) Cons True r eu by (subst (asm) unquote.simps) (auto split: option.splits)
        obtain v k where k: "(v, k) = escape_u n (drop 4 r')" by (metis surj_pair)
        with n 1(4) Cons True r eu obtain t' where t': "unquote (drop (4 + k) r') = Some (t', z)"
          by (auto simp: unquote_escape_u [OF n k [symmetric]])
        have "c \<noteq> CHR 0x22" using True by simp
        from IH(1) [OF Cons this True r eu n refl k t'] Cons r show ?thesis by simp
      qed
    qed
  qed
qed

lemma span_digits_append: "span_digits s = (d, r) \<Longrightarrow> s = d @ r"
  by (induction s arbitrary: d r) (auto split: if_splits prod.splits)

lemma read_number_length: "read_number s = Some (t, z) \<Longrightarrow> length z < length s"
proof -
  assume rn: "read_number s = Some (t, z)"
  define s0 where "s0 = (if take 1 s = ''-'' then drop 1 s else s)"
  obtain i r where i: "span_digits s0 = (i, r)" by (metis surj_pair)
  have le: "length s0 \<le> length s" "i \<noteq> []" using rn i by (auto simp: s0_def read_number_def Let_def split: if_splits)
  have r: "length r < length s" using span_digits_append [OF i] le by (cases i) auto
  define fz where "fz = (if take 1 r = ''.'' then (let (d, z) = span_digits (drop 1 r) in (Some d, z)) else (None, r))"
  obtain fr r1 where f: "fz = (fr, r1)" by (metis surj_pair)
  have r1: "length r1 \<le> length r"
    using f span_digits_append [of "drop 1 r"] by (auto simp: fz_def split: if_splits prod.splits) (metis diff_le_self le_add2 length_append length_drop order_trans)
  define r2 where "r2 = (if take 1 r1 = ''e'' \<or> take 1 r1 = ''E'' then (let t = drop 1 r1 in if take 1 t = ''+'' \<or> take 1 t = ''-'' then drop 1 t else t) else r1)"
  define ez where "ez = (if take 1 r1 = ''e'' \<or> take 1 r1 = ''E'' then (let (d, z) = span_digits r2 in (Some d, z)) else (None, r1))"
  obtain ed r3 where e: "ez = (ed, r3)" by (metis surj_pair)
  have r2: "length r2 \<le> length r1" by (simp add: r2_def Let_def)
  have r3: "length r3 \<le> length r1"
  proof (cases "take 1 r1 = ''e'' \<or> take 1 r1 = ''E''")
    case True
    obtain d y where d: "span_digits r2 = (d, y)" by (metis surj_pair)
    with True e have "r3 = y" by (simp add: ez_def)
    with span_digits_append [OF d] r2 show ?thesis by simp
  qed (use e in \<open>auto simp: ez_def\<close>)
  have "z = r3"
    using rn i f e unfolding read_number_def s0_def fz_def r2_def ez_def Let_def
    by (auto split: if_splits prod.splits)
  with r r1 r3 show ?thesis by simp
qed

lemma take1D: "take 1 s = [c] \<Longrightarrow> \<exists>r. s = c # r"
  by (cases s) auto

text \<open>What any amount of fuel reads is read with two units for each character and two more.\<close>

lemma read_shorter:
  "read_value n s = Some (v, r) \<Longrightarrow> length r < length s"
  "read_elements n s = Some (xs, r) \<Longrightarrow> length r < length s"
  "read_members n s = Some (ms, r) \<Longrightarrow> length r < length s"
proof (induction n s and n s and n s arbitrary: v r and xs r and ms r rule: read_value_read_elements_read_members.induct)
  case (2 n s)
  obtain c s' where s: "skip_ws s = c # s'" using 2(3) by (auto split: list.splits)
  have l: "length s' < length s" using skip_ws_length [of s] s by simp
  note d = skip_ws_length [of s']
  show ?case
    using 2(3) s l d unquote_length [of s'] read_number_length [of "c # s'"] skip_ws_length [of s] 2(1) [OF s] 2(2) [OF s]
    by (auto split: if_splits)
next
  case (4 n s)
  obtain w r0 where w: "read_value n s = Some (w, r0)" using 4(3) by (auto split: option.splits)
  obtain c r1 where c: "skip_ws r0 = c # r1" using 4(3) w by (auto split: list.splits)
  have "length r1 < length s" using 4(1) [OF w] skip_ws_length [of r0] c by simp
  with 4(3) w c 4(2) [OF w refl c] show ?case by (auto split: if_splits)
next
  case (6 n s)
  obtain q s' where q: "skip_ws s = q # s'" using 6(3) by (auto split: list.splits)
  then have q22: "\<not> q \<noteq> CHR 0x22" using 6(3) by (auto split: if_splits)
  obtain k r0 where k: "unquote s' = Some (k, r0)" using 6(3) q q22 by (auto split: option.splits)
  have colon: "\<not> take 1 (skip_ws r0) \<noteq> '':''" using 6(3) q q22 k by (auto split: if_splits)
  obtain w r1 where w: "read_value n (drop 1 (skip_ws r0)) = Some (w, r1)" using 6(3) q q22 k colon by (auto split: option.splits)
  obtain c r2 where c: "skip_ws r1 = c # r2" using 6(3) q q22 k colon w by (auto split: list.splits)
  have "length r2 < length s"
    using 6(1) [OF q q22 k refl colon w] skip_ws_length [of r1] c skip_ws_length [of r0] unquote_length [OF k]
      skip_ws_length [of s] q by simp
  with 6(3) q q22 k colon w c 6(2) [OF q q22 k refl colon w refl c] show ?case by (auto split: if_splits)
qed simp_all

lemma read_fuel:
  "read_value n s = Some x \<Longrightarrow> 2 * length s + 1 \<le> m \<Longrightarrow> read_value m s = Some x"
  "read_elements n s = Some y \<Longrightarrow> 2 * length s + 2 \<le> m \<Longrightarrow> read_elements m s = Some y"
  "read_members n s = Some z \<Longrightarrow> 2 * length s + 1 \<le> m \<Longrightarrow> read_members m s = Some z"
proof (induction n s and n s and n s arbitrary: x m and y m and z m rule: read_value_read_elements_read_members.induct)
  case (2 n s)
  obtain m' where m: "m = Suc m'" using 2(4) by (cases m) auto
  obtain c s' where s: "skip_ws s = c # s'" using 2(3) by (auto split: list.splits)
  have l: "2 * length s' + 2 \<le> m'" using skip_ws_length [of s] s 2(4) m by simp
  then have l1: "2 * length s' + 1 \<le> m'" by simp
  show ?case
    using 2(3) s 2(1) [OF s _ _ _ _ l1] 2(2) [OF s _ _ _ _ _ l] unfolding m
    by (auto split: if_splits option.splits)
next
  case (4 n s)
  obtain m' where m: "m = Suc m'" using 4(4) by (cases m) auto
  obtain w r0 where w: "read_value n s = Some (w, r0)" using 4(3) by (auto split: option.splits)
  obtain c r1 where c: "skip_ws r0 = c # r1" using 4(3) w by (auto split: list.splits)
  have l: "length r1 < length s" using read_shorter(1) [OF w] skip_ws_length [of r0] c by simp
  have "read_value m' s = Some (w, r0)" using 4(1) [OF w] 4(4) m by simp
  with 4(3) w c 4(2) [OF w refl c, where m = m'] l 4(4) show ?case unfolding m by (auto split: if_splits)
next
  case (6 n s)
  obtain m' where m: "m = Suc m'" using 6(4) by (cases m) auto
  obtain q s' where q: "skip_ws s = q # s'" using 6(3) by (auto split: list.splits)
  then have q22: "\<not> q \<noteq> CHR 0x22" using 6(3) by (auto split: if_splits)
  obtain k r0 where k: "unquote s' = Some (k, r0)" using 6(3) q q22 by (auto split: option.splits)
  have colon: "\<not> take 1 (skip_ws r0) \<noteq> '':''" using 6(3) q q22 k by (auto split: if_splits)
  obtain w r1 where w: "read_value n (drop 1 (skip_ws r0)) = Some (w, r1)" using 6(3) q q22 k colon by (auto split: option.splits)
  obtain c r2 where c: "skip_ws r1 = c # r2" using 6(3) q q22 k colon w by (auto split: list.splits)
  have l: "length (drop 1 (skip_ws r0)) < length s"
    using skip_ws_length [of r0] unquote_length [OF k] skip_ws_length [of s] q by simp
  moreover have "length r2 < length (drop 1 (skip_ws r0))" using read_shorter(1) [OF w] skip_ws_length [of r1] c by simp
  moreover have "read_value m' (drop 1 (skip_ws r0)) = Some (w, r1)" using 6(1) [OF q q22 k refl colon w] l 6(4) m by simp
  ultimately show ?case
    using 6(3) q q22 k colon w c 6(2) [OF q q22 k refl colon w refl c, where m = m'] 6(4) unfolding m by (auto split: if_splits)
qed simp_all

text \<open>So the fuel of \<open>json_parse\<close> does not show: a text has a value with some fuel only if it has it there.\<close>

lemma json_parse_complete:
  assumes "read_value n s = Some (v, r)" and "skip_ws r = []"
  shows "json_parse s = Some v"
  using read_fuel(1) [OF assms(1), of "2 * length s + 2"] assms(2) by (simp add: json_parse_def)

end
