(* ===== verification/Sync.thy ===== *)
theory Sync imports Rule Json begin

text \<open>
  Configuration events: \<^verbatim>\<open>internal/sync/message.go\<close> and \<^verbatim>\<open>internal/sync/worker.go\<close>.

  The admin service publishes an event for a user whose rules changed; the worker of each edge
  process receives it and evicts the user's cached decisions. The worker is given the function
  that evicts (\<^verbatim>\<open>CacheEvictor\<close>): the locale \<open>cache_evictor\<close> says what it relies on, and the
  rule checker's \<open>rule_ClearUserCache\<close> provides it for every cache and Redis that keep their
  promises. What the subscription delivers is an argument of \<open>subscribe\<close> and
  \<open>sync_run\<close>.
\<close>

section \<open>Messages\<close>

record ConfigEvent =
  ev_UserID :: string
  ev_Action :: string

definition ActionClearCache :: string where "ActionClearCache = ''clear_cache''"
definition ActionUpdateRule :: string where "ActionUpdateRule = ''update_rule''"
definition ConfigChannel :: string where "ConfigChannel = ''dns:config:events''"

datatype event_error = UserIDRequired | UnknownAction string | DecodeFailed | FieldType

definition Validate :: "ConfigEvent \<Rightarrow> event_error option" where
  "Validate e =
     (if ev_UserID e = [] then Some UserIDRequired
      else if ev_Action e = ActionClearCache \<or> ev_Action e = ActionUpdateRule then None
      else Some (UnknownAction (ev_Action e)))"

text \<open>\<^verbatim>\<open>json.Marshal\<close> of an event: the two fields in their order. It does not fail on strings.\<close>

definition Encode :: "ConfigEvent \<Rightarrow> string" where
  "Encode e = ''{'' @ quote ''user_id'' @ '':'' @ quote (ev_UserID e) @ '','' @ quote ''action'' @ '':'' @ quote (ev_Action e) @ ''}''"

text \<open>
  \<^verbatim>\<open>json.Unmarshal\<close> into an event: keys match fields without regard to case, unknown keys are
  skipped, the last of equal keys wins, a null leaves the field, any other value that is not a
  string is an error.
\<close>

definition store_field :: "string \<times> json \<Rightarrow> ConfigEvent \<times> bool \<Rightarrow> ConfigEvent \<times> bool" where
  "store_field kv eb =
     (let k = ToLower (fst kv) in
      if k = ''user_id'' \<or> k = ''action'' then
        (case snd kv of
           JStr t \<Rightarrow> (if k = ''user_id'' then (fst eb)\<lparr>ev_UserID := t\<rparr> else (fst eb)\<lparr>ev_Action := t\<rparr>, snd eb)
         | JNull \<Rightarrow> eb
         | _ \<Rightarrow> (fst eb, False))
      else eb)"

definition unmarshal_event :: "string \<Rightarrow> event_error + ConfigEvent" where
  "unmarshal_event payload =
     (let zero = \<lparr>ev_UserID = [], ev_Action = []\<rparr>
      in case json_parse payload of
           None \<Rightarrow> Inl DecodeFailed
         | Some JNull \<Rightarrow> Inr zero
         | Some (JObj ms) \<Rightarrow>
             (let (e, ok) = fold store_field ms (zero, True) in if ok then Inr e else Inl FieldType)
         | Some _ \<Rightarrow> Inl FieldType)"

definition DecodeEvent :: "string \<Rightarrow> event_error + ConfigEvent" where
  "DecodeEvent payload =
     (case unmarshal_event payload of
        Inl err \<Rightarrow> Inl err
      | Inr e \<Rightarrow> (case Validate e of Some err \<Rightarrow> Inl err | None \<Rightarrow> Inr e))"

section \<open>The worker\<close>

definition handleMessage :: "('e \<Rightarrow> string \<Rightarrow> 'e) \<Rightarrow> 'e \<Rightarrow> string \<Rightarrow> 'e" where
  "handleMessage evictor st payload =
     (case DecodeEvent payload of
        Inl err \<Rightarrow> st
      | Inr event \<Rightarrow> (if ev_Action event = ActionClearCache then evictor st (ev_UserID event) else st))"

text \<open>One subscription: whether it was confirmed, and what it delivers until it is closed.\<close>

definition subscribe :: "('e \<Rightarrow> string \<Rightarrow> 'e) \<Rightarrow> bool \<times> string list \<Rightarrow> 'e \<Rightarrow> 'e" where
  "subscribe evictor s st =
     (case s of (received, msgs) \<Rightarrow>
        if \<not> received then st else foldl (handleMessage evictor) st msgs)"

definition maxBackoff :: time where "maxBackoff = 30 * second"
definition minBackoff :: time where "minBackoff = 500 * millisecond"

definition next_backoff :: "time \<Rightarrow> time" where
  "next_backoff b = (let b = b * 2 in if b > maxBackoff then maxBackoff else b)"

text \<open>
  The loop of the worker, one subscription after the other until the context is cancelled (the end
  of the list); the result is the pauses made and the state of the caches.
\<close>

fun sync_loop :: "('e \<Rightarrow> string \<Rightarrow> 'e) \<Rightarrow> time \<Rightarrow> (bool \<times> string list) list \<Rightarrow> 'e \<Rightarrow> time list \<times> 'e" where
  "sync_loop evictor backoff [] st = ([], st)"
| "sync_loop evictor backoff (s # ss) st =
     (let st' = subscribe evictor s st;
          (pauses, st'') = sync_loop evictor (next_backoff backoff) ss st'
      in (backoff # pauses, st''))"

definition sync_run :: "('e \<Rightarrow> string \<Rightarrow> 'e) \<Rightarrow> (bool \<times> string list) list \<Rightarrow> 'e \<Rightarrow> time list \<times> 'e" where
  "sync_run evictor ss st = sync_loop evictor minBackoff ss st"

section \<open>Decoding what was encoded\<close>

lemma quote_Cons: "quote s @ r = CHR 0x22 # (concat (map escape_char s) @ CHR 0x22 # r)"
  by (simp add: quote_def)

lemma read_value_quote:
  "is_ascii s \<Longrightarrow> read_value (Suc n) (quote s @ r) = Some (JStr s, r)"
  by (simp add: quote_Cons is_ws_def unquote_escaped)

lemma read_members_one:
  assumes "is_ascii k" and "is_ascii v"
  shows "read_members (Suc (Suc n)) (quote k @ '':'' @ quote v @ ''}'' @ r) = Some ([(k, JStr v)], r)"
    and "read_members (Suc (Suc n)) (quote k @ '':'' @ quote v @ '','' @ r) =
         map_option (\<lambda>(ms, z). ((k, JStr v) # ms, z)) (read_members (Suc n) r)"
proof -
  have k: "quote k @ x = CHR 0x22 # (concat (map escape_char k) @ CHR 0x22 # x)" for x by (rule quote_Cons)
  show "read_members (Suc (Suc n)) (quote k @ '':'' @ quote v @ ''}'' @ r) = Some ([(k, JStr v)], r)"
    unfolding read_members.simps(2) [of "Suc n"] k
    using assms read_value_quote [OF assms(2), of n "''}'' @ r"] by (simp add: is_ws_def unquote_escaped)
  show "read_members (Suc (Suc n)) (quote k @ '':'' @ quote v @ '','' @ r) =
         map_option (\<lambda>(ms, z). ((k, JStr v) # ms, z)) (read_members (Suc n) r)"
    unfolding read_members.simps(2) [of "Suc n"] k
    using assms read_value_quote [OF assms(2), of n "'','' @ r"] by (simp add: is_ws_def unquote_escaped)
qed

lemma json_parse_Encode:
  assumes "is_ascii (ev_UserID e)" and "is_ascii (ev_Action e)"
  shows "json_parse (Encode e) = Some (JObj [(''user_id'', JStr (ev_UserID e)), (''action'', JStr (ev_Action e))])"
proof -
  let ?r = "quote ''user_id'' @ '':'' @ quote (ev_UserID e) @ '','' @ quote ''action'' @ '':'' @ quote (ev_Action e) @ ''}''"
  have a: "is_ascii ''user_id''" "is_ascii ''action''" by (simp_all add: is_ascii_def)
  have m: "read_members (Suc (Suc (Suc n))) ?r = Some ([(''user_id'', JStr (ev_UserID e)), (''action'', JStr (ev_Action e))], [])" for n
    using read_members_one(2) [OF a(1) assms(1), of "Suc n" "quote ''action'' @ '':'' @ quote (ev_Action e) @ ''}''"]
      read_members_one(1) [OF a(2) assms(2), of n "[]"] by simp
  have e: "Encode e = CHR ''{'' # ?r" by (simp add: Encode_def)
  have ws: "skip_ws (CHR ''{'' # ?r) = CHR ''{'' # ?r" "skip_ws ?r = ?r" "take 1 ?r \<noteq> ''}''"
    by (simp_all add: is_ws_def quote_def)
  have "2 * length (Encode e) + 2 = Suc (Suc (Suc (Suc (2 * length ?r))))" by (simp add: e)
  then have "read_value (2 * length (Encode e) + 2) (Encode e) =
      Some (JObj [(''user_id'', JStr (ev_UserID e)), (''action'', JStr (ev_Action e))], [])"
    unfolding e using ws m [of "2 * length ?r"] by simp
  then show ?thesis by (simp add: json_parse_def)
qed

lemma unmarshal_Encode:
  assumes "is_ascii (ev_UserID e)" and "is_ascii (ev_Action e)"
  shows "unmarshal_event (Encode e) = Inr \<lparr>ev_UserID = ev_UserID e, ev_Action = ev_Action e\<rparr>"
proof -
  have "ToLower ''user_id'' = ''user_id''" "ToLower ''action'' = ''action''" by code_simp+
  then show ?thesis by (simp add: unmarshal_event_def json_parse_Encode [OF assms] store_field_def)
qed

lemma DecodeEvent_Encode:
  assumes "is_ascii (ev_UserID e)" and "Validate e = None"
  shows "DecodeEvent (Encode e) = Inr \<lparr>ev_UserID = ev_UserID e, ev_Action = ev_Action e\<rparr>"
proof -
  have "is_ascii (ev_Action e)" using assms(2)
    by (auto simp: Validate_def ActionClearCache_def ActionUpdateRule_def is_ascii_def split: if_splits)
  from unmarshal_Encode [OF assms(1) this] assms(2) show ?thesis
    by (simp add: DecodeEvent_def Validate_def split: if_splits)
qed

lemma DecodeEvent_valid: "DecodeEvent p = Inr e \<Longrightarrow> Validate e = None"
  by (auto simp: DecodeEvent_def split: sum.splits option.splits)


section \<open>The evictor\<close>

text \<open>
  \<open>holds st u\<close>: something is cached for the user \<open>u\<close>. Evicting a user leaves nothing of
  that user, and leaves the others alone.
\<close>

locale cache_evictor =
  fixes evictor :: "'e \<Rightarrow> string \<Rightarrow> 'e" and holds :: "'e \<Rightarrow> string \<Rightarrow> bool" and good :: "string \<Rightarrow> bool"
  assumes evict_clears: "good u \<Longrightarrow> \<not> holds (evictor st u) u"
    and evict_frame: "good u \<Longrightarrow> good v \<Longrightarrow> u \<noteq> v \<Longrightarrow> holds (evictor st u) v = holds st v"
begin

definition clears :: "string \<Rightarrow> string \<Rightarrow> bool" where
  "clears u payload \<longleftrightarrow> (\<exists>e. DecodeEvent payload = Inr e \<and> ev_Action e = ActionClearCache \<and> ev_UserID e = u)"

definition good_payload :: "string \<Rightarrow> bool" where
  "good_payload payload \<longleftrightarrow> (\<forall>u. clears u payload \<longrightarrow> good u)"

lemma handleMessage_holds:
  assumes "good v" and "good_payload payload"
  shows "holds (handleMessage evictor st payload) v \<longleftrightarrow> holds st v \<and> \<not> clears v payload"
proof (cases "DecodeEvent payload")
  case (Inr e)
  show ?thesis
  proof (cases "ev_Action e = ActionClearCache")
    case True
    with Inr assms(2) have g: "good (ev_UserID e)" by (auto simp: good_payload_def clears_def)
    have "handleMessage evictor st payload = evictor st (ev_UserID e)" using Inr True by (simp add: handleMessage_def)
    moreover have "clears v payload \<longleftrightarrow> v = ev_UserID e" using Inr True by (auto simp: clears_def)
    ultimately show ?thesis using evict_clears [OF g, of st] evict_frame [OF g assms(1), of st] by (cases "v = ev_UserID e") auto
  qed (use Inr in \<open>auto simp: handleMessage_def clears_def\<close>)
qed (simp add: handleMessage_def clears_def)

text \<open>A whole subscription: what was cached for a user survives exactly if no message clears it.\<close>

lemma messages_hold:
  assumes "good v" and "\<And>p. p \<in> set msgs \<Longrightarrow> good_payload p"
  shows "holds (foldl (handleMessage evictor) st msgs) v \<longleftrightarrow> holds st v \<and> (\<forall>p \<in> set msgs. \<not> clears v p)"
  using assms(2)
proof (induction msgs arbitrary: st)
  case (Cons p ps)
  then have "holds (handleMessage evictor st p) v \<longleftrightarrow> holds st v \<and> \<not> clears v p"
    by (intro handleMessage_holds assms(1)) simp
  with Cons show ?case by auto
qed simp

lemma subscribe_holds:
  assumes "good v" and "\<And>p. p \<in> set msgs \<Longrightarrow> good_payload p"
  shows "holds (subscribe evictor (ok, msgs) st) v \<longleftrightarrow> holds st v \<and> (ok \<longrightarrow> (\<forall>p \<in> set msgs. \<not> clears v p))"
  using messages_hold [OF assms] by (simp add: subscribe_def)

end

text \<open>The rule checker has something for the user that a check or a lookup from \<open>t\<close> on can hit.\<close>

definition user_cached :: "('c, cache_val) cache_ops \<Rightarrow> time \<Rightarrow> 'c rule_pkg \<Rightarrow> string \<Rightarrow> bool" where
  "user_cached C t p u \<longleftrightarrow>
     (\<exists>c t' d. global p = Some c \<and> t \<le> t' \<and>
        (cache_Get C (cache c) t' (check_cacheKey u d) \<noteq> None \<or> cache_Get C (cache c) t' (redirect_cacheKey u d) \<noteq> None))"

context checker_env
begin

lemma Get_cleared:
  assumes "valid_user u" and "valid_user v" and "t \<le> t'"
  shows "cache_Get C (cache (ClearUserCache C t c u)) t' (check_cacheKey v d) =
           (if u = v then None else cache_Get C (cache c) t' (check_cacheKey v d))"
    and "cache_Get C (cache (ClearUserCache C t c u)) t' (redirect_cacheKey v d) =
           (if u = v then None else cache_Get C (cache c) t' (redirect_cacheKey v d))"
  using check_key_prefixes [OF assms(1,2)] redirect_key_prefixes [OF assms(1,2)]
  by (simp_all add: Get_ClearUserCache [OF assms(3)])

lemma user_cached_clear:
  assumes "valid_user u" and "valid_user v"
  shows "user_cached C t (rule_ClearUserCache C t p u) v \<longleftrightarrow> u \<noteq> v \<and> user_cached C t p v"
proof (cases "global p")
  case (Some c)
  then have "user_cached C t (rule_ClearUserCache C t p u) v \<longleftrightarrow>
      (\<exists>t' d. t \<le> t' \<and> (cache_Get C (cache (ClearUserCache C t c u)) t' (check_cacheKey v d) \<noteq> None \<or>
                       cache_Get C (cache (ClearUserCache C t c u)) t' (redirect_cacheKey v d) \<noteq> None))"
    by (simp add: user_cached_def rule_ClearUserCache_def)
  also have "\<dots> \<longleftrightarrow> u \<noteq> v \<and> user_cached C t p v"
    using Some Get_cleared [OF assms] by (cases "u = v") (simp_all add: user_cached_def cong: conj_cong)
  finally show ?thesis .
qed (simp add: user_cached_def rule_ClearUserCache_def)

end

sublocale checker_env \<subseteq> ev: cache_evictor "rule_ClearUserCache C t" "user_cached C t" valid_user for t
  by unfold_locales (simp_all add: user_cached_clear)

context checker_env
begin

lemma subscription_clears:
  assumes "valid_user v" and "\<And>p e. p \<in> set msgs \<Longrightarrow> DecodeEvent p = Inr e \<Longrightarrow> valid_user (ev_UserID e)"
  shows "user_cached C t (subscribe (rule_ClearUserCache C t) (True, msgs) st) v \<longleftrightarrow>
         user_cached C t st v \<and>
         \<not> (\<exists>p \<in> set msgs. \<exists>e. DecodeEvent p = Inr e \<and> ev_Action e = ActionClearCache \<and> ev_UserID e = v)"
proof -
  have "ev.good_payload p" if "p \<in> set msgs" for p
    using assms(2) that by (auto simp: ev.good_payload_def ev.clears_def)
  from ev.subscribe_holds [OF assms(1) this, of msgs t True st] show ?thesis by (auto simp: ev.clears_def)
qed

end

section \<open>The pauses\<close>

lemma next_backoff_min: "next_backoff (min (500 * millisecond * 2 ^ n) maxBackoff) = min (500 * millisecond * 2 ^ Suc n) maxBackoff"
  by (auto simp: next_backoff_def maxBackoff_def Let_def min_def)

lemma sync_loop_pauses:
  "fst (sync_loop evictor (min (500 * millisecond * 2 ^ n) maxBackoff) ss st) =
     map (\<lambda>i. min (500 * millisecond * 2 ^ (n + i)) maxBackoff) [0..<length ss]"
proof (induction ss arbitrary: n st)
  case (Cons s ss)
  have "map (\<lambda>i. min (500 * millisecond * 2 ^ (n + i)) maxBackoff) [0..<length (s # ss)] =
      min (500 * millisecond * 2 ^ n) maxBackoff # map (\<lambda>i. min (500 * millisecond * 2 ^ (Suc n + i)) maxBackoff) [0..<length ss]"
    by (simp add: upt_conv_Cons map_Suc_upt [symmetric] comp_def del: upt_Suc)
  with Cons.IH [of "Suc n" "subscribe evictor s st"] next_backoff_min [of n] show ?case
    by (simp add: Let_def case_prod_beta del: power_Suc)
qed simp


section \<open>Properties\<close>

text \<open>
  C20. Events survive the wire: an event that is valid, for a user name in ASCII, is decoded to
  itself from the text it is encoded to, whatever characters have to be escaped. Whatever text
  arrives, only events with a user and one of the two known actions are ever accepted.
\<close>

theorem event_roundtrip:
  assumes "is_ascii (ev_UserID e)" and "Validate e = None"
  shows "DecodeEvent (Encode e) = Inr \<lparr>ev_UserID = ev_UserID e, ev_Action = ev_Action e\<rparr> \<and>
         (DecodeEvent p = Inr e' \<longrightarrow> ev_UserID e' \<noteq> [] \<and> ev_Action e' \<in> {ActionClearCache, ActionUpdateRule})"
  using DecodeEvent_Encode [OF assms] DecodeEvent_valid [of p e']
  by (auto simp: Validate_def split: if_splits)

definition ex_event :: ConfigEvent where
  "ex_event = \<lparr>ev_UserID = [CHR ''a'', CHR 0x22, CHR 0x5C, CHR 0x07, CHR ''<''], ev_Action = ''clear_cache''\<rparr>"

theorem event_roundtrip_witness:
  "DecodeEvent (Encode ex_event) = Inr ex_event \<and> DecodeEvent ''{}'' \<noteq> Inr ex_event"
proof -
  have "is_ascii (ev_UserID ex_event)" "Validate ex_event = None"
    by (simp_all add: ex_event_def is_ascii_def Validate_def ActionClearCache_def)
  from event_roundtrip [OF this, of "''{}''" ex_event] show ?thesis
    by (auto simp: ex_event_def DecodeEvent_def unmarshal_event_def json_parse_def Validate_def is_ws_def numeral_2_eq_2 Let_def)
qed

text \<open>
  C19. A subscription evicts exactly what it is told to: for users without a colon in their names,
  after the messages of a subscription a user has cached decisions exactly if the user had some
  and none of the messages is a \<^verbatim>\<open>clear_cache\<close> event of that user. In particular an
  \<^verbatim>\<open>update_rule\<close> event, and any text that is not an event, evicts nothing.
\<close>

theorem subscription_evicts_exactly:
  assumes "checker_env C entry dflt R sets_of hashes_of pub_log" and "valid_user v"
    and "\<forall>p \<in> set msgs. \<forall>e. DecodeEvent p = Inr e \<longrightarrow> valid_user (ev_UserID e)"
  shows "user_cached C t (subscribe (rule_ClearUserCache C t) (True, msgs) st) v \<longleftrightarrow>
         user_cached C t st v \<and>
         \<not> (\<exists>p \<in> set msgs. \<exists>e. DecodeEvent p = Inr e \<and> ev_Action e = ActionClearCache \<and> ev_UserID e = v)"
  using checker_env.subscription_clears [OF assms(1,2), of msgs t st] assms(3) by blast

theorem subscription_evicts_exactly_witness:
  "user_cached mem_cache_ops 8 \<lparr>global = Some ex_two_users, totalChecks = 0\<rparr> ''alice'' \<and>
   \<not> user_cached mem_cache_ops 8 (subscribe (rule_ClearUserCache mem_cache_ops 8)
       (True, [''{}'', Encode \<lparr>ev_UserID = ''alice'', ev_Action = ''clear_cache''\<rparr>]) \<lparr>global = Some ex_two_users, totalChecks = 0\<rparr>) ''alice'' \<and>
   user_cached mem_cache_ops 8 (subscribe (rule_ClearUserCache mem_cache_ops 8)
       (True, [Encode \<lparr>ev_UserID = ''alice'', ev_Action = ''update_rule''\<rparr>]) \<lparr>global = Some ex_two_users, totalChecks = 0\<rparr>) ''alice''"
proof -
  let ?st = "\<lparr>global = Some ex_two_users, totalChecks = 0\<rparr>"
  let ?e = "\<lambda>a. \<lparr>ev_UserID = ''alice'', ev_Action = a\<rparr>"
  have u: "valid_user ''alice''" by code_simp
  have d: "DecodeEvent (Encode (?e ''clear_cache'')) = Inr (?e ''clear_cache'')" "DecodeEvent (Encode (?e ''update_rule'')) = Inr (?e ''update_rule'')"
    by (simp_all add: DecodeEvent_Encode is_ascii_def Validate_def ActionClearCache_def ActionUpdateRule_def)
  have e0: "DecodeEvent ''{}'' = Inl UserIDRequired"
    by (simp add: DecodeEvent_def unmarshal_event_def json_parse_def Validate_def is_ws_def numeral_2_eq_2 Let_def)
  have "cache_Get mem_cache_ops (cache ex_two_users) 9 (check_cacheKey ''alice'' ''x.org'') = Some (CBool False)" by code_simp
  then have c: "user_cached mem_cache_ops 8 ?st ''alice''"
    unfolding user_cached_def by (intro exI [of _ ex_two_users] exI [of _ 9] exI [of _ "''x.org''"]) simp
  note sub = subscription_evicts_exactly [OF mem.checker_env_axioms u, of _ 8 ?st]
  show ?thesis
    using c sub [of "[''{}'', Encode (?e ''clear_cache'')]"] sub [of "[Encode (?e ''update_rule'')]"]
    by (simp add: d e0 u ActionClearCache_def)
qed

text \<open>
  The pauses between two subscriptions double from half a second up to 30 seconds and stay
  there: the pause after the subscription number \<open>i\<close> is the smaller of \<open>500 * 2 ^ i\<close>
  milliseconds and 30 seconds, whether the subscriptions before it failed or were up for long.
\<close>

theorem sync_pauses:
  "fst (sync_run evictor ss st) = map (\<lambda>i. min (500 * millisecond * 2 ^ i) (30 * second)) [0..<length ss]"
proof -
  have "minBackoff = min (500 * millisecond * 2 ^ 0) maxBackoff" by (simp add: minBackoff_def maxBackoff_def)
  with sync_loop_pauses [of evictor 0 ss st] show ?thesis by (simp add: sync_run_def maxBackoff_def)
qed

end
