(* ===== verification/Admin.thy ===== *)
theory Admin imports Sync begin

text \<open>
  The admin service: \<^verbatim>\<open>internal/admin/handlers.go\<close>.

  A request is the part of it that the handlers read: method, path, headers, query parameters and
  the outcome of binding its JSON body, which the web framework computes (a body in which a
  required field is missing or empty is an error). A handler returns the status and body of the
  response and the new state of the service: the Redis world and the audit log. The analytics
  queries are arguments.
\<close>

section \<open>Requests, responses, state\<close>

record ruleRequest =
  rule_UserID :: string
  rule_Domain :: string
  rule_Action :: string

record redirectRequest =
  redirect_UserID :: string
  redirect_Domain :: string
  redirect_TargetIP :: string

record request =
  rq_method :: string
  rq_path :: string
  rq_Authorization :: string
  rq_XForwardedFor :: string
  rq_ClientIP :: string
  rq_user_id :: string
  rq_limit :: string
  rq_rule :: "string + ruleRequest"
  rq_redirect :: "string + redirectRequest"

record summaryRow =
  sum_Status :: string
  sum_Count :: "64 word"

record logEntry =
  le_Timestamp :: time
  le_ClientIP :: string
  le_Domain :: string
  le_QueryType :: string
  le_Status :: string
  le_ResponseTime :: "64 word"

datatype body =
    Error string | Message string
  | Rules string "string list" | Redirects string "(string \<times> string) list"
  | Summary string "summaryRow list" | Logs string "logEntry list" | Text string | Html string

type_synonym response = "nat \<times> body"

record 'r AdminService =
  rdb :: 'r
  audit :: "(string \<times> string \<times> string \<times> string) list"
  chdb :: bool
  apiKey :: string

definition admin_New :: "'r \<Rightarrow> bool \<Rightarrow> string \<Rightarrow> 'r AdminService" where
  "admin_New r ch key = \<lparr>rdb = r, audit = [], chdb = ch, apiKey = key\<rparr>"

text \<open>
  The two analytics queries: an error, or for each row what \<^verbatim>\<open>Scan\<close> made of it (\<open>None\<close> if it
  failed).
\<close>

record ch_queries =
  query_summary :: "string \<Rightarrow> string + summaryRow option list"
  query_logs :: "string \<Rightarrow> int \<Rightarrow> string + logEntry option list"

section \<open>Authorization\<close>

definition is_space :: "char \<Rightarrow> bool" where
  "is_space c \<longleftrightarrow> (let n = of_char c :: nat in 9 \<le> n \<and> n \<le> 13 \<or> n = 32)"

text \<open>
  \<^verbatim>\<open>fmt.Sscanf(header, "Bearer %s", &token)\<close> for a header line: the literal, at least one space,
  then the token up to the next space. What follows the token is not looked at.
\<close>

definition scan_bearer :: "string \<Rightarrow> string option" where
  "scan_bearer header =
     (if \<not> HasPrefix header ''Bearer'' then None
      else case drop 6 header of
             [] \<Rightarrow> None
           | c # r \<Rightarrow>
               (if \<not> is_space c then None
                else let token = takeWhile (\<lambda>x. \<not> is_space x) (dropWhile is_space r)
                     in if token = [] then None else Some token))"

text \<open>The middleware: a response that ends the request, or \<open>None\<close> to go on.\<close>

definition authMiddleware :: "'r AdminService \<Rightarrow> request \<Rightarrow> response option" where
  "authMiddleware s c =
     (if apiKey s = [] then None
      else let header = rq_Authorization c in
        if header = [] then Some (401, Error ''missing Authorization header'')
        else case scan_bearer header of
               None \<Rightarrow> Some (401, Error ''invalid Authorization format, expected: Bearer <token>'')
             | Some token \<Rightarrow>
                 (if token \<noteq> apiKey s then Some (401, Error ''invalid API key'') else None))"

section \<open>Handlers\<close>

definition callerIP :: "request \<Rightarrow> string" where
  "callerIP c = (let fwd = rq_XForwardedFor c in if fwd \<noteq> [] then fwd else rq_ClientIP c)"

definition auditLog :: "'r AdminService \<Rightarrow> string \<Rightarrow> string \<Rightarrow> string \<Rightarrow> string \<Rightarrow> 'r AdminService" where
  "auditLog s action userID domain caller = s\<lparr>audit := audit s @ [(action, userID, domain, caller)]\<rparr>"

definition publishClearCache ::
  "'r redis_client \<Rightarrow> 'r AdminService \<Rightarrow> string \<Rightarrow> redis_error option \<times> 'r AdminService" where
  "publishClearCache R s userID =
     (let event = \<lparr>ev_UserID = userID, ev_Action = ActionClearCache\<rparr>;
          data = Encode event
      in case rdb_Publish R (rdb s) ConfigChannel data of
           (Inl err, r') \<Rightarrow> (Some err, s\<lparr>rdb := r'\<rparr>)
         | (Inr n, r') \<Rightarrow> (None, s\<lparr>rdb := r'\<rparr>))"

definition addRule :: "'r redis_client \<Rightarrow> 'r AdminService \<Rightarrow> request \<Rightarrow> response \<times> 'r AdminService" where
  "addRule R s c =
     (case rq_rule c of
        Inl err \<Rightarrow> ((400, Error err), s)
      | Inr req \<Rightarrow>
          (case rdb_SAdd R (rdb s) (blocked_key (rule_UserID req)) [rule_Domain req] of
             (Some err, r') \<Rightarrow> ((500, Error ''failed to save rule''), s\<lparr>rdb := r'\<rparr>)
           | (None, r') \<Rightarrow>
               (let (err, s) = publishClearCache R (s\<lparr>rdb := r'\<rparr>) (rule_UserID req);
                    s = auditLog s ''add_rule'' (rule_UserID req) (rule_Domain req) (callerIP c)
                in ((200, Message ''rule added''), s))))"

definition removeRule :: "'r redis_client \<Rightarrow> 'r AdminService \<Rightarrow> request \<Rightarrow> response \<times> 'r AdminService" where
  "removeRule R s c =
     (case rq_rule c of
        Inl err \<Rightarrow> ((400, Error err), s)
      | Inr req \<Rightarrow>
          (case rdb_SRem R (rdb s) (blocked_key (rule_UserID req)) [rule_Domain req] of
             (Some err, r') \<Rightarrow> ((500, Error ''failed to remove rule''), s\<lparr>rdb := r'\<rparr>)
           | (None, r') \<Rightarrow>
               (let (err, s) = publishClearCache R (s\<lparr>rdb := r'\<rparr>) (rule_UserID req);
                    s = auditLog s ''remove_rule'' (rule_UserID req) (rule_Domain req) (callerIP c)
                in ((200, Message ''rule removed''), s))))"

definition listRules :: "'r redis_client \<Rightarrow> 'r AdminService \<Rightarrow> request \<Rightarrow> response \<times> 'r AdminService" where
  "listRules R s c =
     (let userID = rq_user_id c in
      if userID = [] then ((400, Error ''user_id query parameter is required''), s)
      else case rdb_SMembers R (rdb s) (blocked_key userID) of
             (Inl err, r') \<Rightarrow> ((500, Error ''failed to list rules''), s\<lparr>rdb := r'\<rparr>)
           | (Inr domains, r') \<Rightarrow> ((200, Rules userID domains), s\<lparr>rdb := r'\<rparr>))"

definition addRedirect :: "'r redis_client \<Rightarrow> 'r AdminService \<Rightarrow> request \<Rightarrow> response \<times> 'r AdminService" where
  "addRedirect R s c =
     (case rq_redirect c of
        Inl err \<Rightarrow> ((400, Error err), s)
      | Inr req \<Rightarrow>
          (case rdb_HSet R (rdb s) (redirects_key (redirect_UserID req)) (redirect_Domain req) (redirect_TargetIP req) of
             (Some err, r') \<Rightarrow> ((500, Error ''failed to save redirect''), s\<lparr>rdb := r'\<rparr>)
           | (None, r') \<Rightarrow>
               (let (err, s) = publishClearCache R (s\<lparr>rdb := r'\<rparr>) (redirect_UserID req);
                    s = auditLog s ''add_redirect'' (redirect_UserID req) (redirect_Domain req) (callerIP c)
                in ((200, Message ''redirect added''), s))))"

definition removeRedirect :: "'r redis_client \<Rightarrow> 'r AdminService \<Rightarrow> request \<Rightarrow> response \<times> 'r AdminService" where
  "removeRedirect R s c =
     (case rq_redirect c of
        Inl err \<Rightarrow> ((400, Error err), s)
      | Inr req \<Rightarrow>
          (case rdb_HDel R (rdb s) (redirects_key (redirect_UserID req)) (redirect_Domain req) of
             (Some err, r') \<Rightarrow> ((500, Error ''failed to remove redirect''), s\<lparr>rdb := r'\<rparr>)
           | (None, r') \<Rightarrow>
               (let (err, s) = publishClearCache R (s\<lparr>rdb := r'\<rparr>) (redirect_UserID req);
                    s = auditLog s ''remove_redirect'' (redirect_UserID req) (redirect_Domain req) (callerIP c)
                in ((200, Message ''redirect removed''), s))))"

definition listRedirects :: "'r redis_client \<Rightarrow> 'r AdminService \<Rightarrow> request \<Rightarrow> response \<times> 'r AdminService" where
  "listRedirects R s c =
     (let userID = rq_user_id c in
      if userID = [] then ((400, Error ''user_id query parameter is required''), s)
      else case rdb_HGetAll R (rdb s) (redirects_key userID) of
             (Inl err, r') \<Rightarrow> ((500, Error ''failed to list redirects''), s\<lparr>rdb := r'\<rparr>)
           | (Inr redirects, r') \<Rightarrow> ((200, Redirects userID redirects), s\<lparr>rdb := r'\<rparr>))"

text \<open>The loop over the rows: a row that cannot be scanned is skipped.\<close>

definition scan_rows :: "'a option list \<Rightarrow> 'a list" where
  "scan_rows rows = foldl (\<lambda>acc row. case row of None \<Rightarrow> acc | Some x \<Rightarrow> acc @ [x]) [] rows"

definition analyticsSummary :: "ch_queries \<Rightarrow> 'r AdminService \<Rightarrow> request \<Rightarrow> response" where
  "analyticsSummary Q s c =
     (let userID = rq_user_id c in
      if userID = [] then (400, Error ''user_id query parameter is required'')
      else if \<not> chdb s then (503, Error ''clickhouse not configured'')
      else case query_summary Q userID of
             Inl err \<Rightarrow> (500, Error ''analytics query failed'')
           | Inr rows \<Rightarrow> (200, Summary userID (scan_rows rows)))"

definition logs_limit :: "string \<Rightarrow> int" where
  "logs_limit l =
     (if l \<noteq> [] then
        (case Atoi l of
           Some parsed \<Rightarrow> if parsed > 0 \<and> parsed \<le> 1000 then parsed else 50
         | None \<Rightarrow> 50)
      else 50)"

definition analyticsLogs :: "ch_queries \<Rightarrow> 'r AdminService \<Rightarrow> request \<Rightarrow> response" where
  "analyticsLogs Q s c =
     (let userID = rq_user_id c in
      if userID = [] then (400, Error ''user_id query parameter is required'')
      else let limit = logs_limit (rq_limit c) in
        if \<not> chdb s then (503, Error ''clickhouse not configured'')
        else case query_logs Q userID limit of
               Inl err \<Rightarrow> (500, Error ''analytics query failed'')
             | Inr rows \<Rightarrow> (200, Logs userID (scan_rows rows)))"

section \<open>The router\<close>

definition SetupRouter ::
  "'r redis_client \<Rightarrow> ch_queries \<Rightarrow> string \<times> string \<Rightarrow> ('r AdminService \<Rightarrow> request \<Rightarrow> response \<times> 'r AdminService) option" where
  "SetupRouter R Q = map_of
     [((''POST'', ''/api/v1/rules''), addRule R),
      ((''DELETE'', ''/api/v1/rules''), removeRule R),
      ((''GET'', ''/api/v1/rules''), listRules R),
      ((''POST'', ''/api/v1/redirects''), addRedirect R),
      ((''DELETE'', ''/api/v1/redirects''), removeRedirect R),
      ((''GET'', ''/api/v1/redirects''), listRedirects R),
      ((''GET'', ''/api/v1/analytics/summary''), \<lambda>s c. (analyticsSummary Q s c, s)),
      ((''GET'', ''/api/v1/analytics/logs''), \<lambda>s c. (analyticsLogs Q s c, s))]"

text \<open>The page embedded in the program, if it can be read.\<close>

definition dashboardHandler :: "string option \<Rightarrow> response" where
  "dashboardHandler fs = (case fs of None \<Rightarrow> (500, Text ''dashboard not found'') | Some data \<Rightarrow> (200, Html data))"

text \<open>
  The dashboard is served to everyone; the routes of the API pass the middleware first. What the
  framework adds to the routes (a redirect for a path with a final slash) is not modelled.
\<close>

definition serve ::
  "'r redis_client \<Rightarrow> ch_queries \<Rightarrow> string option \<Rightarrow> 'r AdminService \<Rightarrow> request \<Rightarrow> response \<times> 'r AdminService" where
  "serve R Q F s c =
     (if rq_method c = ''GET'' \<and> rq_path c = ''/'' then (dashboardHandler F, s)
      else case SetupRouter R Q (rq_method c, rq_path c) of
             None \<Rightarrow> ((404, Error ''404 page not found''), s)
           | Some h \<Rightarrow> (case authMiddleware s c of Some resp \<Rightarrow> (resp, s) | None \<Rightarrow> h s c))"

section \<open>Lemmas\<close>

lemma scan_rows_eq: "scan_rows rows = [x. Some x \<leftarrow> rows]"
proof -
  have "foldl (\<lambda>acc row. case row of None \<Rightarrow> acc | Some x \<Rightarrow> acc @ [x]) acc rows = acc @ [x. Some x \<leftarrow> rows]" for acc
    by (induction rows arbitrary: acc) (auto split: option.splits)
  then show ?thesis by (simp add: scan_rows_def)
qed

lemma logs_limit_bounds: "1 \<le> logs_limit l \<and> logs_limit l \<le> 1000"
  by (auto simp: logs_limit_def split: option.splits)

lemma dropWhile_split: "dropWhile P xs = ys \<longleftrightarrow> (\<exists>zs. xs = zs @ ys \<and> list_all P zs \<and> (ys = [] \<or> \<not> P (hd ys)))"
proof
  assume "dropWhile P xs = ys"
  then show "\<exists>zs. xs = zs @ ys \<and> list_all P zs \<and> (ys = [] \<or> \<not> P (hd ys))"
    by (intro exI [of _ "takeWhile P xs"])
      (auto simp: list_all_iff dest: set_takeWhileD hd_dropWhile)
next
  assume "\<exists>zs. xs = zs @ ys \<and> list_all P zs \<and> (ys = [] \<or> \<not> P (hd ys))"
  then show "dropWhile P xs = ys" by (cases ys) (auto simp: list_all_iff dropWhile_append2)
qed

text \<open>The headers that yield a token: the literal, spaces, the token, and then the end or a space.\<close>

lemma scan_bearer_iff:
  "scan_bearer h = Some t \<longleftrightarrow>
     t \<noteq> [] \<and> list_all (\<lambda>x. \<not> is_space x) t \<and>
     (\<exists>sp rest. h = ''Bearer'' @ sp @ t @ rest \<and> sp \<noteq> [] \<and> list_all is_space sp \<and> (rest = [] \<or> is_space (hd rest)))"
  (is "?L \<longleftrightarrow> ?R")
proof
  assume L: ?L
  then obtain r where h: "h = ''Bearer'' @ r" by (auto simp: scan_bearer_def HasPrefix_iff prefix_def split: if_splits)
  with L obtain c r' where r: "r = c # r'" "is_space c" "t = takeWhile (\<lambda>x. \<not> is_space x) (dropWhile is_space r')" "t \<noteq> []"
    by (auto simp: scan_bearer_def Let_def split: if_splits list.splits)
  let ?d = "dropWhile is_space r'"
  have "?d = t @ dropWhile (\<lambda>x. \<not> is_space x) ?d" using r(3) by simp
  moreover have "r' = takeWhile is_space r' @ ?d" by simp
  ultimately have "r' = takeWhile is_space r' @ t @ dropWhile (\<lambda>x. \<not> is_space x) ?d" by metis
  moreover have "list_all is_space (takeWhile is_space r')" by (auto simp: list_all_iff dest: set_takeWhileD)
  moreover have "list_all (\<lambda>x. \<not> is_space x) t" using r(3) by (auto simp: list_all_iff dest: set_takeWhileD)
  moreover have "dropWhile (\<lambda>x. \<not> is_space x) ?d = [] \<or> is_space (hd (dropWhile (\<lambda>x. \<not> is_space x) ?d))"
    using hd_dropWhile [of "\<lambda>x. \<not> is_space x" ?d] by auto
  ultimately show ?R using h r(1,2,4)
    by (intro conjI exI [of _ "c # takeWhile is_space r'"] exI [of _ "dropWhile (\<lambda>x. \<not> is_space x) ?d"]) auto
next
  assume ?R
  then obtain sp rest where t: "t \<noteq> []" "list_all (\<lambda>x. \<not> is_space x) t" and h: "h = ''Bearer'' @ sp @ t @ rest"
    and sp: "sp \<noteq> []" "list_all is_space sp" and rest: "rest = [] \<or> is_space (hd rest)" by blast
  obtain c sp' where c: "sp = c # sp'" using sp(1) by (cases sp) auto
  have "dropWhile is_space (sp' @ t @ rest) = t @ rest"
    using t sp(2) c unfolding dropWhile_split by (intro exI [of _ sp']) (auto simp: list_all_iff neq_Nil_conv)
  moreover have "takeWhile (\<lambda>x. \<not> is_space x) (t @ rest) = t"
    using t(2) rest by (cases rest) (auto simp: list_all_iff takeWhile_append takeWhile_eq_all_conv)
  ultimately show ?L using t(1) sp c unfolding h by (simp add: scan_bearer_def HasPrefix_iff)
qed


lemma authMiddleware_iff:
  assumes "apiKey s \<noteq> []"
  shows "authMiddleware s c = None \<longleftrightarrow> scan_bearer (rq_Authorization c) = Some (apiKey s)"
proof (cases "rq_Authorization c = []")
  case True
  then show ?thesis using assms by (simp add: authMiddleware_def scan_bearer_def HasPrefix_def)
next
  case False
  then show ?thesis using assms by (simp add: authMiddleware_def Let_def split: option.split)
qed

lemma authMiddleware_status: "authMiddleware s c = Some resp \<Longrightarrow> fst resp = 401"
  by (auto simp: authMiddleware_def Let_def split: if_splits option.splits)

text \<open>An entry in capitals, or with a final dot, is not among the patterns of any domain.\<close>

lemma norm_domain_lower: "ToLower (norm_domain d) = norm_domain d"
  by (simp add: norm_domain_def)

lemma norm_domain_no_dot: "\<not> suffix ''..'' d \<Longrightarrow> \<not> suffix ''.'' (norm_domain d)"
proof
  assume d: "\<not> suffix ''..'' d" and s: "suffix ''.'' (norm_domain d)"
  then have "suffix ''.'' (TrimSuffix d ''.'')" by (simp add: norm_domain_def suffix_dot_ToLower)
  moreover from this have "suffix ''.'' d" by (metis TrimSuffix_id)
  then obtain e where "d = e @ ''.''" by (auto simp: suffix_def)
  ultimately have "suffix ''.'' e" by (metis TrimSuffix_append)
  with \<open>d = e @ ''.''\<close> d show False by (auto simp: suffix_def)
qed

lemma unnormalised_no_match:
  assumes "ToLower p \<noteq> p \<or> suffix ''.'' p" and "\<not> suffix ''..'' d"
  shows "p \<noteq> norm_domain d" and "\<not> wildcard_match p (norm_domain d)"
proof -
  show "p \<noteq> norm_domain d" using assms norm_domain_lower norm_domain_no_dot by metis
  show "\<not> wildcard_match p (norm_domain d)"
  proof
    assume "wildcard_match p (norm_domain d)"
    then obtain pre parent where d: "norm_domain d = pre @ ''.'' @ parent" and p: "p = ''*.'' @ parent"
      by (auto simp: wildcard_match_def)
    have "ToLower pre @ ''.'' @ ToLower parent = pre @ ''.'' @ parent"
      using norm_domain_lower [of d] unfolding d by (simp add: ToLower_def lower_char_def)
    then have "ToLower parent = parent" by (metis append_eq_append_conv length_map ToLower_def same_append_eq)
    moreover have "ToLower ''*.'' = ''*.''" by code_simp
    ultimately have "ToLower p = p" unfolding p by (metis ToLower_append)
    with assms(1) have "suffix ''.'' p" by simp
    then have "suffix ''.'' (''.'' @ parent)" unfolding p by (cases parent rule: rev_cases) (auto simp: suffix_def)
    then have "suffix ''.'' (norm_domain d)" unfolding d by (metis suffix_appendI)
    with norm_domain_no_dot [OF assms(2)] show False by simp
  qed
qed

context redis_server
begin

lemma publishClearCache_frame:
  assumes "publishClearCache R s u = (err, s')"
  shows "sets_of (rdb s') = sets_of (rdb s)" and "hashes_of (rdb s') = hashes_of (rdb s)"
    and "audit s' = audit s"
    and "\<exists>m \<le> 4. (err = None \<longrightarrow> 1 \<le> m) \<and> pub_log (rdb s') = pub_log (rdb s) @
           replicate m (ConfigChannel, Encode \<lparr>ev_UserID = u, ev_Action = ActionClearCache\<rparr>)"
proof -
  obtain x r' where p: "rdb_Publish R (rdb s) ConfigChannel (Encode \<lparr>ev_UserID = u, ev_Action = ActionClearCache\<rparr>) = (x, r')"
    by (metis surj_pair)
  then have s': "s' = s\<lparr>rdb := r'\<rparr>" "err = (case x of Inl e \<Rightarrow> Some e | Inr n \<Rightarrow> None)"
    using assms by (auto simp: publishClearCache_def split: sum.splits)
  show "sets_of (rdb s') = sets_of (rdb s)" "hashes_of (rdb s') = hashes_of (rdb s)" "audit s' = audit s"
    using Publish_frame [OF p] by (simp_all add: s'(1))
  show "\<exists>m \<le> 4. (err = None \<longrightarrow> 1 \<le> m) \<and> pub_log (rdb s') = pub_log (rdb s) @
           replicate m (ConfigChannel, Encode \<lparr>ev_UserID = u, ev_Action = ActionClearCache\<rparr>)"
  proof (cases x)
    case (Inl e)
    have "err = Some e" using s'(2) Inl by simp
    moreover obtain m where "m \<le> 4" "pub_log r' = pub_log (rdb s) @
        replicate m (ConfigChannel, Encode \<lparr>ev_UserID = u, ev_Action = ActionClearCache\<rparr>)"
      using Publish_err [OF p [unfolded Inl]] by blast
    ultimately show ?thesis by (intro exI [of _ m]) (simp add: s'(1))
  next
    case (Inr n)
    obtain m where "1 \<le> m" "m \<le> 4" "pub_log r' = pub_log (rdb s) @
        replicate m (ConfigChannel, Encode \<lparr>ev_UserID = u, ev_Action = ActionClearCache\<rparr>)"
      using Publish_ok [OF p [unfolded Inr]] by blast
    then show ?thesis by (intro exI [of _ m]) (simp add: s'(1))
  qed
qed

lemma addRule_ok:
  assumes "rq_rule c = Inr req" and "addRule R s c = ((200, b), s')"
  shows "sets_of (rdb s') = (sets_of (rdb s))(blocked_key (rule_UserID req) :=
           sets_of (rdb s) (blocked_key (rule_UserID req)) \<union> {rule_Domain req})"
proof -
  obtain x r' where a: "rdb_SAdd R (rdb s) (blocked_key (rule_UserID req)) [rule_Domain req] = (x, r')" by (metis surj_pair)
  with assms have x: "x = None" by (auto simp: addRule_def split: option.splits)
  obtain err s1 where p: "publishClearCache R (s\<lparr>rdb := r'\<rparr>) (rule_UserID req) = (err, s1)" by (metis surj_pair)
  have "rdb s' = rdb s1" using assms a x p by (auto simp: addRule_def Let_def auditLog_def)
  with publishClearCache_frame(1) [OF p] SAdd_ok a x show ?thesis by simp
qed

lemma addRule_published:
  assumes "rq_rule c = Inr req" and "addRule R s c = ((200, b), s')"
  shows "\<exists>m \<le> 4. pub_log (rdb s') = pub_log (rdb s) @
           replicate m (ConfigChannel, Encode \<lparr>ev_UserID = rule_UserID req, ev_Action = ActionClearCache\<rparr>)"
proof -
  obtain x r' where a: "rdb_SAdd R (rdb s) (blocked_key (rule_UserID req)) [rule_Domain req] = (x, r')" by (metis surj_pair)
  with assms have x: "x = None" by (auto simp: addRule_def split: option.splits)
  obtain err s1 where p: "publishClearCache R (s\<lparr>rdb := r'\<rparr>) (rule_UserID req) = (err, s1)" by (metis surj_pair)
  have "rdb s' = rdb s1" using assms a x p by (auto simp: addRule_def Let_def auditLog_def)
  with publishClearCache_frame(4) [OF p] SAdd_frame [OF a] show ?thesis by auto
qed

end

section \<open>Properties\<close>

text \<open>
  C7. With an API key configured, the API is reachable exactly with that key (the page at GET / is
  open to everybody): a request for anything else whose
  \<^verbatim>\<open>Authorization\<close> header is not the word \<^verbatim>\<open>Bearer\<close>, at least one space, and the key (followed by
  nothing, or by a space and anything) gets 401, or 404 for an unknown route, and changes nothing;
  with such a header the request reaches its handler. A key with a space in it admits nobody.
\<close>

theorem admin_requires_key:
  fixes s :: "'r AdminService"
  assumes "apiKey s \<noteq> []" and "\<not> (rq_method c = ''GET'' \<and> rq_path c = ''/'')"
  defines "authorized \<equiv> list_all (\<lambda>x. \<not> is_space x) (apiKey s) \<and>
     (\<exists>sp rest. rq_Authorization c = ''Bearer'' @ sp @ apiKey s @ rest \<and> sp \<noteq> [] \<and> list_all is_space sp \<and>
        (rest = [] \<or> is_space (hd rest)))"
  shows "if authorized then
           serve R Q F s c = (case SetupRouter R Q (rq_method c, rq_path c) of
             None \<Rightarrow> ((404, Error ''404 page not found''), s) | Some h \<Rightarrow> h s c)
         else snd (serve R Q F s c) = s \<and> fst (fst (serve R Q F s c)) \<in> {401, 404}"
proof -
  have auth: "authMiddleware s c = None \<longleftrightarrow> authorized"
    unfolding authMiddleware_iff [OF assms(1)] scan_bearer_iff authorized_def using assms(1) by simp
  show ?thesis
  proof (cases authorized)
    case True
    with auth have "authMiddleware s c = None" by simp
    with True assms(2) show ?thesis by (auto simp: serve_def split: option.split)
  next
    case False
    with auth obtain resp where "authMiddleware s c = Some resp" by auto
    with False assms(2) authMiddleware_status [OF this] show ?thesis by (auto simp: serve_def split: option.split)
  qed
qed

definition ex_request :: request where
  "ex_request = \<lparr>rq_method = ''POST'', rq_path = ''/api/v1/rules'', rq_Authorization = ''Bearer  s3cret x'',
     rq_XForwardedFor = [], rq_ClientIP = ''10.0.0.1'', rq_user_id = [], rq_limit = [],
     rq_rule = Inr \<lparr>rule_UserID = ''alice'', rule_Domain = ''*.Bad.org'', rule_Action = ''block''\<rparr>, rq_redirect = Inl ''EOF''\<rparr>"

definition ex_admin :: "string \<Rightarrow> mem_redis AdminService" where
  "ex_admin key = admin_New ex_redis False key"

theorem admin_requires_key_witness:
  "serve mem_redis_ops \<lparr>query_summary = (\<lambda>_. Inl []), query_logs = (\<lambda>_ _. Inl [])\<rparr> None (ex_admin ''s3cret'') ex_request =
     addRule mem_redis_ops (ex_admin ''s3cret'') ex_request \<and>
   snd (serve mem_redis_ops \<lparr>query_summary = (\<lambda>_. Inl []), query_logs = (\<lambda>_ _. Inl [])\<rparr> None (ex_admin ''other'') ex_request) = ex_admin ''other''"
proof -
  let ?Q = "\<lparr>query_summary = (\<lambda>_. Inl []), query_logs = (\<lambda>_ _. Inl [])\<rparr>"
  have d: "\<not> (rq_method ex_request = ''GET'' \<and> rq_path ex_request = ''/'')" by (simp add: ex_request_def)
  have k: "apiKey (ex_admin ''s3cret'') \<noteq> []" "apiKey (ex_admin ''other'') \<noteq> []" by (simp_all add: ex_admin_def admin_New_def)
  have "rq_Authorization ex_request = ''Bearer'' @ ''  '' @ ''s3cret'' @ '' x''" by (simp add: ex_request_def)
  moreover have "list_all is_space ''  ''" "list_all (\<lambda>x. \<not> is_space x) ''s3cret''" "is_space CHR '' ''"
    by (simp_all add: is_space_def)
  ultimately have y: "list_all (\<lambda>x. \<not> is_space x) (apiKey (ex_admin ''s3cret'')) \<and>
     (\<exists>sp rest. rq_Authorization ex_request = ''Bearer'' @ sp @ apiKey (ex_admin ''s3cret'') @ rest \<and> sp \<noteq> [] \<and> list_all is_space sp \<and>
        (rest = [] \<or> is_space (hd rest)))"
    by (intro conjI exI [of _ "''  ''"] exI [of _ "'' x''"]) (simp_all add: ex_admin_def admin_New_def)
  have n: "scan_bearer (rq_Authorization ex_request) \<noteq> Some (apiKey (ex_admin ''other''))" by code_simp
  have "snd (serve mem_redis_ops ?Q None (ex_admin ''other'') ex_request) = ex_admin ''other''"
    using admin_requires_key [OF k(2) d, of mem_redis_ops ?Q None] n k(2) unfolding scan_bearer_iff by auto
  moreover have "serve mem_redis_ops ?Q None (ex_admin ''s3cret'') ex_request = addRule mem_redis_ops (ex_admin ''s3cret'') ex_request"
    using admin_requires_key [OF k(1) d, of mem_redis_ops ?Q None] y by (simp add: SetupRouter_def ex_request_def)
  ultimately show ?thesis by simp
qed

text \<open>
  C36. Rules are stored as they are typed, but checked in lower case without a final dot: a rule
  with a capital letter or a final dot is confirmed with 200 and stored, and changes the decision
  for no domain at all.
\<close>

theorem unnormalised_rule_has_no_effect:
  assumes "redis_server R sets_of hashes_of pub_log" and "rq_rule c = Inr req"
    and "addRule R s c = ((200, b), s')"
    and "ToLower (rule_Domain req) \<noteq> rule_Domain req \<or> suffix ''.'' (rule_Domain req)" and "\<not> suffix ''..'' d"
  shows "rule_Domain req \<in> sets_of (rdb s') (blocked_key (rule_UserID req)) \<and>
         (blocked_spec fb (sets_of (rdb s') (blocked_key u)) (norm_domain d) \<longleftrightarrow>
          blocked_spec fb (sets_of (rdb s) (blocked_key u)) (norm_domain d))"
  using redis_server.addRule_ok [OF assms(1-3)] unnormalised_no_match [OF assms(4,5)]
  by (auto simp: blocked_spec_def)

theorem unnormalised_rule_has_no_effect_witness:
  "\<not> blocked_spec [] (mr_sets_of (rdb (snd (addRule mem_redis_ops (ex_admin []) ex_request))) (blocked_key ''alice''))
       (norm_domain ''www.bad.org'') \<and>
   ''*.Bad.org'' \<in> mr_sets_of (rdb (snd (addRule mem_redis_ops (ex_admin []) ex_request))) (blocked_key ''alice'')"
proof -
  let ?a = "addRule mem_redis_ops (ex_admin []) ex_request"
  let ?req = "\<lparr>rule_UserID = ''alice'', rule_Domain = ''*.Bad.org'', rule_Action = ''block''\<rparr>"
  have r: "rq_rule ex_request = Inr ?req" by (simp add: ex_request_def)
  have "fst (fst ?a) = 200" by code_simp
  then have a: "?a = ((200, snd (fst ?a)), snd ?a)" by (simp add: prod_eq_iff)
  have h: "ToLower (rule_Domain ?req) \<noteq> rule_Domain ?req \<or> suffix ''.'' (rule_Domain ?req)" "\<not> suffix ''..'' ''www.bad.org''"
    "\<not> blocked_spec [] (mr_sets_of (rdb (ex_admin [])) (blocked_key ''alice'')) (norm_domain ''www.bad.org'')"
    by code_simp+
  from unnormalised_rule_has_no_effect [OF mr.redis_server_axioms r a h(1,2), of "[]" "''alice''"] h(3) show ?thesis by simp
qed

end
