(* ===== verification/Startup.thy ===== *)
theory Startup imports Server Admin begin

text \<open>
  Starting the programs: the configuration each one reads from its environment, what
  \<^verbatim>\<open>cmd/edgedns/main.go\<close>, \<^verbatim>\<open>cmd/adminapi/main.go\<close> and \<^verbatim>\<open>cmd/publisher/main.go\<close> set up,
  \<^verbatim>\<open>internal/cert/cert.go\<close> and the \<^verbatim>\<open>init\<close> of \<^verbatim>\<open>internal/upstream/upstream.go\<close>, the health
  endpoints, and the runs of an edge process: from its start, any sequence of queries, events,
  steps of the log worker and changes of the outside world.

  The environment is a function from names to values, \<open>None\<close> for a variable that is not set.
\<close>

section \<open>The environment\<close>

type_synonym environ = "string \<Rightarrow> string option"

definition env :: "environ \<Rightarrow> string \<Rightarrow> string \<Rightarrow> string" where
  "env E key dfl = (case E key of Some v \<Rightarrow> v | None \<Rightarrow> dfl)"

definition Getenv :: "environ \<Rightarrow> string \<Rightarrow> string" where
  "Getenv E key = (case E key of Some v \<Rightarrow> v | None \<Rightarrow> [])"

datatype level = LevelDebug | LevelInfo | LevelWarn | LevelError

fun severity :: "level \<Rightarrow> int" where
  "severity LevelDebug = - 4" | "severity LevelInfo = 0" | "severity LevelWarn = 4" | "severity LevelError = 8"

text \<open>Levels are ordered by their numbers; a handler prints the records of its level and above.\<close>

instantiation level :: linorder
begin

definition less_eq_level :: "level \<Rightarrow> level \<Rightarrow> bool" where "less_eq_level a b \<longleftrightarrow> severity a \<le> severity b"

definition less_level :: "level \<Rightarrow> level \<Rightarrow> bool" where "less_level a b \<longleftrightarrow> severity a < severity b"

instance
proof
  fix a b :: level
  show "a \<le> b \<Longrightarrow> b \<le> a \<Longrightarrow> a = b" by (cases a; cases b) (simp_all add: less_eq_level_def)
qed (auto simp: less_eq_level_def less_level_def)

end

definition log_level :: "environ \<Rightarrow> level" where
  "log_level E =
     (let v = env E ''LOG_LEVEL'' ''info''
      in if v = ''debug'' then LevelDebug else if v = ''warn'' then LevelWarn
         else if v = ''error'' then LevelError else LevelInfo)"

lemma log_level_errors: "log_level E \<le> LevelError"
  by (cases "log_level E") (simp_all add: less_eq_level_def)

lemma log_level_default: "E ''LOG_LEVEL'' = None \<Longrightarrow> log_level E = LevelInfo"
  by (simp add: log_level_def env_def)

record edge_config =
  cf_stdAddr :: string
  cf_dohAddr :: string
  cf_dotAddr :: string
  cf_metricsAddr :: string
  cf_redisAddr :: string
  cf_chAddr :: string
  cf_chDB :: string
  cf_chUser :: string
  cf_chPass :: string

definition edge_config_of :: "environ \<Rightarrow> edge_config" where
  "edge_config_of E =
     \<lparr>cf_stdAddr = env E ''STD_ADDR'' '':8053'', cf_dohAddr = env E ''DOH_ADDR'' '':8443'',
      cf_dotAddr = env E ''DOT_ADDR'' '':8853'', cf_metricsAddr = env E ''METRICS_PORT'' '':2112'',
      cf_redisAddr = env E ''REDIS_ADDR'' ''localhost:6379'', cf_chAddr = env E ''CLICKHOUSE_ADDR'' ''localhost:9000'',
      cf_chDB = env E ''CLICKHOUSE_DB'' ''default'', cf_chUser = env E ''CLICKHOUSE_USER'' ''default'',
      cf_chPass = env E ''CLICKHOUSE_PASS'' []\<rparr>"

text \<open>\<^verbatim>\<open>strconv.ParseUint(s, 10, bits)\<close>: digits only, at least one, in range.\<close>

definition ParseUint :: "string \<Rightarrow> nat \<Rightarrow> nat option" where
  "ParseUint s bits =
     (if s = [] then None
      else case read_digits 0 s of None \<Rightarrow> None | Some n \<Rightarrow> if n < 2 ^ bits then Some n else None)"

text \<open>
  The \<^verbatim>\<open>init\<close> of the upstream package. \<^verbatim>\<open>time.ParseDuration\<close> computes fractions in floating point
  and is an argument.
\<close>

definition upstream_init ::
  "(string \<Rightarrow> time option) \<Rightarrow> environ \<Rightarrow> ('u, 'k) upstream_pkg \<Rightarrow> ('u, 'k) upstream_pkg" where
  "upstream_init ParseDuration E p =
     (let addr = Getenv E ''UPSTREAM_DNS'';
          p = (if addr \<noteq> [] then p\<lparr>UpstreamAddr := addr\<rparr> else p);
          t = Getenv E ''UPSTREAM_TIMEOUT'';
          p = (if t \<noteq> [] then (case ParseDuration t of Some d \<Rightarrow> p\<lparr>clientTimeout := d\<rparr> | None \<Rightarrow> p) else p);
          s = Getenv E ''UPSTREAM_UDP_SIZE'';
          p = (if s \<noteq> [] then
                 (case ParseUint s 16 of
                    Some n \<Rightarrow> if n > 0 then p\<lparr>clientUDPSize := word_of_nat n\<rparr> else p
                  | None \<Rightarrow> p)
               else p)
      in p)"

section \<open>Certificates\<close>

text \<open>Keys, serial numbers and signing belong to the crypto library; the template is the source's.\<close>

record cert_template =
  ct_CommonName :: string
  ct_Organization :: "string list"
  ct_DNSNames :: "string list"
  ct_IPAddresses :: "byte list list"
  ct_NotBefore :: time
  ct_NotAfter :: time
  ct_KeyUsage :: "string list"
  ct_ExtKeyUsage :: "string list"
  ct_BasicConstraintsValid :: bool

record ('p, 't) crypto =
  cr_GenerateKey :: "string + 'p"
  cr_Serial :: "string + nat"
  cr_Create :: "nat \<Rightarrow> cert_template \<Rightarrow> 'p \<Rightarrow> string + 't"
  cr_LoadX509KeyPair :: "string \<Rightarrow> string \<Rightarrow> string + 't"

datatype cert_error = GenerateKeyFailed string | SerialFailed string | CreateFailed string | LoadFailed string string string

definition self_signed_template :: "time \<Rightarrow> cert_template" where
  "self_signed_template now =
     \<lparr>ct_CommonName = ''Edge DNS'', ct_Organization = [''Edge DNS Dev''],
      ct_DNSNames = [''*.mydns.com'', ''mydns.com'', ''localhost''],
      ct_IPAddresses = [ip_bytes ''127.0.0.1'', ip_bytes ''::1''],
      ct_NotBefore = now - 3600 * second, ct_NotAfter = now + 365 * 24 * 3600 * second, 
      ct_KeyUsage = [''DigitalSignature'', ''KeyEncipherment''], ct_ExtKeyUsage = [''ServerAuth''], ct_BasicConstraintsValid = True\<rparr>"

definition GenerateSelfSigned :: "('p, 't) crypto \<Rightarrow> time \<Rightarrow> cert_error + 't" where
  "GenerateSelfSigned K now =
     (case cr_GenerateKey K of
        Inl e \<Rightarrow> Inl (GenerateKeyFailed e)
      | Inr priv \<Rightarrow>
          (case cr_Serial K of
             Inl e \<Rightarrow> Inl (SerialFailed e)
           | Inr serial \<Rightarrow>
               (case cr_Create K serial (self_signed_template now) priv of
                  Inl e \<Rightarrow> Inl (CreateFailed e)
                | Inr c \<Rightarrow> Inr c)))"

definition LoadFromEnv :: "('p, 't) crypto \<Rightarrow> environ \<Rightarrow> time \<Rightarrow> cert_error + 't" where
  "LoadFromEnv K E now =
     (let certFile = Getenv E ''TLS_CERT_FILE''; keyFile = Getenv E ''TLS_KEY_FILE''
      in if certFile \<noteq> [] \<and> keyFile \<noteq> [] then
           (case cr_LoadX509KeyPair K certFile keyFile of
              Inl e \<Rightarrow> Inl (LoadFailed certFile keyFile e)
            | Inr c \<Rightarrow> Inr c)
         else GenerateSelfSigned K now)"

section \<open>The edge process\<close>

text \<open>The package variables before \<^verbatim>\<open>main\<close> runs.\<close>

definition edge_boot :: "(string \<Rightarrow> time option) \<Rightarrow> environ \<Rightarrow> 'r \<Rightarrow> 'u \<Rightarrow> ('c, 'r, 'z, 'h, 'u, 'k) app" where
  "edge_boot ParseDuration E r net =
     \<lparr>app_rules = \<lparr>global = None, totalChecks = 0\<rparr>, app_redis = r, defaultRateLimiter = None,
      defaultRateLimitQueries = 100, defaultRateLimitWindow = second, defaultAggregator = None,
      app_upstream = upstream_init ParseDuration E (upstream_default net),
      DNSQueriesTotal = (\<lambda>_. 0), DNSQueryDurationSeconds = []\<rparr>"

definition configure_rate_limit :: "environ \<Rightarrow> ('c, 'r, 'z, 'h, 'u, 'k) app \<Rightarrow> ('c, 'r, 'z, 'h, 'u, 'k) app" where
  "configure_rate_limit E a =
     (let rlq = env E ''RATE_LIMIT_QUERIES'' ''100''
      in if rlq \<noteq> [] then
           (case Atoi rlq of Some n \<Rightarrow> if n > 0 then SetRateLimit n second a else a | None \<Rightarrow> a)
         else a)"

text \<open>\<^verbatim>\<open>main\<close> up to the start of the servers; a panic of \<^verbatim>\<open>StartWorker\<close> ends the program.\<close>

definition edge_start ::
  "('c, 'r, 'z, 'u) libs \<Rightarrow> ('h, 'b) ch_client \<Rightarrow> environ \<Rightarrow> 'z \<Rightarrow> ('c, 'r, 'z, 'h, 'u, 'k) app \<Rightarrow>
   go_panic + ('c, 'r, 'z, 'h, 'u, 'k) app" where
  "edge_start L H E z a =
     (let cf = edge_config_of E;
          a = configure_rate_limit E a;
          (rules, r) = InitChecker (lib_cache L) (lib_redis L) (app_rules a) (app_redis a);
          a = a\<lparr>app_rules := rules, app_redis := r\<rparr>;
          agg = NewLogAggregator 10000 1000 (5 * second);
          (err, agg) = InitClickHouse H agg (cf_chAddr cf) (cf_chDB cf) (cf_chUser cf) (cf_chPass cf)
      in case StartWorker agg of
           Inl panic \<Rightarrow> Inl panic
         | Inr agg \<Rightarrow>
             (let a = SetAggregator (Some agg) a;
                  rl = NewRateLimiter 0 z
              in Inr (SetRateLimiter (Some rl) a)))"

text \<open>The health endpoints: status and the fields of the JSON object, in the order they are printed.\<close>

definition show_rule_error :: "rule_error \<Rightarrow> string" where
  "show_rule_error e =
     (case e of CheckerNotInitialized \<Rightarrow> ''checker not initialized'' | RedisNotAvailable \<Rightarrow> ''redis not available''
      | RedisFailure (RedisErr m) \<Rightarrow> m | _ \<Rightarrow> ''redis: nil'')"

definition healthz :: "'r redis_client \<Rightarrow> ('c, 'r, 'z, 'h, 'u, 'k) app \<Rightarrow>
    (nat \<times> (string \<times> string) list) \<times> ('c, 'r, 'z, 'h, 'u, 'k) app" where
  "healthz R a =
     (case PingRedis R (app_rules a) (app_redis a) of
        (Some err, r) \<Rightarrow> ((503, [(''error'', show_rule_error err), (''status'', ''unhealthy'')]), a\<lparr>app_redis := r\<rparr>)
      | (None, r) \<Rightarrow> ((200, [(''status'', ''ok'')]), a\<lparr>app_redis := r\<rparr>))"

definition readyz :: "'r redis_client \<Rightarrow> ('c, 'r, 'z, 'h, 'u, 'k) app \<Rightarrow>
    (nat \<times> (string \<times> string) list) \<times> ('c, 'r, 'z, 'h, 'u, 'k) app" where
  "readyz R a =
     (case PingRedis R (app_rules a) (app_redis a) of
        (Some err, r) \<Rightarrow> ((503, [(''error'', show_rule_error err), (''status'', ''not_ready'')]), a\<lparr>app_redis := r\<rparr>)
      | (None, r) \<Rightarrow> ((200, [(''status'', ''ready'')]), a\<lparr>app_redis := r\<rparr>))"

section \<open>The admin process and the publisher\<close>

text \<open>Exit code 1 when Redis does not answer; without ClickHouse the analytics endpoints are disabled.\<close>

definition adminapi_start ::
  "'r redis_client \<Rightarrow> ('h, 'b) ch_client \<Rightarrow> environ \<Rightarrow> 'r \<Rightarrow> nat + 'r AdminService" where
  "adminapi_start R H E r =
     (case rdb_Ping R r of
        (Some err, r1) \<Rightarrow> Inl 1
      | (None, r1) \<Rightarrow>
          (let ch = (case ch_Open H \<lparr>ch_Addr = [env E ''CLICKHOUSE_ADDR'' ''localhost:9000''],
                       ch_Database = env E ''CLICKHOUSE_DB'' ''default'', ch_Username = env E ''CLICKHOUSE_USER'' ''default'',
                       ch_Password = env E ''CLICKHOUSE_PASS'' [], ch_max_execution_time = 60, ch_MaxOpenConns = 5,
                       ch_MaxIdleConns = 2, ch_ConnMaxLifetime = 3600 * second\<rparr> of
                   Inl err \<Rightarrow> False
                 | Inr conn \<Rightarrow> (case ch_Ping H conn of (Some err, _) \<Rightarrow> False | (None, _) \<Rightarrow> True))
           in Inr (admin_New r1 ch (env E ''ADMIN_API_KEY'' []))))"

text \<open>The publisher, with the values of its flags: exit code and Redis.\<close>

definition publisher :: "'r redis_client \<Rightarrow> string \<Rightarrow> string \<Rightarrow> 'r \<Rightarrow> nat \<times> 'r" where
  "publisher R userID action r =
     (if userID = [] then (1, r)
      else let event = \<lparr>ev_UserID = userID, ev_Action = action\<rparr> in
        case Validate event of
          Some err \<Rightarrow> (1, r)
        | None \<Rightarrow>
            (let data = Encode event in
             case rdb_Ping R r of
               (Some err, r1) \<Rightarrow> (1, r1)
             | (None, r1) \<Rightarrow>
                 (case rdb_Publish R r1 ConfigChannel data of
                    (Inl err, r2) \<Rightarrow> (1, r2)
                  | (Inr count, r2) \<Rightarrow> (0, r2))))"

section \<open>Runs of an edge process\<close>

text \<open>
  From its start, a process handles queries, events of its subscription, health requests and turns
  of the log worker, in any order, while others change Redis, the counters of the rate limiter and
  what the upstream server answers. \<open>ok\<close> tells whether Redis answered at the start.
\<close>

inductive edge_reach ::
  "('c, 'r, 'z, 'u) libs \<Rightarrow> ('h, 'b) ch_client \<Rightarrow> 'w resp_writer \<Rightarrow> (string \<Rightarrow> time option) \<Rightarrow> environ \<Rightarrow>
   bool \<Rightarrow> ('c, 'r, 'z, 'h, 'u, 'k) app \<Rightarrow> bool"
  for L :: "('c, 'r, 'z, 'u) libs" and H :: "('h, 'b) ch_client" and W :: "'w resp_writer"
    and P :: "string \<Rightarrow> time option" and E :: environ
where
  start: "edge_start L H E z (edge_boot P E r net) = Inr a \<Longrightarrow> ok = (fst (rdb_Ping (lib_redis L) r) = None) \<Longrightarrow>
    edge_reach L H W P E ok a"
| query: "edge_reach L H W P E ok a \<Longrightarrow> HandleDNSQuery L W k a u w msg = (Inr (), a', w') \<Longrightarrow> edge_reach L H W P E ok a'"
| event: "edge_reach L H W P E ok a \<Longrightarrow>
    edge_reach L H W P E ok (a\<lparr>app_rules := handleMessage (rule_ClearUserCache (lib_cache L) t) (app_rules a) payload\<rparr>)"
| health: "edge_reach L H W P E ok a \<Longrightarrow> edge_reach L H W P E ok (snd (healthz (lib_redis L) a))"
| ready: "edge_reach L H W P E ok a \<Longrightarrow> edge_reach L H W P E ok (snd (readyz (lib_redis L) a))"
| worker: "edge_reach L H W P E ok a \<Longrightarrow> defaultAggregator a = Some g \<Longrightarrow> worker_step H g ev = Some g' \<Longrightarrow>
    edge_reach L H W P E ok (a\<lparr>defaultAggregator := Some g'\<rparr>)"
| redis: "edge_reach L H W P E ok a \<Longrightarrow> edge_reach L H W P E ok (a\<lparr>app_redis := r\<rparr>)"
| counters: "edge_reach L H W P E ok a \<Longrightarrow> defaultRateLimiter a = Some rl \<Longrightarrow>
    edge_reach L H W P E ok (a\<lparr>defaultRateLimiter := Some (rl\<lparr>client := z\<rparr>)\<rparr>)"
| upstream: "edge_reach L H W P E ok a \<Longrightarrow>
    edge_reach L H W P E ok (a\<lparr>app_upstream := (app_upstream a)\<lparr>client_net := net\<rparr>\<rparr>)"

subsection \<open>What a query leaves as it is\<close>

definition checker_like :: "'c rule_pkg \<Rightarrow> 'c rule_pkg \<Rightarrow> bool" where
  "checker_like p p' \<longleftrightarrow>
     rel_option (\<lambda>c c'. fallback c' = fallback c \<and> enabled c' = enabled c) (global p) (global p')"

lemma checker_like_refl [simp, intro]: "checker_like p p"
  by (simp add: checker_like_def option.rel_refl)

lemma checker_like_trans [trans]: "checker_like p p' \<Longrightarrow> checker_like p' p'' \<Longrightarrow> checker_like p p''"
  unfolding checker_like_def by (auto simp: option_rel_Some1 elim!: option.rel_cases)

lemma Check_config: "Check C R t0 t1 c r u d = (res, c', r') \<Longrightarrow> fallback c' = fallback c \<and> enabled c' = enabled c"
  by (auto simp: Check_def Let_def split: option.splits cache_val.splits prod.splits if_splits)

lemma GetRedirect_config: "GetRedirect C R t0 t1 c r u d = (res, c', r') \<Longrightarrow> fallback c' = fallback c \<and> enabled c' = enabled c"
  by (auto simp: GetRedirect_def Let_def split: option.splits sum.splits cache_val.splits prod.splits if_splits)

lemma CheckRule_like: "CheckRule C R t0 t1 p r u d = (res, p', r') \<Longrightarrow> checker_like p p'"
  by (auto simp: CheckRule_def Let_def checker_like_def split: option.splits prod.splits dest!: Check_config)

lemma GetRedirectDomain_like: "GetRedirectDomain C R t0 t1 p r u d = (res, p', r') \<Longrightarrow> checker_like p p'"
  by (auto simp: GetRedirectDomain_def Let_def checker_like_def option.rel_refl split: option.splits prod.splits dest!: GetRedirect_config)

lemma evict_like: "checker_like p (rule_ClearUserCache C t p u)"
  by (auto simp: rule_ClearUserCache_def ClearUserCache_def Let_def checker_like_def split: option.split)

lemma handleMessage_like: "checker_like p (handleMessage (rule_ClearUserCache C t) p m)"
  using evict_like by (auto simp: handleMessage_def split: sum.split)

lemma subscribe_like: "checker_like p (subscribe (rule_ClearUserCache C t) s p)"
proof -
  have "checker_like q (foldl (handleMessage (rule_ClearUserCache C t)) q ms)" for q ms
    by (induction ms arbitrary: q) (auto intro: checker_like_trans [OF handleMessage_like])
  then show ?thesis by (cases s) (auto simp: subscribe_def)
qed

lemma forward_upstream: "forwardResponse D W up w msg = (up', w') \<Longrightarrow> \<exists>net. up' = up\<lparr>client_net := net\<rparr>"
  by (auto simp: forwardResponse_def Resolve_def Let_def split: sum.splits option.splits prod.splits)

lemma redirect_upstream: "writeRedirectResponse D W up w msg q ip = (up', w') \<Longrightarrow> \<exists>net. up' = up\<lparr>client_net := net\<rparr>"
  using forward_upstream [of D W up w msg up' w']
  by (auto simp: writeRedirectResponse_eq split: if_splits intro!: exI [of _ "client_net up"])

lemma submitLog_limits [simp]:
  "defaultRateLimiter (submitLog W k a w u d t s) = defaultRateLimiter a"
  "defaultRateLimitQueries (submitLog W k a w u d t s) = defaultRateLimitQueries a"
  "defaultRateLimitWindow (submitLog W k a w u d t s) = defaultRateLimitWindow a"
  by (simp_all add: submitLog_def split: option.split)

lemma finish_query_limits [simp]:
  "defaultRateLimiter (finish_query W k a w u d t s) = defaultRateLimiter a"
  "defaultRateLimitQueries (finish_query W k a w u d t s) = defaultRateLimitQueries a"
  "defaultRateLimitWindow (finish_query W k a w u d t s) = defaultRateLimitWindow a"
  by (simp_all add: finish_query_def Let_def)

text \<open>The configuration stays; the log aggregator gets at most one more record.\<close>

definition config_kept :: "('c, 'r, 'z, 'h, 'u, 'k) app \<Rightarrow> ('c, 'r, 'z, 'h, 'u, 'k) app \<Rightarrow> bool" where
  "config_kept a a' \<longleftrightarrow>
     checker_like (app_rules a) (app_rules a') \<and>
     defaultRateLimitQueries a' = defaultRateLimitQueries a \<and> defaultRateLimitWindow a' = defaultRateLimitWindow a \<and>
     (defaultRateLimiter a' = None \<longleftrightarrow> defaultRateLimiter a = None) \<and>
     (\<exists>net. app_upstream a' = (app_upstream a)\<lparr>client_net := net\<rparr>) \<and>
     (defaultAggregator a' = defaultAggregator a \<or>
      (\<exists>l. defaultAggregator a' = map_option (\<lambda>g. SubmitLog g l) (defaultAggregator a)))"

lemma net_refl: "\<exists>net. (p :: ('u, 'k) upstream_pkg) = p\<lparr>client_net := net\<rparr>"
  by (intro exI [of _ "client_net p"]) simp

lemma process_allowed_config:
  assumes "process_allowed L W k a w u msg = (res, a', w')"
  shows "config_kept a a' \<and> defaultRateLimiter a' = defaultRateLimiter a"
proof (cases "m_Question msg")
  case Nil
  with assms net_refl show ?thesis by (auto simp: process_allowed_def config_kept_def)
next
  case (Cons q qs)
  obtain x rules rd where ch: "check_of L k a u (q_Name q) = (x, rules, rd)" by (metis surj_pair)
  note like = CheckRule_like [OF ch]
  show ?thesis
  proof (cases "x = Inr 1 \<or> (\<exists>e. x = Inl e)")
    case True
    then show ?thesis
      using process_panic [OF Cons, of L k a u _ rules rd W w] process_blocked [OF Cons, of L k a u rules rd W w] ch assms like net_refl
      by (auto simp: config_kept_def Let_def)
  next
    case False
    then obtain v where v: "x = Inr v" "v \<noteq> 1" by (cases x) auto
    obtain ip ok rules' rd' where re: "redirect_of L k rules rd u (q_Name q) = ((ip, ok), rules', rd')" by (metis surj_pair)
    have like': "checker_like (app_rules a) rules'" using like GetRedirectDomain_like [OF re] by (rule checker_like_trans)
    show ?thesis
    proof (cases ok)
      case True
      obtain up w1 where wr: "writeRedirectResponse (lib_dns L) W (app_upstream a) w msg q ip = (up, w1)" by (metis surj_pair)
      show ?thesis using process_redirected [OF Cons ch [unfolded v(1)] v(2) _ wr] re True assms like' redirect_upstream [OF wr]
        by (auto simp: config_kept_def)
    next
      case False
      obtain up w1 where wr: "forwardResponse (lib_dns L) W (app_upstream a) w msg = (up, w1)" by (metis surj_pair)
      show ?thesis using process_forwarded [OF Cons ch [unfolded v(1)] v(2) _ wr] re False assms like' forward_upstream [OF wr]
        by (auto simp: config_kept_def)
    qed
  qed
qed

lemma HandleDNSQuery_config:
  assumes "HandleDNSQuery L W k a u w msg = (res, a', w')"
  shows "config_kept a a'"
proof (cases "defaultRateLimiter a")
  case None
  with assms process_allowed_config show ?thesis by (fastforce simp: HandleDNSQuery_def ProcessQuery_def)
next
  case (Some rl)
  obtain y rl' where al: "AllowQuery (lib_zset L) (k_call k) (k_limiter k) (k_server_ms k) rl u
      (defaultRateLimitQueries a) (defaultRateLimitWindow a) = (y, rl')" by (metis surj_pair)
  let ?a = "a\<lparr>defaultRateLimiter := Some rl'\<rparr>"
  show ?thesis
  proof (cases "y = Inr False")
    case True
    with Some al assms net_refl show ?thesis
      by (auto simp: HandleDNSQuery_def ProcessQuery_def config_kept_def)
  next
    case False
    with Some al assms have "process_allowed L W k ?a w u msg = (res, a', w')"
      by (auto simp: HandleDNSQuery_def ProcessQuery_def Let_def split: sum.splits if_splits)
    from process_allowed_config [OF this] Some show ?thesis by (auto simp: config_kept_def)
  qed
qed

subsection \<open>The invariant of a process\<close>

definition app_ok :: "('h, 'b) ch_client \<Rightarrow> bool \<Rightarrow> ('c, 'r, 'z, 'h, 'u, 'k) app \<Rightarrow> bool" where
  "app_ok H ok a \<longleftrightarrow>
     (\<exists>c. global (app_rules a) = Some c \<and> fallback c = defaultFallback \<and> enabled c = ok) \<and>
     0 < defaultRateLimitQueries a \<and> defaultRateLimitWindow a = second \<and> defaultRateLimiter a \<noteq> None \<and>
     UpstreamAddr (app_upstream a) \<noteq> [] \<and> clientUDPSize (app_upstream a) \<noteq> 0 \<and>
     (\<exists>g acc fl rej. defaultAggregator a = Some g \<and> logCh_cap g = 10000 \<and> agg_reach H g acc fl rej)"

lemma SubmitLog_reach:
  assumes "agg_reach H g acc fl rej"
  shows "\<exists>acc' fl' rej'. agg_reach H (SubmitLog g l) acc' fl' rej'"
  using agg_reach.accept [OF assms, of l] agg_reach.refuse [OF assms, of l] by blast

lemma worker_step_cap: "worker_step H g ev = Some g' \<Longrightarrow> logCh_cap g' = logCh_cap g"
  by (auto simp: worker_step_def flush_def flushBatch_def Let_def
      split: if_splits worker_event.splits list.splits option.splits sum.splits prod.splits)

lemma SubmitLog_cap [simp]: "logCh_cap (SubmitLog g l) = logCh_cap g"
  by (simp add: SubmitLog_def)

lemma app_ok_config:
  assumes "app_ok H ok a" and "config_kept a a'"
  shows "app_ok H ok a'"
proof -
  obtain c where c: "global (app_rules a) = Some c" "fallback c = defaultFallback" "enabled c = ok"
    using assms(1) by (auto simp: app_ok_def)
  obtain c' where "global (app_rules a') = Some c'" "fallback c' = defaultFallback" "enabled c' = ok"
    using assms(2) c by (auto simp: config_kept_def checker_like_def option_rel_Some1)
  moreover obtain g acc fl rej where g: "defaultAggregator a = Some g" "logCh_cap g = 10000" "agg_reach H g acc fl rej"
    using assms(1) by (auto simp: app_ok_def)
  have "\<exists>g acc fl rej. defaultAggregator a' = Some g \<and> logCh_cap g = 10000 \<and> agg_reach H g acc fl rej"
  proof (cases "defaultAggregator a' = defaultAggregator a")
    case True
    with g show ?thesis by auto
  next
    case False
    with assms(2) g(1) obtain l where "defaultAggregator a' = Some (SubmitLog g l)" by (auto simp: config_kept_def)
    with g(2) SubmitLog_reach [OF g(3), of l] show ?thesis by simp
  qed
  ultimately show ?thesis using assms by (auto simp: app_ok_def config_kept_def)
qed

lemma upstream_init_ok:
  "UpstreamAddr p \<noteq> [] \<Longrightarrow> clientUDPSize p \<noteq> 0 \<Longrightarrow>
   UpstreamAddr (upstream_init P E p) \<noteq> [] \<and> clientUDPSize (upstream_init P E p) \<noteq> 0"
proof -
  assume "UpstreamAddr p \<noteq> []" "clientUDPSize p \<noteq> 0"
  moreover have "word_of_nat n \<noteq> (0 :: 16 word)" if "ParseUint s 16 = Some n" "0 < n" for s n
  proof
    assume "word_of_nat n = (0 :: 16 word)"
    then have "unat (word_of_nat n :: 16 word) = 0" by simp
    moreover have "n < 2 ^ 16" using that(1) by (auto simp: ParseUint_def split: if_splits option.splits)
    ultimately show False using that(2) by (simp add: unat_of_nat take_bit_nat_eq_self)
  qed
  ultimately show ?thesis by (auto simp: upstream_init_def Let_def split: option.split)
qed

lemma InitClickHouse_frame:
  "InitClickHouse H g addr db user pw = (err, g') \<Longrightarrow>
   wg g' = wg g \<and> logCh_cap g' = logCh_cap g \<and> flushInterval g' = flushInterval g"
  by (auto simp: InitClickHouse_def split: sum.splits prod.splits option.splits)

lemma NewChecker_config:
  "NewChecker C R r = (c, r') \<Longrightarrow> fallback c = defaultFallback \<and> (enabled c \<longleftrightarrow> fst (rdb_Ping R r) = None)"
  by (auto simp: NewChecker_def Let_def defaultFallback_def split: prod.splits option.splits)

lemma configure_rate_limit_ok:
  fixes a :: "('c, 'r, 'z, 'h, 'u, 'k) app"
  assumes "0 < defaultRateLimitQueries a" and "defaultRateLimitWindow a = second"
  shows "0 < defaultRateLimitQueries (configure_rate_limit E a) \<and> defaultRateLimitWindow (configure_rate_limit E a) = second \<and>
    app_rules (configure_rate_limit E a) = app_rules a \<and> app_redis (configure_rate_limit E a) = app_redis a \<and>
    app_upstream (configure_rate_limit E a) = app_upstream a"
  using assms by (simp add: configure_rate_limit_def SetRateLimit_def Let_def split: option.split)

lemma edge_start_ok:
  fixes a :: "('c, 'r, 'z, 'h, 'u, 'k) app"
  assumes "edge_start L H E z (edge_boot P E r net) = Inr a"
  shows "app_ok H (fst (rdb_Ping (lib_redis L) r) = None) a"
proof -
  let ?b = "edge_boot P E r net :: ('c, 'r, 'z, 'h, 'u, 'k) app"
  let ?g = "NewLogAggregator 10000 1000 (5 * second) :: 'h LogAggregator"
  obtain c r' where nc: "NewChecker (lib_cache L) (lib_redis L) r = (c, r')" by (metis surj_pair)
  obtain err g1 where ch: "InitClickHouse H ?g (cf_chAddr (edge_config_of E)) (cf_chDB (edge_config_of E))
      (cf_chUser (edge_config_of E)) (cf_chPass (edge_config_of E)) = (err, g1)" by (metis surj_pair)
  note g1 = InitClickHouse_frame [OF ch]
  have st: "StartWorker g1 = Inr (g1\<lparr>wg := wg g1 + 1\<rparr>)" using g1 by (simp add: StartWorker_def NewLogAggregator_def)
  have "agg_reach H g1 [] [] 0" by (rule agg_reach.init [OF agg_reach.new ch]) simp
  then have reach: "agg_reach H (g1\<lparr>wg := wg g1 + 1\<rparr>) [] [] 0"
    by (rule agg_reach.start) (use g1 st in \<open>simp_all add: NewLogAggregator_def\<close>)
  have b: "0 < defaultRateLimitQueries ?b" "defaultRateLimitWindow ?b = second" by (simp_all add: edge_boot_def)
  have up: "UpstreamAddr (app_upstream ?b) \<noteq> [] \<and> clientUDPSize (app_upstream ?b) \<noteq> 0"
    unfolding edge_boot_def by (simp, rule upstream_init_ok [THEN conj_forward]) (simp_all add: upstream_default_def)
  note rl = configure_rate_limit_ok [OF b, of E]
  have "app_rules ?b = \<lparr>global = None, totalChecks = 0\<rparr>" "app_redis ?b = r" by (simp_all add: edge_boot_def)
  then have "a = SetRateLimiter (Some (NewRateLimiter 0 z)) (SetAggregator (Some (g1\<lparr>wg := wg g1 + 1\<rparr>))
      ((configure_rate_limit E ?b)\<lparr>app_rules := \<lparr>global = Some c, totalChecks = 0\<rparr>, app_redis := r'\<rparr>))"
    using assms rl nc ch st by (simp add: edge_start_def InitChecker_def Let_def)
  then show ?thesis
    using rl up reach g1 NewChecker_config [OF nc]
    by (auto simp: app_ok_def SetRateLimiter_def SetAggregator_def NewLogAggregator_def)
qed

lemma healthz_frame: "\<exists>r. snd (healthz R a) = a\<lparr>app_redis := r\<rparr>"
  by (auto simp: healthz_def split: prod.split option.split)

lemma readyz_frame: "\<exists>r. snd (readyz R a) = a\<lparr>app_redis := r\<rparr>"
  by (auto simp: readyz_def split: prod.split option.split)

lemma config_kept_rules: "checker_like (app_rules a) p \<Longrightarrow> config_kept a (a\<lparr>app_rules := p\<rparr>)"
  using net_refl by (auto simp: config_kept_def)

lemma edge_reach_ok: "edge_reach L H W P E ok a \<Longrightarrow> app_ok H ok a"
proof (induction rule: edge_reach.induct)
  case (start z r net a ok)
  then show ?case using edge_start_ok [OF start(1)] by simp
next
  case (query ok a k u w msg a' w')
  show ?case by (rule app_ok_config [OF query.IH HandleDNSQuery_config [OF query.hyps(2)]])
next
  case (event ok a t payload)
  then show ?case by (intro app_ok_config [OF _ config_kept_rules] handleMessage_like)
next
  case (health ok a)
  obtain r where "snd (healthz (lib_redis L) a) = a\<lparr>app_redis := r\<rparr>" using healthz_frame [of "lib_redis L" a] by (elim exE)
  with health show ?case by (simp add: app_ok_def)
next
  case (ready ok a)
  obtain r where "snd (readyz (lib_redis L) a) = a\<lparr>app_redis := r\<rparr>" using readyz_frame [of "lib_redis L" a] by (elim exE)
  with ready show ?case by (simp add: app_ok_def)
next
  case (worker ok a g ev g')
  then show ?case using worker_step_cap [OF worker.hyps(3)] by (auto simp: app_ok_def dest: agg_reach.worker)
qed (auto simp: app_ok_def)

section \<open>Properties\<close>

lemma edge_start_returns: "\<exists>a. edge_start L H E z b = Inr a"
proof -
  obtain err g where g: "InitClickHouse H (NewLogAggregator 10000 1000 (5 * second)) (cf_chAddr (edge_config_of E))
      (cf_chDB (edge_config_of E)) (cf_chUser (edge_config_of E)) (cf_chPass (edge_config_of E)) = (err, g)" by (metis surj_pair)
  have "StartWorker g = Inr (g\<lparr>wg := wg g + 1\<rparr>)"
    using InitClickHouse_frame [OF g] by (simp add: StartWorker_def NewLogAggregator_def)
  with g show ?thesis by (simp add: edge_start_def Let_def split: prod.split)
qed

text \<open>A process with the default configuration, started on the given Redis.\<close>

definition ex_environ :: environ where
  "ex_environ = [''RATE_LIMIT_QUERIES'' \<mapsto> ''-3'', ''UPSTREAM_UDP_SIZE'' \<mapsto> ''65536'']"

definition ex_started ::
    "mem_redis \<Rightarrow> (cache_val mem_cache, mem_redis, mem_zset, mem_ch, mem_upstream, dns_msg mem_cache) app" where
  "ex_started r = projr (edge_start ex_libs (mem_ch_ops True) ex_environ (\<lambda>_. ([], None)) (edge_boot (\<lambda>_. None) ex_environ r ex_net))"

lemma Inr_projr: "\<exists>a. x = Inr a \<Longrightarrow> x = Inr (projr x)"
  by auto

lemma ex_started_reach:
  "edge_reach ex_libs (mem_ch_ops True) list_writer_ops (\<lambda>_. None) ex_environ (fst (rdb_Ping mem_redis_ops r) = None) (ex_started r)"
proof (rule edge_reach.start)
  show "edge_start ex_libs (mem_ch_ops True) ex_environ (\<lambda>_. ([], None)) (edge_boot (\<lambda>_. None) ex_environ r ex_net) = Inr (ex_started r)"
    unfolding ex_started_def by (rule Inr_projr [OF edge_start_returns])
qed (simp add: ex_libs_def)

text \<open>
  C10. Whatever its environment says and whatever happens to it, a running edge process is well
  formed: it has a rule checker with the built-in list, which uses Redis exactly if Redis answered
  at the start; a rate limiter with a positive limit per second; an upstream address and a positive
  buffer size; and a log aggregator with room for 10000 records that is in a reachable state of the
  aggregator's own runs.
\<close>

theorem edge_process_well_formed:
  assumes "edge_reach L H W P E ok a"
  shows "app_ok H ok a"
  by (rule edge_reach_ok [OF assms])

theorem edge_process_well_formed_witness: "app_ok (mem_ch_ops True) True (ex_started ex_redis)"
proof -
  have "fst (rdb_Ping mem_redis_ops ex_redis) = None" by code_simp
  with ex_started_reach [of ex_redis] show ?thesis by (intro edge_process_well_formed [where L = ex_libs]) simp
qed

text \<open>
  C37. The rule checker of a process that was started while Redis did not answer never uses Redis
  again: in every state the process can reach, both health endpoints report 503 whatever Redis would
  answer now, and neither the decision on a domain nor its redirect depends on what is in Redis. (The
  rate limiter and the sync worker share another client, which they go on using.)
\<close>

theorem redis_down_at_start_is_forever:
  assumes "edge_reach L H W P E False a"
  shows "fst (fst (healthz (lib_redis L) (a\<lparr>app_redis := r\<rparr>))) = 503 \<and> fst (fst (readyz (lib_redis L) (a\<lparr>app_redis := r\<rparr>))) = 503 \<and>
         fst (CheckRule (lib_cache L) (lib_redis L) t0 t1 (app_rules a) r u d) =
         fst (CheckRule (lib_cache L) (lib_redis L) t0 t1 (app_rules a) r' u d) \<and>
         fst (GetRedirectDomain (lib_cache L) (lib_redis L) t0 t1 (app_rules a) r u d) =
         fst (GetRedirectDomain (lib_cache L) (lib_redis L) t0 t1 (app_rules a) r' u d)"
proof -
  obtain c where c: "global (app_rules a) = Some c" "\<not> enabled c"
    using edge_reach_ok [OF assms] by (auto simp: app_ok_def)
  then show ?thesis
    by (auto simp: healthz_def readyz_def PingRedis_def CheckRule_def Check_def GetRedirectDomain_def GetRedirect_def Let_def
        split: option.split cache_val.split prod.split)
qed

theorem redis_down_at_start_is_forever_witness:
  "fst (rdb_Ping mem_redis_ops ex_redis) = None \<and>
   fst (fst (healthz mem_redis_ops ((ex_started (ex_redis\<lparr>mr_faults := [True]\<rparr>))\<lparr>app_redis := ex_redis\<rparr>))) = 503"
proof -
  let ?r = "ex_redis\<lparr>mr_faults := [True]\<rparr>"
  have p: "(fst (rdb_Ping mem_redis_ops ?r) = None) = False" "fst (rdb_Ping mem_redis_ops ex_redis) = None"
    by code_simp+
  moreover have "lib_redis ex_libs = mem_redis_ops" by (simp add: ex_libs_def)
  ultimately show ?thesis
    using redis_down_at_start_is_forever [OF ex_started_reach [of ?r, unfolded p(1)], of ex_redis] by simp
qed

text \<open>
  C24. The publisher does what it says, for a user name in ASCII: an empty user or an unknown action is
  refused and Redis is not contacted; otherwise nothing in Redis is changed but the channel. What is
  published there, if anything, is the one event, in a form from which the worker reads exactly that
  user and action; with exit code 0 it certainly is. It may appear more than once (up to four
  times), since the client sends a command again whose reply is lost.
\<close>

theorem publisher_contract:
  assumes "redis_server R sets_of hashes_of pub_log" and "is_ascii u" and "publisher R u act r = (code, r')"
  shows "sets_of r' = sets_of r \<and> hashes_of r' = hashes_of r \<and> code \<in> {0, 1} \<and>
     (u = [] \<or> act \<notin> {ActionClearCache, ActionUpdateRule} \<longrightarrow> code = 1 \<and> r' = r) \<and>
     (\<exists>m p. pub_log r' = pub_log r @ replicate m (ConfigChannel, p) \<and> m \<le> 4 \<and> (code = 0 \<longrightarrow> 1 \<le> m) \<and>
        (1 \<le> m \<longrightarrow> DecodeEvent p = Inr \<lparr>ev_UserID = u, ev_Action = act\<rparr>))"
proof (cases "u = [] \<or> Validate \<lparr>ev_UserID = u, ev_Action = act\<rparr> \<noteq> None")
  case True
  then show ?thesis using assms(3) by (auto simp: publisher_def Let_def split: if_splits intro!: exI [of _ 0])
next
  case False
  let ?e = "\<lparr>ev_UserID = u, ev_Action = act\<rparr>"
  obtain x r1 where ping: "rdb_Ping R r = (x, r1)" by (metis surj_pair)
  note p1 = redis_server.Ping_frame [OF assms(1) ping]
  from False have v: "Validate ?e = None" "u \<noteq> []" "act \<in> {ActionClearCache, ActionUpdateRule}"
    by (auto simp: Validate_def split: if_splits)
  have d: "DecodeEvent (Encode ?e) = Inr ?e" using DecodeEvent_Encode [of ?e] assms(2) v(1) by simp
  show ?thesis
  proof (cases x)
    case (Some e)
    with assms(3) ping p1 v show ?thesis by (auto simp: publisher_def intro!: exI [of _ 0])
  next
    case None
    obtain y r2 where pu: "rdb_Publish R r1 ConfigChannel (Encode ?e) = (y, r2)" by (metis surj_pair)
    note fr = redis_server.Publish_frame [OF assms(1) pu]
    have "\<exists>m \<le> 4. ((\<exists>n. y = Inr n) \<longrightarrow> 1 \<le> m) \<and> pub_log r2 = pub_log r1 @ replicate m (ConfigChannel, Encode ?e)"
      using redis_server.Publish_ok [OF assms(1)] redis_server.Publish_err [OF assms(1)] pu by (cases y) fastforce+
    then obtain m where m: "m \<le> 4" "(\<exists>n. y = Inr n) \<longrightarrow> 1 \<le> m" "pub_log r2 = pub_log r1 @ replicate m (ConfigChannel, Encode ?e)"
      by blast
    have r': "r' = r2" "code = (case y of Inl e \<Rightarrow> 1 | Inr n \<Rightarrow> 0)"
      using assms(3) ping None pu v by (auto simp: publisher_def Let_def split: sum.splits)
    show ?thesis unfolding r' using m fr p1 v d by (intro conjI exI [of _ m] exI [of _ "Encode ?e"]) (auto split: sum.splits)
  qed
qed

theorem publisher_contract_witness:
  "\<exists>m p. mr_log (snd (publisher mem_redis_ops ''alice'' ''clear_cache'' ex_redis)) = replicate m (ConfigChannel, p) \<and> 1 \<le> m \<and>
       DecodeEvent p = Inr \<lparr>ev_UserID = ''alice'', ev_Action = ''clear_cache''\<rparr>"
proof -
  let ?r = "publisher mem_redis_ops ''alice'' ''clear_cache'' ex_redis"
  have "fst ?r = 0" "mr_log ex_redis = []" by code_simp+
  moreover have "is_ascii ''alice''" by (simp add: is_ascii_def)
  moreover have "?r = (fst ?r, snd ?r)" by simp
  ultimately show ?thesis
    using publisher_contract [OF mr.redis_server_axioms, of "''alice''" "''clear_cache''" ex_redis "fst ?r" "snd ?r"] by auto
qed

end
