(* ===== verification/Metrics.thy ===== *)
theory Metrics imports Startup "HOL-Library.Sublist" begin

text \<open>
  The metrics of an edge process: \<^verbatim>\<open>internal/metrics/metrics.go\<close>, and what the handler makes of them.

  The descriptors are the source's; registration, export and the floating point form of the bounds
  belong to the Prometheus client. The values live in the state \<open>app\<close> of theory
  \<open>Handler\<close>: a counter for each tuple of labels, and the observations of the histogram, the
  newest first.
\<close>

section \<open>Descriptors\<close>

record metric_opts =
  mo_Name :: string
  mo_Help :: string
  mo_Labels :: "string list"

record histogram_opts = metric_opts +
  mo_Buckets :: "time list"

definition ExponentialBuckets :: "time \<Rightarrow> int \<Rightarrow> nat \<Rightarrow> time list" where
  "ExponentialBuckets start factor count = map (\<lambda>i. start * factor ^ i) [0..<count]"

definition DNSQueriesTotal_opts :: metric_opts where
  "DNSQueriesTotal_opts =
     \<lparr>mo_Name = ''dns_queries_total'',
      mo_Help = ''Total number of DNS queries processed, partitioned by protocol, status, and query type.'',
      mo_Labels = [''protocol'', ''status'', ''query_type'']\<rparr>"

text \<open>0.0005 seconds are 500000 nanoseconds.\<close>

definition DNSQueryDurationSeconds_opts :: histogram_opts where
  "DNSQueryDurationSeconds_opts =
     \<lparr>mo_Name = ''dns_query_duration_seconds'', mo_Help = ''DNS query processing latency in seconds.'',
      mo_Labels = [''protocol'', ''status''], mo_Buckets = ExponentialBuckets 500000 2 12\<rparr>"

definition AnalyticsDroppedLogs_opts :: metric_opts where
  "AnalyticsDroppedLogs_opts =
     \<lparr>mo_Name = ''analytics_dropped_logs_total'',
      mo_Help = ''Total number of analytics log entries dropped because of ClickHouse write failures.'',
      mo_Labels = []\<rparr>"

definition registered :: "string list" where
  "registered =
     [mo_Name DNSQueriesTotal_opts, mo_Name DNSQueryDurationSeconds_opts, mo_Name AnalyticsDroppedLogs_opts]"

text \<open>The observations with given labels that fall under a bound, as the exported histogram counts them.\<close>

definition bucket_count :: "(string \<times> string \<times> time) list \<Rightarrow> string \<Rightarrow> string \<Rightarrow> time \<Rightarrow> nat" where
  "bucket_count obs p s bound = length (filter (\<lambda>(p', s', e). p' = p \<and> s' = s \<and> e \<le> bound) obs)"

lemma descriptors_fit:
  "distinct registered" "mo_Buckets DNSQueryDurationSeconds_opts ! 0 = 500000"
  "last (mo_Buckets DNSQueryDurationSeconds_opts) = 1024000000"
  "sorted_wrt (<) (mo_Buckets DNSQueryDurationSeconds_opts)"
  by code_simp+

section \<open>One query\<close>

record processed =
  pq_protocol :: string
  pq_status :: string
  pq_type :: string
  pq_elapsed :: time

definition statuses :: "string set" where
  "statuses = {StatusAllowed, StatusBlocked, StatusRedirect}"

definition same_records :: "('c, 'r, 'z, 'h, 'u, 'k) app \<Rightarrow> ('c, 'r, 'z, 'h, 'u, 'k) app \<Rightarrow> bool" where
  "same_records a a' \<longleftrightarrow>
     DNSQueriesTotal a' = DNSQueriesTotal a \<and> DNSQueryDurationSeconds a' = DNSQueryDurationSeconds a \<and>
     defaultAggregator a' = defaultAggregator a"

definition one_record :: "('c, 'r, 'z, 'h, 'u, 'k) app \<Rightarrow> ('c, 'r, 'z, 'h, 'u, 'k) app \<Rightarrow> processed \<Rightarrow> bool" where
  "one_record a a' x \<longleftrightarrow>
     pq_status x \<in> statuses \<and>
     DNSQueriesTotal a' = (DNSQueriesTotal a)
       ((pq_protocol x, pq_status x, pq_type x) := Suc (DNSQueriesTotal a (pq_protocol x, pq_status x, pq_type x))) \<and>
     DNSQueryDurationSeconds a' = (pq_protocol x, pq_status x, pq_elapsed x) # DNSQueryDurationSeconds a \<and>
     (\<exists>l. Status l = pq_status x \<and> QueryType l = pq_type x \<and>
          defaultAggregator a' = map_option (\<lambda>g. SubmitLog g l) (defaultAggregator a))"

lemma same_records_refl [simp]: "same_records a a"
  by (simp add: same_records_def)

lemma finish_query_records:
  assumes "same_records a b" and "s \<in> statuses"
  shows "\<exists>x. one_record a (finish_query W k b w u d t s) x"
proof -
  let ?x = "\<lparr>pq_protocol = getProtocol W w, pq_status = s, pq_type = t, pq_elapsed = k_elapsed k\<rparr>"
  let ?l = "\<lparr>Timestamp = k_start k, UserID = u, ClientIP = extractClientIP W w, Domain = d,
             QueryType = t, Status = s, ResponseTime = k_logged k\<rparr>"
  have "Status ?l = pq_status ?x \<and> QueryType ?l = pq_type ?x \<and>
      defaultAggregator (finish_query W k b w u d t s) = map_option (\<lambda>g. SubmitLog g ?l) (defaultAggregator a)"
    using assms by (simp add: same_records_def)
  moreover have "DNSQueriesTotal (finish_query W k b w u d t s) =
      (DNSQueriesTotal a)((getProtocol W w, s, t) := Suc (DNSQueriesTotal a (getProtocol W w, s, t)))"
    "DNSQueryDurationSeconds (finish_query W k b w u d t s) = (getProtocol W w, s, k_elapsed k) # DNSQueryDurationSeconds a"
    using assms by (simp_all add: same_records_def finish_query_def submitLog_def Let_def split: option.split)
  ultimately have "one_record a (finish_query W k b w u d t s) ?x"
    using assms(2) unfolding one_record_def by (intro conjI exI [of _ ?l]) simp_all
  then show ?thesis ..
qed

lemma process_allowed_records:
  assumes "process_allowed L W k a w u msg = (Inr (), a', w')"
  shows "same_records a a' \<or> (\<exists>x. one_record a a' x)"
proof (cases "m_Question msg")
  case Nil
  with assms show ?thesis by (simp add: process_allowed_def)
next
  case (Cons q qs)
  obtain x rules rd where ch: "check_of L k a u (q_Name q) = (x, rules, rd)" by (metis surj_pair)
  then obtain v where v: "x = Inr v"
    using assms process_panic [OF Cons, of L k a u _ rules rd W w] by (cases x) auto
  have fin: "same_records a b \<Longrightarrow> s \<in> statuses \<Longrightarrow> a' = finish_query W k b w1 u d t s \<Longrightarrow>
      same_records a a' \<or> (\<exists>x. one_record a a' x)" for b w1 d t s
    using finish_query_records [of a b s W k w1 u d t] by simp
  show ?thesis
  proof (cases "v = 1")
    case True
    show ?thesis
      using process_blocked [OF Cons ch [unfolded v True], of W w] assms
      by (intro fin) (auto simp: same_records_def statuses_def Let_def)
  next
    case False
    obtain ip ok rules' rd' where re: "redirect_of L k rules rd u (q_Name q) = ((ip, ok), rules', rd')" by (metis surj_pair)
    show ?thesis
    proof (cases ok)
      case True
      obtain up w1 where wr: "writeRedirectResponse (lib_dns L) W (app_upstream a) w msg q ip = (up, w1)" by (metis surj_pair)
      show ?thesis
        using process_redirected [OF Cons ch [unfolded v] False _ wr] re True assms
        by (intro fin) (auto simp: same_records_def statuses_def)
    next
      case nok: False
      obtain up w1 where wr: "forwardResponse (lib_dns L) W (app_upstream a) w msg = (up, w1)" by (metis surj_pair)
      show ?thesis
        using process_forwarded [OF Cons ch [unfolded v] False _ wr] re nok assms
        by (intro fin) (auto simp: same_records_def statuses_def)
    qed
  qed
qed

lemma HandleDNSQuery_records:
  assumes "HandleDNSQuery L W k a u w msg = (Inr (), a', w')"
  shows "same_records a a' \<or> (\<exists>x. one_record a a' x)"
proof (cases "admits L k a u")
  case True
  then obtain rl where "ProcessQuery L W k a w u msg = process_allowed L W k (a\<lparr>defaultRateLimiter := rl\<rparr>) w u msg"
    using ProcessQuery_admitted [OF True, of W w msg] by (elim exE)
  with assms process_allowed_records [of L W k "a\<lparr>defaultRateLimiter := rl\<rparr>" w u msg a' w'] show ?thesis
    by (simp add: HandleDNSQuery_def same_records_def one_record_def)
next
  case False
  then obtain rl rl' where "defaultRateLimiter a = Some rl"
    "AllowQuery (lib_zset L) (k_call k) (k_limiter k) (k_server_ms k) rl u
       (defaultRateLimitQueries a) (defaultRateLimitWindow a) = (Inr False, rl')"
    by (auto simp: admits_def split: option.splits) (metis prod.collapse)
  with assms show ?thesis by (auto simp: HandleDNSQuery_def ProcessQuery_def same_records_def)
qed

section \<open>Every run\<close>

definition metrics_inv ::
  "('h, 'b) ch_client \<Rightarrow> ('c, 'r, 'z, 'h, 'u, 'k) app \<Rightarrow> processed list \<Rightarrow> DNSLog list \<Rightarrow> nat \<Rightarrow> bool" where
  "metrics_inv H a xs acc rej \<longleftrightarrow>
     (\<forall>p s t. DNSQueriesTotal a (p, s, t) =
        length (filter (\<lambda>x. pq_protocol x = p \<and> pq_status x = s \<and> pq_type x = t) xs)) \<and>
     DNSQueryDurationSeconds a = map (\<lambda>x. (pq_protocol x, pq_status x, pq_elapsed x)) xs \<and>
     (\<forall>x \<in> set xs. pq_status x \<in> statuses) \<and>
     (\<exists>g fl. defaultAggregator a = Some g \<and> agg_reach H g acc fl rej) \<and>
     length acc + rej = length xs \<and>
     subseq (map (\<lambda>l. (Status l, QueryType l)) acc) (rev (map (\<lambda>x. (pq_status x, pq_type x)) xs))"

lemma metrics_inv_same:
  assumes "metrics_inv H a xs acc rej" and "same_records a a'"
  shows "metrics_inv H a' xs acc rej"
  using assms by (simp add: metrics_inv_def same_records_def)

lemma metrics_inv_record:
  assumes inv: "metrics_inv H a xs acc rej" and one: "one_record a a' x"
  shows "\<exists>acc' rej'. metrics_inv H a' (x # xs) acc' rej'"
proof -
  obtain g fl where g: "defaultAggregator a = Some g" "agg_reach H g acc fl rej"
    using inv by (auto simp: metrics_inv_def)
  obtain l where l: "Status l = pq_status x" "QueryType l = pq_type x" "defaultAggregator a' = Some (SubmitLog g l)"
    using one g(1) by (auto simp: one_record_def)
  have sub: "subseq (map (\<lambda>l. (Status l, QueryType l)) acc) (rev (map (\<lambda>x. (pq_status x, pq_type x)) xs))"
    using inv by (simp add: metrics_inv_def)
  show ?thesis
  proof (cases "length (logCh g) < logCh_cap g")
    case True
    have "metrics_inv H a' (x # xs) (acc @ [l]) rej"
      using inv one l agg_reach.accept [OF g(2) True, of l] list_emb_append_mono [OF sub, of "[(Status l, QueryType l)]" "[(Status l, QueryType l)]"]
      by (auto simp: metrics_inv_def one_record_def)
    then show ?thesis by blast
  next
    case False
    have "metrics_inv H a' (x # xs) acc (Suc rej)"
      using inv one l agg_reach.refuse [OF g(2) False, of l] sub
      by (auto simp: metrics_inv_def one_record_def intro: list_emb_append2)
    then show ?thesis by blast
  qed
qed

lemma edge_start_records:
  fixes a :: "('c, 'r, 'z, 'h, 'u, 'k) app"
  assumes "edge_start L H E z (edge_boot P E r net) = Inr a"
  shows "metrics_inv H a [] [] 0"
proof -
  let ?g = "NewLogAggregator 10000 1000 (5 * second) :: 'h LogAggregator"
  obtain err g1 where ch: "InitClickHouse H ?g (cf_chAddr (edge_config_of E)) (cf_chDB (edge_config_of E))
      (cf_chUser (edge_config_of E)) (cf_chPass (edge_config_of E)) = (err, g1)" by (metis surj_pair)
  note g1 = InitClickHouse_frame [OF ch]
  have st: "StartWorker g1 = Inr (g1\<lparr>wg := wg g1 + 1\<rparr>)" using g1 by (simp add: StartWorker_def NewLogAggregator_def)
  have "agg_reach H g1 [] [] 0" by (rule agg_reach.init [OF agg_reach.new ch]) simp
  then have reach: "agg_reach H (g1\<lparr>wg := wg g1 + 1\<rparr>) [] [] 0"
    by (rule agg_reach.start) (use g1 st in \<open>simp_all add: NewLogAggregator_def\<close>)
  obtain c r' where nc: "InitChecker (lib_cache L) (lib_redis L)
      (app_rules (configure_rate_limit E (edge_boot P E r net :: ('c, 'r, 'z, 'h, 'u, 'k) app)))
      (app_redis (configure_rate_limit E (edge_boot P E r net :: ('c, 'r, 'z, 'h, 'u, 'k) app))) = (c, r')" by (metis surj_pair)
  have "defaultAggregator a = Some (g1\<lparr>wg := wg g1 + 1\<rparr>)" "DNSQueriesTotal a = (\<lambda>_. 0)" "DNSQueryDurationSeconds a = []"
    using assms ch st
    by (auto simp: edge_start_def Let_def SetAggregator_def SetRateLimiter_def edge_boot_def configure_rate_limit_def SetRateLimit_def
        split: prod.splits option.splits if_splits)
  with reach show ?thesis by (auto simp: metrics_inv_def)
qed

lemma edge_reach_records: "edge_reach L H W P E ok a \<Longrightarrow> \<exists>xs acc rej. metrics_inv H a xs acc rej"
proof (induction rule: edge_reach.induct)
  case (start z r net a ok)
  then show ?case using edge_start_records [OF start(1)] by blast
next
  case (query ok a k u w msg a' w')
  then obtain xs acc rej where inv: "metrics_inv H a xs acc rej" by blast
  from HandleDNSQuery_records [OF query.hyps(2)] show ?case
    using metrics_inv_same [OF inv] metrics_inv_record [OF inv] by blast
next
  case (health ok a)
  obtain r where "snd (healthz (lib_redis L) a) = a\<lparr>app_redis := r\<rparr>" using healthz_frame [of "lib_redis L" a] by (elim exE)
  with health show ?case by (simp add: metrics_inv_def)
next
  case (ready ok a)
  obtain r where "snd (readyz (lib_redis L) a) = a\<lparr>app_redis := r\<rparr>" using readyz_frame [of "lib_redis L" a] by (elim exE)
  with ready show ?case by (simp add: metrics_inv_def)
next
  case (worker ok a g ev g')
  then obtain xs acc rej where "metrics_inv H a xs acc rej" by blast
  with worker.hyps(2,3) have "metrics_inv H (a\<lparr>defaultAggregator := Some g'\<rparr>) xs acc rej"
    by (auto simp: metrics_inv_def dest: agg_reach.worker)
  then show ?case by blast
qed (simp_all add: metrics_inv_def)

section \<open>Properties\<close>

text \<open>
  C14. The metrics of an edge process agree with one another and with its log, in every state it can
  reach: there is one list of processed queries of which the counters are the counts by protocol,
  status and type and the histogram the durations by protocol and status; every status is one of
  the three; and each of these queries was submitted to the log aggregator once: those it took are,
  in order, among them, and those it refused are the others.
\<close>

theorem metrics_agree:
  assumes "edge_reach L H W P E ok a"
  shows "\<exists>(xs :: processed list) acc rej g fl.
     (\<forall>p s t. DNSQueriesTotal a (p, s, t) =
        length (filter (\<lambda>x. pq_protocol x = p \<and> pq_status x = s \<and> pq_type x = t) xs)) \<and>
     (\<forall>p s bound. bucket_count (DNSQueryDurationSeconds a) p s bound =
        length (filter (\<lambda>x. pq_protocol x = p \<and> pq_status x = s \<and> pq_elapsed x \<le> bound) xs)) \<and>
     (\<forall>x \<in> set xs. pq_status x \<in> {StatusAllowed, StatusBlocked, StatusRedirect}) \<and>
     defaultAggregator a = Some g \<and> agg_reach H g acc fl rej \<and> length acc + rej = length xs \<and>
     subseq (map (\<lambda>l. (Status l, QueryType l)) acc) (rev (map (\<lambda>x. (pq_status x, pq_type x)) xs))"
proof -
  obtain xs acc rej where inv: "metrics_inv H a xs acc rej" using edge_reach_records [OF assms] by blast
  then obtain g fl where g: "defaultAggregator a = Some g" "agg_reach H g acc fl rej"
    by (auto simp: metrics_inv_def)
  have "bucket_count (map (\<lambda>x. (pq_protocol x, pq_status x, pq_elapsed x)) xs) p s bound =
      length (filter (\<lambda>x. pq_protocol x = p \<and> pq_status x = s \<and> pq_elapsed x \<le> bound) xs)" for p s bound
    by (simp add: bucket_count_def filter_map comp_def)
  with inv g show ?thesis
    by (intro exI [of _ xs] exI [of _ acc] exI [of _ rej] exI [of _ g] exI [of _ fl])
      (simp add: metrics_inv_def statuses_def)
qed

subsection \<open>Witness\<close>

text \<open>A blocked query to a process just started, while the counters of the limiter cannot be reached.\<close>

definition ex_new :: "cache_val mem_cache checker \<times> mem_redis" where
  "ex_new = NewChecker mem_cache_ops mem_redis_ops ex_redis"

lemma ex_started_rules:
  "global (app_rules (ex_started ex_redis)) = Some (fst ex_new)" "app_redis (ex_started ex_redis) = snd ex_new"
proof -
  let ?b = "edge_boot (\<lambda>_. None) ex_environ ex_redis ex_net
      :: (cache_val mem_cache, mem_redis, mem_zset, mem_ch, mem_upstream, dns_msg mem_cache) app"
  obtain a where a: "edge_start ex_libs (mem_ch_ops True) ex_environ (\<lambda>_. ([], None)) ?b = Inr a"
    using edge_start_returns [of ex_libs "mem_ch_ops True" ex_environ "\<lambda>_. ([], None)" ?b] by (elim exE)
  have "0 < defaultRateLimitQueries ?b" "defaultRateLimitWindow ?b = second" by (simp_all add: edge_boot_def)
  from configure_rate_limit_ok [OF this, of ex_environ]
  have b: "app_rules (configure_rate_limit ex_environ ?b) = \<lparr>global = None, totalChecks = 0\<rparr>"
    "app_redis (configure_rate_limit ex_environ ?b) = ex_redis"
    by (simp_all add: edge_boot_def)
  have "global (app_rules a) = Some (fst ex_new) \<and> app_redis a = snd ex_new"
    using a b by (simp add: edge_start_def Let_def InitChecker_def SetAggregator_def SetRateLimiter_def ex_new_def ex_libs_def
        split: prod.splits sum.splits) auto
  with a show "global (app_rules (ex_started ex_redis)) = Some (fst ex_new)" "app_redis (ex_started ex_redis) = snd ex_new"
    by (simp_all add: ex_started_def)
qed

lemma ex_new_blocks:
  "fst (Check mem_cache_ops mem_redis_ops 5 6 (fst ex_new) (snd ex_new) ''alice'' ''www.example.com'') = Inr 1"
  "norm_domain ''www.example.com'' = ''www.example.com''"
  by code_simp+

lemma ex_query_counted:
  "\<exists>a :: (cache_val mem_cache, mem_redis, mem_zset, mem_ch, mem_upstream, dns_msg mem_cache) app.
     edge_reach ex_libs (mem_ch_ops True) list_writer_ops (\<lambda>_. None) ex_environ (fst (rdb_Ping mem_redis_ops ex_redis) = None) a \<and>
     DNSQueryDurationSeconds a \<noteq> []"
proof -
  let ?a = "ex_started ex_redis" and ?k = "ex_clock\<lparr>k_call := LostBefore\<rparr>" and ?msg = "ex_msg 7 ''www.example.com''"
  have "admits ex_libs ?k ?a ''alice''"
    by (auto simp: admits_def AllowQuery_def Let_def split: option.split)
  from ProcessQuery_admitted [OF this, of list_writer_ops ex_writer ?msg]
  obtain rl where run: "ProcessQuery ex_libs list_writer_ops ?k ?a ex_writer ''alice'' ?msg =
      process_allowed ex_libs list_writer_ops ?k (?a\<lparr>defaultRateLimiter := rl\<rparr>) ex_writer ''alice'' ?msg"
    by (elim exE)
  obtain c r where "Check mem_cache_ops mem_redis_ops 5 6 (fst ex_new) (snd ex_new) ''alice'' ''www.example.com'' = (Inr 1, c, r)"
    using ex_new_blocks(1) by (metis prod.collapse)
  then obtain rules where "check_of ex_libs ?k (?a\<lparr>defaultRateLimiter := rl\<rparr>) ''alice'' ''www.example.com'' = (Inr 1, rules, r)"
    using ex_new_blocks(2) by (simp add: CheckRule_def Let_def norm_domain_def ex_started_rules ex_libs_def ex_clock_def)
  then obtain a' w' where "HandleDNSQuery ex_libs list_writer_ops ?k ?a ''alice'' ex_writer ?msg = (Inr (), a', w')"
    and "DNSQueryDurationSeconds a' \<noteq> []"
    using process_blocked [of ?msg _ "[]" ex_libs ?k "?a\<lparr>defaultRateLimiter := rl\<rparr>" "''alice''" rules r list_writer_ops ex_writer] run
    by (auto simp: HandleDNSQuery_def ex_msg_def Let_def finish_query_def submitLog_def split: option.splits)
  with edge_reach.query [OF ex_started_reach] show ?thesis by blast
qed

theorem metrics_agree_witness:
  "\<exists>(a :: (cache_val mem_cache, mem_redis, mem_zset, mem_ch, mem_upstream, dns_msg mem_cache) app)
      (xs :: processed list) x.
     edge_reach ex_libs (mem_ch_ops True) list_writer_ops (\<lambda>_. None) ex_environ (fst (rdb_Ping mem_redis_ops ex_redis) = None) a \<and>
     x \<in> set xs \<and> 0 < DNSQueriesTotal a (pq_protocol x, pq_status x, pq_type x)"
proof -
  obtain a :: "(cache_val mem_cache, mem_redis, mem_zset, mem_ch, mem_upstream, dns_msg mem_cache) app" where
    a: "edge_reach ex_libs (mem_ch_ops True) list_writer_ops (\<lambda>_. None) ex_environ (fst (rdb_Ping mem_redis_ops ex_redis) = None) a"
    and ne: "DNSQueryDurationSeconds a \<noteq> []" using ex_query_counted by blast
  then obtain p s e where "(p, s, e) \<in> set (DNSQueryDurationSeconds a)" by (metis list.set_sel(1) prod_cases3)
  then have "0 < bucket_count (DNSQueryDurationSeconds a) p s e"
    by (auto simp: bucket_count_def filter_empty_conv)
  moreover obtain xs :: "processed list" where
    tot: "\<And>p s t. DNSQueriesTotal a (p, s, t) = length (filter (\<lambda>x. pq_protocol x = p \<and> pq_status x = s \<and> pq_type x = t) xs)"
    and obs: "\<And>p s bound. bucket_count (DNSQueryDurationSeconds a) p s bound =
        length (filter (\<lambda>x. pq_protocol x = p \<and> pq_status x = s \<and> pq_elapsed x \<le> bound) xs)"
    using metrics_agree [OF a] by (elim exE conjE) blast
  ultimately obtain x where x: "x \<in> set xs" by (auto simp: filter_empty_conv)
  then have "0 < DNSQueriesTotal a (pq_protocol x, pq_status x, pq_type x)"
    by (auto simp: tot filter_empty_conv)
  with a x show ?thesis by blast
qed

end
