(* ===== verification/Rule_History.thy ===== *)
theory Rule_History imports Rule begin

text \<open>
  Runs of the rule checker.

  The checker is used by many queries over time while its Redis data changes under it. A run is
  modelled as reachability: from \<open>NewChecker\<close>, any sequence of the checker's operations,
  at non-decreasing clock readings, interleaved with arbitrary changes of the Redis world by
  others. The last argument of \<open>rule_reach\<close> is a ghost: the list of the block list
  lookups that were really made, each with its time and the block list it saw. User names are
  those without a colon, as host name labels are: theory \<open>Rule\<close> shows what others can do.
\<close>

datatype lookup = Lookup time string string "string set" bool

inductive rule_reach ::
  "('c, cache_val) cache_ops \<Rightarrow> 'r redis_client \<Rightarrow> ('r \<Rightarrow> string \<Rightarrow> string set) \<Rightarrow>
   'c checker \<Rightarrow> 'r \<Rightarrow> time \<Rightarrow> lookup list \<Rightarrow> bool"
  for C :: "('c, cache_val) cache_ops" and R :: "'r redis_client"
    and sets_of :: "'r \<Rightarrow> string \<Rightarrow> string set"
where
  start: "NewChecker C R r0 = (c, r) \<Longrightarrow> 0 \<le> now \<Longrightarrow> rule_reach C R sets_of c r now []"
| hit: "rule_reach C R sets_of c r now H \<Longrightarrow> now \<le> t0 \<Longrightarrow> t0 \<le> t1 \<Longrightarrow> valid_user u \<Longrightarrow>
    cache_Get C (cache c) t0 (check_cacheKey u (norm_domain d)) = Some v \<Longrightarrow>
    Check C R t0 t1 c r u d = (res, c', r') \<Longrightarrow> rule_reach C R sets_of c' r' t1 H"
| miss: "rule_reach C R sets_of c r now H \<Longrightarrow> now \<le> t0 \<Longrightarrow> t0 \<le> t1 \<Longrightarrow> valid_user u \<Longrightarrow>
    cache_Get C (cache c) t0 (check_cacheKey u (norm_domain d)) = None \<Longrightarrow>
    Check C R t0 t1 c r u d = (Inr a, c', r') \<Longrightarrow>
    rule_reach C R sets_of c' r' t1
      (Lookup t1 u (norm_domain d) (seen_blocklist R sets_of c r u d) (a = 1) # H)"
| redirect: "rule_reach C R sets_of c r now H \<Longrightarrow> now \<le> t0 \<Longrightarrow> t0 \<le> t1 \<Longrightarrow>
    GetRedirect C R t0 t1 c r u d = (res', c', r') \<Longrightarrow> rule_reach C R sets_of c' r' t1 H"
| set: "rule_reach C R sets_of c r now H \<Longrightarrow>
    SetRedirect C R c r u d ip = (err, c', r') \<Longrightarrow> rule_reach C R sets_of c' r' now H"
| remove: "rule_reach C R sets_of c r now H \<Longrightarrow>
    RemoveRedirect C R c r u d = (err, c', r') \<Longrightarrow> rule_reach C R sets_of c' r' now H"
| clear: "rule_reach C R sets_of c r now H \<Longrightarrow> now \<le> t \<Longrightarrow>
    rule_reach C R sets_of (ClearUserCache C t c u) r t H"
| world: "rule_reach C R sets_of c r now H \<Longrightarrow> now \<le> t \<Longrightarrow> rule_reach C R sets_of c r' t H"

section \<open>The invariant\<close>

text \<open>
  Every string in the cache sits under a redirect key; every boolean sits under the key of a
  lookup of the history, with the answer of that lookup, and expires 60 seconds after it.
\<close>

definition entry_ok :: "lookup list \<Rightarrow> string \<Rightarrow> cache_val \<Rightarrow> time \<Rightarrow> bool" where
  "entry_ok H k v e \<longleftrightarrow>
     (case v of
        CStr s \<Rightarrow> \<exists>u d. k = redirect_cacheKey u d
      | CBool b \<Rightarrow> \<exists>u d t B. valid_user u \<and> k = check_cacheKey u d \<and>
                    Lookup t u d B b \<in> set H \<and> 0 \<le> t \<and> e = t + 60 * second)"

definition rule_inv ::
  "('c \<Rightarrow> string \<Rightarrow> (cache_val \<times> time) option) \<Rightarrow> ('c \<Rightarrow> time) \<Rightarrow> 'c checker \<Rightarrow> time \<Rightarrow>
   lookup list \<Rightarrow> bool" where
  "rule_inv entry dflt c now H \<longleftrightarrow>
     0 \<le> now \<and> dflt (cache c) = 60 * second \<and> fallback c = defaultFallback \<and>
     (\<forall>k v e. entry (cache c) k = Some (v, e) \<longrightarrow> entry_ok H k v e) \<and>
     (\<forall>t u d B b. Lookup t u d B b \<in> set H \<longrightarrow> (b \<longleftrightarrow> blocked_spec defaultFallback B d))"

lemma entry_ok_mono: "entry_ok H k v e \<Longrightarrow> set H \<subseteq> set H' \<Longrightarrow> entry_ok H' k v e"
  unfolding entry_ok_def by (cases v) (auto, blast)

lemma rule_invD:
  assumes "rule_inv entry dflt c now H"
  shows "entry (cache c) k = Some (v, e) \<Longrightarrow> entry_ok H k v e"
    and "dflt (cache c) = 60 * second" and "fallback c = defaultFallback" and "0 \<le> now"
    and "Lookup t u d B b \<in> set H \<Longrightarrow> b \<longleftrightarrow> blocked_spec defaultFallback B d"
  using assms by (auto simp: rule_inv_def)

text \<open>An operation that only removes entries, or lets time pass, keeps the invariant.\<close>

lemma rule_inv_shrink:
  assumes "rule_inv entry dflt c now H" and "now \<le> now'"
    and "\<And>k x. entry (cache c') k = Some x \<Longrightarrow> entry (cache c) k = Some x"
    and "dflt (cache c') = dflt (cache c)" and "fallback c' = fallback c"
  shows "rule_inv entry dflt c' now' H"
  using assms by (auto simp: rule_inv_def)

lemma rule_inv_time: "rule_inv entry dflt c now H \<Longrightarrow> now \<le> t \<Longrightarrow> rule_inv entry dflt c t H"
  by (erule rule_inv_shrink) auto

context checker_env
begin

text \<open>A store under a good key, for the default lifetime, keeps the invariant.\<close>

lemma rule_inv_store:
  assumes inv: "rule_inv entry dflt c now H" and "now \<le> t"
    and ok: "entry_ok H' k v (t + 60 * second)" and sub: "set H \<subseteq> set H'"
    and log: "\<And>t u d B b. Lookup t u d B b \<in> set H' \<Longrightarrow> b \<longleftrightarrow> blocked_spec defaultFallback B d"
  shows "rule_inv entry dflt (c\<lparr>cache := cache_Set C (cache c) t k v DefaultExpiration\<rparr>) t H'"
  using rule_invD [OF inv] \<open>now \<le> t\<close> ok log entry_ok_mono [OF _ sub]
  by (auto simp: rule_inv_def entry_Set dflt_Set expiry_def)

lemma rule_inv_NewChecker:
  assumes "NewChecker C R r0 = (c, r)" and "0 \<le> now"
  shows "rule_inv entry dflt c now []"
  using assms
  by (auto simp: NewChecker_def Let_def rule_inv_def defaultFallback_def entry_New dflt_New
      split: prod.splits option.splits)

lemma rule_inv_hit:
  assumes "rule_inv entry dflt c now H" and "now \<le> t0" and "t0 \<le> t1"
    and "cache_Get C (cache c) t0 (check_cacheKey u (norm_domain d)) = Some v"
    and "Check C R t0 t1 c r u d = (res, c', r')"
  shows "rule_inv entry dflt c' t1 H"
proof -
  have "c' = c" using assms(4,5) by (auto simp: Check_eq split: cache_val.splits)
  with assms show ?thesis by (auto elim: rule_inv_time)
qed

lemma rule_inv_miss:
  assumes inv: "rule_inv entry dflt c now H" and t: "now \<le> t0" "t0 \<le> t1" and "valid_user u"
    and "cache_Get C (cache c) t0 (check_cacheKey u (norm_domain d)) = None"
    and "Check C R t0 t1 c r u d = (Inr a, c', r')"
  shows "rule_inv entry dflt c' t1
           (Lookup t1 u (norm_domain d) (seen_blocklist R sets_of c r u d) (a = 1) # H)"
proof -
  let ?b = "blocked_spec (fallback c) (seen_blocklist R sets_of c r u d) (norm_domain d)"
  have c': "c' = c\<lparr>cache := cache_Set C (cache c) t1 (check_cacheKey u (norm_domain d)) (CBool ?b)
                           DefaultExpiration\<rparr>" and a: "a = 1 \<longleftrightarrow> ?b"
    using Check_miss [OF assms(5), of ?b r t1] assms(6) by auto
  have "entry_ok (Lookup t1 u (norm_domain d) (seen_blocklist R sets_of c r u d) ?b # H)
          (check_cacheKey u (norm_domain d)) (CBool ?b) (t1 + 60 * second)"
    using \<open>valid_user u\<close> rule_invD(4) [OF inv] t by (auto simp: entry_ok_def)
  then show ?thesis
    unfolding c' a using t rule_invD [OF inv] by (intro rule_inv_store [OF inv]) auto
qed

lemma rule_inv_redirect:
  assumes inv: "rule_inv entry dflt c now H" and t: "now \<le> t0" "t0 \<le> t1"
    and g: "GetRedirect C R t0 t1 c r u d = (res, c', r')"
  shows "rule_inv entry dflt c' t1 H"
proof -
  have "c' = c \<or> (\<exists>ip. c' = c\<lparr>cache := cache_Set C (cache c) t1 (redirect_cacheKey u (norm_domain d))
                                        (CStr ip) DefaultExpiration\<rparr>)"
    using g by (auto simp: GetRedirect_def Let_def norm_domain_def
        split: option.splits cache_val.splits if_splits prod.splits sum.splits)
  moreover have "entry_ok H (redirect_cacheKey u (norm_domain d)) (CStr ip) (t1 + 60 * second)" for ip
    by (auto simp: entry_ok_def)
  ultimately show ?thesis
    using t inv rule_invD(5) [OF inv] by (auto intro: rule_inv_store rule_inv_time)
qed

lemma rule_inv_delete:
  assumes "rule_inv entry dflt c now H"
  shows "rule_inv entry dflt (c\<lparr>cache := cache_Delete C (cache c) k\<rparr>) now H"
  using assms by (rule rule_inv_shrink) (auto simp: entry_Delete dflt_Delete split: if_splits)

lemma rule_inv_clear:
  assumes "rule_inv entry dflt c now H" and "now \<le> t"
  shows "rule_inv entry dflt (ClearUserCache C t c u) t H"
  using assms
proof (rule rule_inv_shrink)
  show "dflt (cache (ClearUserCache C t c u)) = dflt (cache c)"
    by (simp add: ClearUserCache_def Let_def dflt_delete_keys)
  show "fallback (ClearUserCache C t c u) = fallback c"
    by (simp add: ClearUserCache_def Let_def)
qed (auto simp: entry_ClearUserCache split: if_splits)

lemma rule_reach_inv: "rule_reach C R sets_of c r now H \<Longrightarrow> rule_inv entry dflt c now H"
proof (induction rule: rule_reach.induct)
  case (set c r now H u d ip err c' r')
  then show ?case by (auto simp: SetRedirect_def Let_def intro: rule_inv_delete
      split: prod.splits option.splits)
next
  case (remove c r now H u d err c' r')
  then show ?case by (auto simp: RemoveRedirect_def Let_def intro: rule_inv_delete
      split: prod.splits option.splits)
qed (blast intro: rule_inv_NewChecker rule_inv_hit rule_inv_miss rule_inv_redirect
    rule_inv_clear rule_inv_time)+

section \<open>What every run promises\<close>

lemma reach_no_panic:
  assumes "rule_reach C R sets_of c r now H" and "valid_user u"
  shows "fst (Check C R t0 t1 c r u d) \<noteq> Inl e"
proof
  assume "fst (Check C R t0 t1 c r u d) = Inl e"
  then obtain s where "cache_Get C (cache c) t0 (check_cacheKey u (norm_domain d)) = Some (CStr s)"
    using Check_panics_iff by blast
  then obtain x where "entry (cache c) (check_cacheKey u (norm_domain d)) = Some (CStr s, x)"
    by (auto simp: Get_live dest: live_SomeD)
  then have "entry_ok H (check_cacheKey u (norm_domain d)) (CStr s) x"
    by (rule rule_invD(1) [OF rule_reach_inv [OF assms(1)]])
  with assms(2) show False by (auto simp: entry_ok_def check_redirect_key_neq)
qed

lemma reach_hit_lookup:
  assumes "rule_reach C R sets_of c r now H" and "valid_user u"
    and "cache_Get C (cache c) t0 (check_cacheKey u (norm_domain d)) = Some (CBool b)"
  shows "\<exists>t B. Lookup t u (norm_domain d) B b \<in> set H \<and> t0 - 60 * second \<le> t \<and>
               (b \<longleftrightarrow> blocked_spec defaultFallback B (norm_domain d))"
proof -
  obtain e where en: "entry (cache c) (check_cacheKey u (norm_domain d)) = Some (CBool b, e)"
    and e: "\<not> expired e t0"
    using assms(3) by (auto simp: Get_live dest: live_SomeD)
  note inv = rule_reach_inv [OF assms(1)]
  obtain u' d' t B where "valid_user u'" "check_cacheKey u (norm_domain d) = check_cacheKey u' d'"
    and l: "Lookup t u' d' B b \<in> set H" "0 \<le> t" "e = t + 60 * second"
    using rule_invD(1) [OF inv en] by (auto simp: entry_ok_def)
  then have "u' = u" "d' = norm_domain d" using assms(2) by (auto simp: check_cacheKey_inj)
  with l e rule_invD(5) [OF inv l(1)] show ?thesis
    by (intro exI [of _ t] exI [of _ B]) (auto simp: expired_def)
qed

end

section \<open>Properties\<close>

text \<open>
  In every run of the checker, for a user name without a colon, \<open>Check\<close> returns
  (it never panics), and its answer is the reference decision for a block list that was seen by a
  lookup of that very user and domain made at most 60 seconds before the call, or by the call
  itself.
\<close>

theorem Check_bounded_staleness:
  assumes "checker_env C entry dflt R sets_of hashes_of pub_log"
    and "rule_reach C R sets_of c r now H" and "valid_user u" and "t0 \<le> t1"
  shows "\<exists>a c' r' t B. Check C R t0 t1 c r u d = (Inr a, c', r') \<and>
           a = (if blocked_spec defaultFallback B (norm_domain d) then 1 else 0) \<and>
           t0 - 60 * second \<le> t \<and>
           (t = t1 \<and> B = seen_blocklist R sets_of c r u d \<or>
            Lookup t u (norm_domain d) B (a = 1) \<in> set H)"
proof (cases "cache_Get C (cache c) t0 (check_cacheKey u (norm_domain d))")
  case None
  have "fallback c = defaultFallback"
    using checker_env.rule_reach_inv [OF assms(1,2)] by (rule rule_invD)
  with checker_env.Check_miss [OF assms(1) None refl, of t1 r] obtain c' r' where
    "Check C R t0 t1 c r u d =
       (Inr (if blocked_spec defaultFallback (seen_blocklist R sets_of c r u d) (norm_domain d)
             then 1 else 0), c', r')" by auto
  with assms(4) show ?thesis
    by (intro exI [of _ t1] exI [of _ "seen_blocklist R sets_of c r u d"] exI [of _ c'] exI [of _ r']
        exI conjI) simp_all
next
  case (Some v)
  with checker_env.reach_no_panic [OF assms(1-3), of t0 t1 d TypeAssertion]
  obtain b where v: "v = CBool b" by (cases v) (auto simp: Check_eq)
  with Some obtain t B where "Lookup t u (norm_domain d) B b \<in> set H" "t0 - 60 * second \<le> t"
    "b \<longleftrightarrow> blocked_spec defaultFallback B (norm_domain d)"
    using checker_env.reach_hit_lookup [OF assms(1-3)] by blast
  with Some v show ?thesis
    by (intro exI [of _ "if b then 1 else 0"] exI [of _ c] exI [of _ r] exI [of _ t] exI [of _ B])
      (auto simp: Check_eq)
qed

theorem Check_bounded_staleness_witness:
  "\<exists>c r H a c' r' t B.
     rule_reach mem_cache_ops mem_redis_ops mr_sets_of c r 6 H \<and> H \<noteq> [] \<and>
     Check mem_cache_ops mem_redis_ops 9 9 c r ''alice'' ''x.example.com'' = (Inr a, c', r') \<and>
     a = (if blocked_spec defaultFallback B (norm_domain ''x.example.com'') then 1 else 0) \<and>
     9 - 60 * second \<le> t"
proof -
  let ?u = "''alice''" and ?d = "''x.example.com''"
  let ?new = "NewChecker mem_cache_ops mem_redis_ops ex_redis"
  let ?chk = "Check mem_cache_ops mem_redis_ops 5 6 (fst ?new) (snd ?new) ?u ?d"
  have r0: "rule_reach mem_cache_ops mem_redis_ops mr_sets_of (fst ?new) (snd ?new) 0 []"
    by (rule rule_reach.start [of _ _ ex_redis]) simp_all
  have u: "valid_user ?u" by code_simp
  have "?chk = (Inr 1, fst (snd ?chk), snd (snd ?chk))" by (rule prod_eqI) (simp, code_simp, simp)
  moreover have "cache_Get mem_cache_ops (cache (fst ?new)) 5 (check_cacheKey ?u (norm_domain ?d)) = None"
    by code_simp
  ultimately have r1: "rule_reach mem_cache_ops mem_redis_ops mr_sets_of (fst (snd ?chk)) (snd (snd ?chk)) 6
      [Lookup 6 ?u (norm_domain ?d) (seen_blocklist mem_redis_ops mr_sets_of (fst ?new) (snd ?new) ?u ?d) (1 = (1::int))]"
    by (intro rule_reach.miss [OF r0 _ _ u, of 5]) simp_all
  have "(9::int) \<le> 9" by simp
  from Check_bounded_staleness [OF mem.checker_env_axioms r1 u this, of ?d] r1 show ?thesis by blast
qed

end
