(* ===== verification/Rule_Concurrent.thy ===== *)
theory Rule_Concurrent imports Rule_History begin

text \<open>
  The rule checker under concurrency.

  \<^verbatim>\<open>internal/rule\<close> takes no lock. The cache and the Redis server make each single call
  atomic, but an operation of \<^verbatim>\<open>checker.go\<close> makes several, and the operations of other goroutines
  run in between: queries (\<^verbatim>\<open>Check\<close>, \<^verbatim>\<open>GetRedirect\<close>) on the goroutines of the listeners, and
  evictions (\<^verbatim>\<open>ClearUserCache\<close>) on the goroutine of the subscription. Here each operation is
  split at its accesses to shared state: \<open>rule_op\<close> is the program counter of an operation
  with its local variables, \<open>op_step\<close> one access. Run without interruption the steps are the
  operations of theory \<open>Rule\<close> (\<open>steps_alone\<close>); \<open>sys_step\<close> interleaves
  any number of them with arbitrary changes of the Redis data. The field \<open>history\<close> is a ghost: what
  has happened, the newest first.
\<close>

section \<open>The operations, step by step\<close>

datatype rule_op =
    CheckGet string string \<comment> \<open>user and domain as passed\<close>
  | CheckAsk string string \<comment> \<open>user and normalised domain, as below\<close>
  | CheckFallback string string bool
  | CheckSet string string bool
  | CheckDone "go_panic + int"
  | RedirectGet string string
  | RedirectAsk string string "string list" \<comment> \<open>the patterns still to try\<close>
  | RedirectSet string string string
  | RedirectDone "string \<times> bool"
  | SetHash string string string
  | SetEvict string string
  | SetDone "rule_error option"
  | RemoveHash string string
  | RemoveEvict string string
  | RemoveDone "rule_error option"
  | ClearList string
  | ClearDelete string "string list" \<comment> \<open>the keys still to delete\<close>
  | ClearDone

definition redirect_ask :: "'r redis_client \<Rightarrow> 'r \<Rightarrow> string \<Rightarrow> string \<Rightarrow> string list \<Rightarrow> rule_op \<times> 'r" where
  "redirect_ask R r userID domain patterns =
     (case patterns of
        [] \<Rightarrow> (RedirectSet userID domain [], r)
      | pattern # patterns' \<Rightarrow>
          (case rdb_HGet R r (redirects_key userID) pattern of
             (Inl RedisNil, r') \<Rightarrow> (RedirectAsk userID domain patterns', r')
           | (Inl (RedisErr e), r') \<Rightarrow> (RedirectDone ([], False), r')
           | (Inr ip, r') \<Rightarrow>
               (if ip \<noteq> [] then (RedirectSet userID domain ip, r')
                else (RedirectAsk userID domain patterns', r'))))"

fun op_step ::
  "('c, cache_val) cache_ops \<Rightarrow> 'r redis_client \<Rightarrow> time \<Rightarrow> rule_op \<Rightarrow> 'c checker \<Rightarrow> 'r \<Rightarrow>
   rule_op \<times> 'c checker \<times> 'r" where
  "op_step C R t (CheckGet u d) c r =
     (let domain = ToLower (TrimSuffix d ''.'')
      in case cache_Get C (cache c) t (check_cacheKey u domain) of
           Some (CBool b) \<Rightarrow> (CheckDone (Inr (if b then 1 else 0)), c, r)
         | Some (CStr s) \<Rightarrow> (CheckDone (Inl TypeAssertion), c, r)
         | None \<Rightarrow> (if enabled c then CheckAsk u domain else CheckFallback u domain False, c, r))"
| "op_step C R t (CheckAsk u d) c r =
     (let ((blocked, err), r') = checkRedis R r d u in (CheckFallback u d blocked, c, r'))"
| "op_step C R t (CheckFallback u d blocked) c r =
     (CheckSet u d (if \<not> blocked then fallbackCheck c d = 1 else blocked), c, r)"
| "op_step C R t (CheckSet u d blocked) c r =
     (CheckDone (Inr (if blocked then 1 else 0)),
      c\<lparr>cache := cache_Set C (cache c) t (check_cacheKey u d) (CBool blocked) DefaultExpiration\<rparr>, r)"
| "op_step C R t (RedirectGet u d) c r =
     (let domain = ToLower (TrimSuffix d ''.'')
      in case cache_Get C (cache c) t (redirect_cacheKey u domain) of
           Some (CStr ip) \<Rightarrow> (RedirectDone (ip, True), c, r)
         | Some (CBool b) \<Rightarrow> (RedirectDone ([], False), c, r)
         | None \<Rightarrow>
             (if enabled c then RedirectAsk u domain (generatePatterns domain)
              else RedirectDone ([], False), c, r))"
| "op_step C R t (RedirectAsk u d patterns) c r =
     (let (op', r') = redirect_ask R r u d patterns in (op', c, r'))"
| "op_step C R t (RedirectSet u d ip) c r =
     (RedirectDone (ip, ip \<noteq> []),
      c\<lparr>cache := cache_Set C (cache c) t (redirect_cacheKey u d) (CStr ip) DefaultExpiration\<rparr>, r)"
| "op_step C R t (SetHash u d ip) c r =
     (let domain = ToLower (TrimSuffix d ''.'')
      in case rdb_HSet R r (redirects_key u) domain ip of
           (Some err, r') \<Rightarrow> (SetDone (Some (HSetRedirect err)), c, r')
         | (None, r') \<Rightarrow> (SetEvict u domain, c, r'))"
| "op_step C R t (SetEvict u d) c r =
     (SetDone None, c\<lparr>cache := cache_Delete C (cache c) (redirect_cacheKey u d)\<rparr>, r)"
| "op_step C R t (RemoveHash u d) c r =
     (let domain = ToLower (TrimSuffix d ''.'')
      in case rdb_HDel R r (redirects_key u) domain of
           (Some err, r') \<Rightarrow> (RemoveDone (Some (HDelRedirect err)), c, r')
         | (None, r') \<Rightarrow> (RemoveEvict u domain, c, r'))"
| "op_step C R t (RemoveEvict u d) c r =
     (RemoveDone None, c\<lparr>cache := cache_Delete C (cache c) (redirect_cacheKey u d)\<rparr>, r)"
| "op_step C R t (ClearList u) c r =
     (ClearDelete u (filter (\<lambda>k. HasPrefix k (u @ '':'') \<or> HasPrefix k (''redirect:'' @ u @ '':''))
                       (cache_Items C (cache c) t)), c, r)"
| "op_step C R t (ClearDelete u ks) c r =
     (case ks of
        [] \<Rightarrow> (ClearDone, c, r)
      | k # ks' \<Rightarrow> (ClearDelete u ks', c\<lparr>cache := cache_Delete C (cache c) k\<rparr>, r))"
| "op_step C R t (CheckDone res) c r = (CheckDone res, c, r)"
| "op_step C R t (RedirectDone res) c r = (RedirectDone res, c, r)"
| "op_step C R t (SetDone err) c r = (SetDone err, c, r)"
| "op_step C R t (RemoveDone err) c r = (RemoveDone err, c, r)"
| "op_step C R t ClearDone c r = (ClearDone, c, r)"

text \<open>An operation whose steps are taken at the given times, nothing else in between.\<close>

fun exec ::
  "('c, cache_val) cache_ops \<Rightarrow> 'r redis_client \<Rightarrow> time list \<Rightarrow> rule_op \<Rightarrow> 'c checker \<Rightarrow> 'r \<Rightarrow>
   rule_op \<times> 'c checker \<times> 'r" where
  "exec C R [] op c r = (op, c, r)"
| "exec C R (t # ts) op c r =
     (let (op', c', r') = op_step C R t op c r in exec C R ts op' c' r')"

fun op_done :: "rule_op \<Rightarrow> bool" where
  "op_done (CheckDone _) = True"
| "op_done (RedirectDone _) = True"
| "op_done (SetDone _) = True"
| "op_done (RemoveDone _) = True"
| "op_done ClearDone = True"
| "op_done _ = False"

section \<open>Uninterrupted, the steps are the operations\<close>

lemma op_step_done: "op_done op \<Longrightarrow> op_step C R t op c r = (op, c, r)"
  by (cases op) simp_all

lemma exec_done: "op_done op \<Longrightarrow> exec C R ts op c r = (op, c, r)"
  by (induction ts) (simp_all add: op_step_done)



lemma exec_check_eq:
  "exec C R (t0 # replicate (Suc (Suc (Suc n))) t1) (CheckGet u d) c r =
     (let (res, c', r') = Check C R t0 t1 c r u d in (CheckDone res, c', r'))"
proof (cases "cache_Get C (cache c) t0 (check_cacheKey u (ToLower (TrimSuffix d ''.'')))")
  case None
  then show ?thesis
    by (cases "checkRedis R r (ToLower (TrimSuffix d ''.'')) u")
      (auto simp: Check_def Let_def fallbackCheck_def exec_done split: prod.splits)
next
  case (Some v)
  then show ?thesis by (cases v) (simp_all add: Check_def Let_def exec_done)
qed

lemma exec_redirect_set:
  "exec C R (replicate (Suc n) t) (RedirectSet u d ip) c r =
     (RedirectDone (ip, ip \<noteq> []),
      c\<lparr>cache := cache_Set C (cache c) t (redirect_cacheKey u d) (CStr ip) DefaultExpiration\<rparr>, r)"
  by (simp add: exec_done)

lemma exec_redirect_ask:
  assumes "Suc (length ps) < n"
  shows "exec C R (replicate n t) (RedirectAsk u d ps) c r =
     (case redisGetRedirectLoop R r (redirects_key u) ps of
        (Inl err, r') \<Rightarrow> (RedirectDone ([], False), c, r')
      | (Inr ip, r') \<Rightarrow> exec C R (replicate (Suc 0) t) (RedirectSet u d ip) c r')"
  using assms
proof (induction ps arbitrary: n r)
  case Nil
  then have "n = Suc (Suc (n - 2))" by simp
  then obtain m where "n = Suc (Suc m)" ..
  then show ?case by (simp add: redirect_ask_def exec_done)
next
  case (Cons p ps)
  then have "n = Suc (Suc (n - 2))" and "Suc (length ps) < Suc (n - 2)" by auto
  then obtain m where n: "n = Suc (Suc m)" "Suc (length ps) < Suc m" by blast
  obtain x r1 where g: "rdb_HGet R r (redirects_key u) p = (x, r1)" by (metis surj_pair)
  note IH = Cons.IH [OF n(2), of r1]
  show ?case
  proof (cases x)
    case (Inl e)
    with g n IH show ?thesis by (cases e) (simp_all add: redirect_ask_def exec_done)
  next
    case (Inr ip)
    with g n IH show ?thesis
      by (cases "ip = []") (simp_all add: redirect_ask_def exec_done)
  qed
qed

lemma exec_redirect_eq:
  assumes "11 < n"
  shows "exec C R (t0 # replicate n t1) (RedirectGet u d) c r =
     (let (res, c', r') = GetRedirect C R t0 t1 c r u d in (RedirectDone res, c', r'))"
proof -
  let ?d = "ToLower (TrimSuffix d ''.'')"
  have "Suc (length (generatePatterns ?d)) < n"
    using assms by (simp add: length_generatePatterns)
  note ask = exec_redirect_ask [OF this, of C R t1 u ?d c r]
  show ?thesis
  proof (cases "cache_Get C (cache c) t0 (redirect_cacheKey u ?d)")
    case None
    then show ?thesis
      by (auto simp: GetRedirect_def Let_def ask redisGetRedirect_def exec_done
          split: prod.splits sum.splits)
  next
    case (Some v)
    then show ?thesis by (cases v) (simp_all add: GetRedirect_def Let_def exec_done)
  qed
qed

lemma exec_set_eq:
  "exec C R (replicate (Suc (Suc n)) t) (SetHash u d ip) c r =
     (let (err, c', r') = SetRedirect C R c r u d ip in (SetDone err, c', r'))"
  by (auto simp: SetRedirect_def Let_def exec_done split: prod.splits option.splits)

lemma exec_remove_eq:
  "exec C R (replicate (Suc (Suc n)) t) (RemoveHash u d) c r =
     (let (err, c', r') = RemoveRedirect C R c r u d in (RemoveDone err, c', r'))"
  by (auto simp: RemoveRedirect_def Let_def exec_done split: prod.splits option.splits)

lemma exec_clear_delete:
  "length ks < n \<Longrightarrow>
   exec C R (replicate n t) (ClearDelete u ks) c r =
     (ClearDone, c\<lparr>cache := fold (\<lambda>k ca. cache_Delete C ca k) ks (cache c)\<rparr>, r)"
proof (induction ks arbitrary: n c)
  case Nil
  then show ?case by (cases n) (simp_all add: exec_done)
next
  case (Cons k ks)
  then obtain m where "n = Suc m" "length ks < m" by (cases n) auto
  with Cons.IH [of m] show ?case by simp
qed

lemma exec_clear_eq:
  assumes "length (cache_Items C (cache c) t0) < n"
  shows "exec C R (t0 # replicate n t1) (ClearList u) c r = (ClearDone, ClearUserCache C t0 c u, r)"
  using assms
  by (simp add: ClearUserCache_def Let_def exec_clear_delete le_less_trans [OF length_filter_le])

section \<open>Operations that interleave\<close>

datatype event =
    Asked time string string "string set" \<comment> \<open>a block list lookup and what it got to see\<close>
  | Stored time string string bool \<comment> \<open>a decision put into the cache\<close>
  | Answered time string string int \<comment> \<open>the answer of a \<open>Check\<close>\<close>
  | Listed nat string \<comment> \<open>an eviction has listed the keys (number of the operation, user)\<close>
  | Evicted nat string \<comment> \<open>an eviction has returned\<close>

definition op_events ::
  "('c, cache_val) cache_ops \<Rightarrow> 'r redis_client \<Rightarrow> ('r \<Rightarrow> string \<Rightarrow> string set) \<Rightarrow> nat \<Rightarrow> time \<Rightarrow>
   rule_op \<Rightarrow> 'c checker \<Rightarrow> 'r \<Rightarrow> event list" where
  "op_events C R sets_of i t op c r =
     (case op of
        CheckGet u d \<Rightarrow>
          (case cache_Get C (cache c) t (check_cacheKey u (norm_domain d)) of
             Some (CBool b) \<Rightarrow> [Answered t u (norm_domain d) (if b then 1 else 0)]
           | Some (CStr s) \<Rightarrow> []
           | None \<Rightarrow> if enabled c then [] else [Asked t u (norm_domain d) {}])
      | CheckAsk u d \<Rightarrow>
          [Asked t u d (if snd (fst (checkRedis R r d u)) = None then sets_of r (blocked_key u) else {})]
      | CheckSet u d b \<Rightarrow> [Answered t u d (if b then 1 else 0), Stored t u d b]
      | ClearList u \<Rightarrow> [Listed i u]
      | ClearDelete u ks \<Rightarrow> if ks = [] then [Evicted i u] else []
      | _ \<Rightarrow> [])"

record ('c, 'r) rule_sys =
  shared :: "'c checker"
  redis :: 'r
  ops :: "rule_op list"
  clock :: time
  history :: "event list"

fun op_call :: "rule_op \<Rightarrow> bool" where
  "op_call (CheckGet u d) = valid_user u"
| "op_call (RedirectGet u d) = True"
| "op_call (SetHash u d ip) = True"
| "op_call (RemoveHash u d) = True"
| "op_call (ClearList u) = True"
| "op_call _ = False"

inductive sys_step ::
  "('c, cache_val) cache_ops \<Rightarrow> 'r redis_client \<Rightarrow> ('r \<Rightarrow> string \<Rightarrow> string set) \<Rightarrow>
   ('c, 'r) rule_sys \<Rightarrow> ('c, 'r) rule_sys \<Rightarrow> bool"
  for C :: "('c, cache_val) cache_ops" and R :: "'r redis_client"
    and sets_of :: "'r \<Rightarrow> string \<Rightarrow> string set"
where
  call: "op_call op \<Longrightarrow> sys_step C R sets_of S (S\<lparr>ops := ops S @ [op]\<rparr>)"
| run: "i < length (ops S) \<Longrightarrow> clock S \<le> t \<Longrightarrow>
    op_step C R t (ops S ! i) (shared S) (redis S) = (op', c', r') \<Longrightarrow>
    sys_step C R sets_of S
      (S\<lparr>shared := c', redis := r', ops := (ops S)[i := op'], clock := t,
         history := op_events C R sets_of i t (ops S ! i) (shared S) (redis S) @ history S\<rparr>)"
| world: "clock S \<le> t \<Longrightarrow> sys_step C R sets_of S (S\<lparr>redis := r', clock := t\<rparr>)"

inductive sys_reach ::
  "('c, cache_val) cache_ops \<Rightarrow> 'r redis_client \<Rightarrow> ('r \<Rightarrow> string \<Rightarrow> string set) \<Rightarrow>
   ('c, 'r) rule_sys \<Rightarrow> bool"
  for C :: "('c, cache_val) cache_ops" and R :: "'r redis_client"
    and sets_of :: "'r \<Rightarrow> string \<Rightarrow> string set"
where
  start: "NewChecker C R r0 = (c, r) \<Longrightarrow> 0 \<le> t \<Longrightarrow>
    sys_reach C R sets_of \<lparr>shared = c, redis = r, ops = [], clock = t, history = []\<rparr>"
| step: "sys_reach C R sets_of S \<Longrightarrow> sys_step C R sets_of S S' \<Longrightarrow> sys_reach C R sets_of S'"

inductive_cases sys_stepE: "sys_step C R sets_of S S'"

section \<open>The invariant of every interleaving\<close>

text \<open>
  What the history says of each answer: it rests on a store of that decision at most 60 seconds
  old, and no eviction of the user that had returned by then began after that store. And of each
  store: it rests on a lookup that had been made before.
\<close>

definition event_ok :: "event list \<Rightarrow> event \<Rightarrow> bool" where
  "event_ok H ev \<longleftrightarrow>
     (case ev of
        Answered t u d a \<Rightarrow>
          (\<exists>A B ts b. H = A @ Stored ts u d b # B \<and> a = (if b then 1 else 0) \<and> t \<le> ts + 60 * second \<and>
             (\<forall>j. Evicted j u \<in> set H \<longrightarrow> Listed j u \<notin> set A))
      | Stored ts u d b \<Rightarrow>
          (\<exists>tl B. Asked tl u d B \<in> set H \<and> tl \<le> ts \<and> (b \<longleftrightarrow> blocked_spec defaultFallback B d))
      | _ \<Rightarrow> True)"

lemma event_ok_answered:
  assumes "t \<le> ts + 60 * second"
    and "\<And>j. Evicted j u \<in> set (A @ Stored ts u d b # B) \<Longrightarrow> Listed j u \<notin> set A"
  shows "event_ok (A @ Stored ts u d b # B) (Answered t u d (if b then 1 else 0))"
  using assms unfolding event_ok_def event.case by blast

fun history_ok :: "event list \<Rightarrow> bool" where
  "history_ok [] = True"
| "history_ok (ev # H) = (event_ok H ev \<and> history_ok H)"

text \<open>What the history says of the local variables of an operation in progress.\<close>

definition op_ok :: "time \<Rightarrow> event list \<Rightarrow> rule_op \<Rightarrow> bool" where
  "op_ok now H op \<longleftrightarrow>
     (case op of
        CheckGet u d \<Rightarrow> valid_user u
      | CheckAsk u d \<Rightarrow> valid_user u
      | CheckFallback u d b \<Rightarrow>
          valid_user u \<and> (\<exists>t B. Asked t u d B \<in> set H \<and> t \<le> now \<and>
                                (b \<longleftrightarrow> (\<exists>p \<in> B. p = d \<or> wildcard_match p d)))
      | CheckSet u d b \<Rightarrow>
          valid_user u \<and> (\<exists>t B. Asked t u d B \<in> set H \<and> t \<le> now \<and>
                                (b \<longleftrightarrow> blocked_spec defaultFallback B d))
      | CheckDone res \<Rightarrow> \<exists>t u d a. res = Inr a \<and> Answered t u d a \<in> set H
      | _ \<Rightarrow> True)"

text \<open>
  A decision in the cache that has not expired has its store in the history; an eviction of that
  user that has listed the keys since is still going to delete it.
\<close>

definition item_ok :: "rule_op list \<Rightarrow> event list \<Rightarrow> string \<Rightarrow> cache_val \<Rightarrow> time \<Rightarrow> bool" where
  "item_ok os H k v e \<longleftrightarrow>
     (case v of
        CStr s \<Rightarrow> \<exists>u d. k = redirect_cacheKey u d
      | CBool b \<Rightarrow>
          (\<exists>u d ts A B. valid_user u \<and> k = check_cacheKey u d \<and> H = A @ Stored ts u d b # B \<and>
             0 \<le> ts \<and> e = ts + 60 * second \<and>
             (\<forall>j. Listed j u \<in> set A \<longrightarrow>
                  j < length os \<and> (\<exists>ks. os ! j = ClearDelete u ks \<and> k \<in> set ks))))"

lemma item_okI:
  assumes "valid_user u" and "0 \<le> ts"
    and "\<And>j. Listed j u \<in> set A \<Longrightarrow>
           j < length os \<and> (\<exists>ks. os ! j = ClearDelete u ks \<and> check_cacheKey u d \<in> set ks)"
  shows "item_ok os (A @ Stored ts u d b # B) (check_cacheKey u d) (CBool b) (ts + 60 * second)"
  using assms unfolding item_ok_def cache_val.case by blast

lemma item_okE:
  assumes "item_ok os H k (CBool b) e"
  obtains u d ts A B where "valid_user u" "k = check_cacheKey u d" "H = A @ Stored ts u d b # B"
    "0 \<le> ts" "e = ts + 60 * second"
    "\<And>j. Listed j u \<in> set A \<Longrightarrow> j < length os \<and> (\<exists>ks. os ! j = ClearDelete u ks \<and> k \<in> set ks)"
  using assms unfolding item_ok_def cache_val.case by blast

definition evictions_ok :: "rule_op list \<Rightarrow> event list \<Rightarrow> bool" where
  "evictions_ok os H \<longleftrightarrow>
     (\<forall>j u. Evicted j u \<in> set H \<longrightarrow> j < length os \<and> os ! j = ClearDone)"

definition sys_inv ::
  "('c \<Rightarrow> string \<Rightarrow> (cache_val \<times> time) option) \<Rightarrow> ('c \<Rightarrow> time) \<Rightarrow> ('c, 'r) rule_sys \<Rightarrow> bool" where
  "sys_inv entry dflt S \<longleftrightarrow>
     0 \<le> clock S \<and> dflt (cache (shared S)) = 60 * second \<and>
     fallback (shared S) = defaultFallback \<and>
     (\<forall>k v e. entry (cache (shared S)) k = Some (v, e) \<longrightarrow> \<not> expired e (clock S) \<longrightarrow>
              item_ok (ops S) (history S) k v e) \<and>
     (\<forall>op \<in> set (ops S). op_ok (clock S) (history S) op) \<and>
     evictions_ok (ops S) (history S) \<and> history_ok (history S)"

lemma sys_invD:
  assumes "sys_inv entry dflt S"
  shows "0 \<le> clock S" and "dflt (cache (shared S)) = 60 * second"
    and "fallback (shared S) = defaultFallback"
    and "entry (cache (shared S)) k = Some (v, e) \<Longrightarrow> \<not> expired e (clock S) \<Longrightarrow>
         item_ok (ops S) (history S) k v e"
    and "i < length (ops S) \<Longrightarrow> op_ok (clock S) (history S) (ops S ! i)"
    and "op \<in> set (ops S) \<Longrightarrow> op_ok (clock S) (history S) op"
    and "evictions_ok (ops S) (history S)" and "history_ok (history S)"
  using assms by (auto simp: sys_inv_def)

lemma event_ok_stored:
  assumes "op_ok now H (CheckSet u d b)" and "now \<le> t"
  shows "event_ok H (Stored t u d b)"
proof -
  obtain t' B where "Asked t' u d B \<in> set H" "t' \<le> t" "b \<longleftrightarrow> blocked_spec defaultFallback B d"
    using assms by (auto simp: op_ok_def)
  then show ?thesis by (auto simp: event_ok_def)
qed

lemma op_ok_mono: "op_ok now H op \<Longrightarrow> now \<le> now' \<Longrightarrow> set H \<subseteq> set H' \<Longrightarrow> op_ok now' H' op"
  by (cases op) (auto simp: op_ok_def, (meson order_trans subsetD)+)

lemma expired_mono: "\<not> expired e t' \<Longrightarrow> t \<le> t' \<Longrightarrow> \<not> expired e t"
  by (auto simp: expired_def)

context checker_env
begin

lemma op_step_frame:
  assumes "op_step C R t op c r = (op', c', r')"
  shows "dflt (cache c') = dflt (cache c)" and "fallback c' = fallback c"
  using assms
  by (cases op; auto simp: Let_def dflt_Set dflt_Delete
      split: option.splits cache_val.splits prod.splits list.splits)+

text \<open>Where an entry of the cache comes from after a step.\<close>

lemma op_step_entry:
  assumes "op_step C R t op c r = (op', c', r')" and "entry (cache c') k = Some (v, e)"
  shows "entry (cache c) k = Some (v, e) \<and>
           (\<forall>u ks. op = ClearDelete u ks \<longrightarrow> k \<in> set ks \<longrightarrow>
                   (\<exists>ks'. op' = ClearDelete u ks' \<and> k \<in> set ks')) \<or>
         (\<exists>u d b. op = CheckSet u d b \<and> k = check_cacheKey u d \<and> v = CBool b \<and>
                  e = expiry (dflt (cache c)) t DefaultExpiration) \<or>
         (\<exists>u d ip. op = RedirectSet u d ip \<and> k = redirect_cacheKey u d \<and> v = CStr ip)"
  using assms
  by (cases op; auto simp: Let_def entry_Set entry_Delete
      split: option.splits cache_val.splits prod.splits list.splits if_splits)

lemma op_step_keeps_op_ok:
  assumes st: "op_step C R t op c r = (op', c', r')"
    and ok: "op_ok now H op" and "now \<le> t" and fb: "fallback c = defaultFallback"
    and bools: "\<And>u d s. valid_user u \<Longrightarrow> cache_Get C (cache c) t (check_cacheKey u d) \<noteq> Some (CStr s)"
  shows "op_ok t (op_events C R sets_of i t op c r @ H) op'"
proof (cases op)
  case (CheckGet u d)
  then show ?thesis
    using st ok bools [of u "norm_domain d"] fb
    by (auto simp: op_ok_def op_events_def Let_def norm_domain_def
        split: option.splits cache_val.splits if_splits; (blast | rule exI [of _ t], rule exI [of _ "{}"], simp))
next
  case (CheckAsk u d)
  obtain b err r1 where cr: "checkRedis R r d u = ((b, err), r1)" by (metis surj_pair)
  then have "b \<longleftrightarrow> (\<exists>p \<in> (if err = None then sets_of r (blocked_key u) else {}). p = d \<or> wildcard_match p d)"
    using checkRedis_answer [OF cr] by auto
  moreover have "op' = CheckFallback u d b" using CheckAsk cr st by simp
  ultimately show ?thesis
    using CheckAsk cr ok by (auto simp: op_ok_def op_events_def)
next
  case (CheckFallback u d b)
  then obtain t' B where "valid_user u" "Asked t' u d B \<in> set H" "t' \<le> t"
    "b \<longleftrightarrow> (\<exists>p \<in> B. p = d \<or> wildcard_match p d)"
    using ok \<open>now \<le> t\<close> by (auto simp: op_ok_def)
  moreover have "op' = CheckSet u d (b \<or> fallback_match defaultFallback d)"
    using CheckFallback st fb by (cases "b \<or> fallback_match defaultFallback d") (auto simp: fallbackCheck_iff)
  ultimately show ?thesis
    by (auto simp: op_ok_def blocked_spec_def)
next
  case (RedirectAsk u d ps)
  then show ?thesis using st
    by (auto simp: op_ok_def redirect_ask_def Let_def
        split: prod.splits list.splits sum.splits redis_error.splits if_splits)
next
  case (CheckDone res)
  then show ?thesis using st ok by (auto simp: op_ok_def) blast
next
  case (CheckSet u d b)
  then show ?thesis using st by (auto simp: op_ok_def op_events_def; blast)
qed (use st in \<open>auto simp: op_ok_def Let_def split: option.splits cache_val.splits prod.splits list.splits\<close>)


lemma item_ok_run:
  assumes "item_ok os H k v e" and live: "\<not> expired e t" "entry (cache c) k = Some (v, e)"
    and st: "op_step C R t (os ! i) c r = (op', c', r')" and i: "i < length os"
    and del: "\<And>u ks. os ! i = ClearDelete u ks \<Longrightarrow> k \<in> set ks \<Longrightarrow>
                    \<exists>ks'. op' = ClearDelete u ks' \<and> k \<in> set ks'"
  shows "item_ok (os[i := op']) (op_events C R sets_of i t (os ! i) c r @ H) k v e"
proof (cases v)
  case (CStr s)
  with assms(1) show ?thesis by (simp add: item_ok_def)
next
  case (CBool b)
  with assms(1) have "item_ok os H k (CBool b) e" by simp
  then obtain u d ts A B where u: "valid_user u" "k = check_cacheKey u d"
    and H: "H = A @ Stored ts u d b # B" and e: "0 \<le> ts" "e = ts + 60 * second"
    and pend: "\<And>j. Listed j u \<in> set A \<Longrightarrow> j < length os \<and> (\<exists>ks. os ! j = ClearDelete u ks \<and> k \<in> set ks)"
    by (rule item_okE) blast
  let ?A = "op_events C R sets_of i t (os ! i) c r @ A"
  have "j < length (os[i := op']) \<and> (\<exists>ks. os[i := op'] ! j = ClearDelete u ks \<and> k \<in> set ks)"
    if "Listed j u \<in> set ?A" for j
  proof (cases "Listed j u \<in> set A")
    case True
    with pend obtain ks where "j < length os" "os ! j = ClearDelete u ks" "k \<in> set ks" by blast
    then show ?thesis using del by (cases "j = i") auto
  next
    case False
    with that have "os ! i = ClearList u" "j = i"
      by (auto simp: op_events_def split: rule_op.splits option.splits cache_val.splits if_splits)
    moreover have "k \<in> set (cache_Items C (cache c) t)"
      using live by (simp add: Items_live live_def)
    moreover have "HasPrefix k (u @ '':'')"
      using u(2) by (simp add: HasPrefix_iff check_cacheKey_def)
    ultimately show ?thesis using st i by auto
  qed
  moreover have "op_events C R sets_of i t (os ! i) c r @ H = ?A @ Stored ts u d b # B"
    using H by simp
  ultimately show ?thesis using u e CBool item_okI [of u ts ?A "os[i := op']" d b B] by simp
qed


lemma run_item_ok:
  assumes inv: "sys_inv entry dflt S" and i: "i < length (ops S)" and t: "clock S \<le> t"
    and st: "op_step C R t (ops S ! i) (shared S) (redis S) = (op', c', r')"
    and en: "entry (cache c') k = Some (v, e)" and live: "\<not> expired e t"
  shows "item_ok ((ops S)[i := op'])
           (op_events C R sets_of i t (ops S ! i) (shared S) (redis S) @ history S) k v e"
  using op_step_entry [OF st en]
proof (elim disjE exE conjE)
  assume old: "entry (cache (shared S)) k = Some (v, e)"
    and del: "\<forall>u ks. ops S ! i = ClearDelete u ks \<longrightarrow> k \<in> set ks \<longrightarrow>
                 (\<exists>ks'. op' = ClearDelete u ks' \<and> k \<in> set ks')"
  have "item_ok (ops S) (history S) k v e"
    using sys_invD(4) [OF inv old] live t by (blast dest: expired_mono)
  then show ?thesis using live old st i del by (blast intro: item_ok_run)
next
  fix u d b
  assume cs: "ops S ! i = CheckSet u d b" and "k = check_cacheKey u d" "v = CBool b"
    and "e = expiry (dflt (cache (shared S))) t DefaultExpiration"
  moreover have "valid_user u"
    using sys_invD(5) [OF inv i] cs by (simp add: op_ok_def)
  moreover have "0 \<le> t" using sys_invD(1) [OF inv] t by simp
  ultimately show ?thesis
    using sys_invD(2) [OF inv]
      item_okI [of u t "[Answered t u d (if b then 1 else 0)]" "(ops S)[i := op']" d b "history S"]
    by (simp add: op_events_def expiry_def)
qed (auto simp: item_ok_def)

lemma Get_no_string:
  assumes inv: "sys_inv entry dflt S" and t: "clock S \<le> t" and "valid_user u"
  shows "cache_Get C (cache (shared S)) t (check_cacheKey u d) \<noteq> Some (CStr s)"
proof
  assume "cache_Get C (cache (shared S)) t (check_cacheKey u d) = Some (CStr s)"
  then obtain e where "entry (cache (shared S)) (check_cacheKey u d) = Some (CStr s, e)"
    and "\<not> expired e t"
    by (auto simp: Get_live dest: live_SomeD)
  then have "item_ok (ops S) (history S) (check_cacheKey u d) (CStr s) e"
    using sys_invD(4) [OF inv] t by (blast dest: expired_mono)
  with \<open>valid_user u\<close> show False by (auto simp: item_ok_def check_redirect_key_neq)
qed

lemma hit_event_ok:
  assumes inv: "sys_inv entry dflt S" and t: "clock S \<le> t" and u: "valid_user u"
    and hit: "cache_Get C (cache (shared S)) t (check_cacheKey u d) = Some (CBool b)"
  shows "event_ok (history S) (Answered t u d (if b then 1 else 0))"
proof -
  obtain e where en: "entry (cache (shared S)) (check_cacheKey u d) = Some (CBool b, e)"
    and e: "\<not> expired e t"
    using hit by (auto simp: Get_live dest: live_SomeD)
  have "item_ok (ops S) (history S) (check_cacheKey u d) (CBool b) e"
    using sys_invD(4) [OF inv en] e t by (blast dest: expired_mono)
  then obtain u' d' ts A B where "valid_user u'" "check_cacheKey u d = check_cacheKey u' d'"
    and H: "history S = A @ Stored ts u' d' b # B" and ts: "0 \<le> ts" "e = ts + 60 * second"
    and pend: "\<And>j. Listed j u' \<in> set A \<Longrightarrow> j < length (ops S) \<and>
                   (\<exists>ks. ops S ! j = ClearDelete u' ks \<and> check_cacheKey u d \<in> set ks)"
    by (rule item_okE) blast
  with u have eq: "u' = u" "d' = d" by (simp_all add: check_cacheKey_inj)
  have "Listed j u \<notin> set A" if "Evicted j u \<in> set (history S)" for j
    using that sys_invD(7) [OF inv] pend [of j] by (auto simp: evictions_ok_def eq)
  with H ts e event_ok_answered [of t ts u A d b B] show ?thesis
    by (simp add: expired_def eq)
qed

lemma run_history_ok:
  assumes inv: "sys_inv entry dflt S" and i: "i < length (ops S)" and t: "clock S \<le> t"
  shows "history_ok (op_events C R sets_of i t (ops S ! i) (shared S) (redis S) @ history S)"
proof (cases "ops S ! i")
  case (CheckGet u d)
  with sys_invD(5) [OF inv i] have u: "valid_user u" by (simp add: op_ok_def)
  have "event_ok (history S) (Asked t u (norm_domain d) {})" by (simp add: event_ok_def)
  with CheckGet u sys_invD(8) [OF inv] show ?thesis
    by (simp add: op_events_def hit_event_ok [OF inv t] split: option.split cache_val.split)
next
  case (CheckSet u d b)
  with sys_invD(5) [OF inv i] t have "event_ok (history S) (Stored t u d b)"
    by (intro event_ok_stored) simp_all
  moreover have "event_ok (Stored t u d b # history S) (Answered t u d (if b then 1 else 0))"
    using event_ok_answered [of t t u "[]" d b "history S"] by simp
  ultimately show ?thesis using CheckSet sys_invD(8) [OF inv] by (simp add: op_events_def)
qed (use sys_invD(8) [OF inv] in \<open>simp_all add: op_events_def event_ok_def\<close>)


lemma run_evictions_ok:
  assumes ev: "evictions_ok os H" and i: "i < length os"
    and st: "op_step C R t (os ! i) c r = (op', c', r')"
  shows "evictions_ok (os[i := op']) (op_events C R sets_of i t (os ! i) c r @ H)"
proof -
  have new: "j = i \<and> op' = ClearDone" if "Evicted j u \<in> set (op_events C R sets_of i t (os ! i) c r)" for j u
    using that st
    by (auto simp: op_events_def split: rule_op.splits option.splits cache_val.splits if_splits)
  have "op' = ClearDone" if "os ! i = ClearDone" using that st by simp
  with ev i new show ?thesis by (auto simp: evictions_ok_def nth_list_update)
qed

lemma sys_inv_run:
  assumes inv: "sys_inv entry dflt S" and i: "i < length (ops S)" and t: "clock S \<le> t"
    and st: "op_step C R t (ops S ! i) (shared S) (redis S) = (op', c', r')"
  shows "sys_inv entry dflt
      (S\<lparr>shared := c', redis := r', ops := (ops S)[i := op'], clock := t,
         history := op_events C R sets_of i t (ops S ! i) (shared S) (redis S) @ history S\<rparr>)"
    (is "sys_inv _ _ ?S'")
proof -
  let ?H = "op_events C R sets_of i t (ops S ! i) (shared S) (redis S) @ history S"
  have "op_ok t ?H op'"
    using sys_invD(5) [OF inv i] t sys_invD(3) [OF inv] Get_no_string [OF inv t]
    by (intro op_step_keeps_op_ok [OF st]) simp_all
  moreover have "op_ok t ?H op" if "op \<in> set (ops S)" for op
    using sys_invD(6) [OF inv that] t by (rule op_ok_mono) simp
  ultimately have "\<forall>op \<in> set ((ops S)[i := op']). op_ok t ?H op"
    using set_update_subset_insert [of "ops S" i op'] by blast
  moreover have "item_ok ((ops S)[i := op']) ?H k v e"
    if "entry (cache c') k = Some (v, e)" "\<not> expired e t" for k v e
    using run_item_ok [OF inv i t st that] .
  ultimately show ?thesis
    using sys_invD(1-3) [OF inv] t op_step_frame [OF st] run_history_ok [OF inv i t]
      run_evictions_ok [OF sys_invD(7) [OF inv] i st]
    by (simp add: sys_inv_def)
qed

lemma sys_inv_call:
  assumes inv: "sys_inv entry dflt S" and "op_call op"
  shows "sys_inv entry dflt (S\<lparr>ops := ops S @ [op]\<rparr>)"
proof -
  have grow: "item_ok (os @ [op]) H k v e" if "item_ok os H k v e" for os H k v e
  proof (cases v)
    case (CBool b)
    with that show ?thesis
      by (auto elim!: item_okE intro!: item_okI simp: nth_append)
  qed (use that in \<open>simp add: item_ok_def\<close>)
  have "op_ok (clock S) (history S) op" using assms(2) by (cases op) (simp_all add: op_ok_def)
  with inv show ?thesis by (auto simp: sys_inv_def evictions_ok_def nth_append intro: grow)
qed

lemma sys_inv_world:
  assumes "sys_inv entry dflt S" and "clock S \<le> t"
  shows "sys_inv entry dflt (S\<lparr>redis := r', clock := t\<rparr>)"
  using assms by (auto simp: sys_inv_def dest: expired_mono intro: op_ok_mono)

lemma sys_reach_inv: "sys_reach C R sets_of S \<Longrightarrow> sys_inv entry dflt S"
proof (induction rule: sys_reach.induct)
  case (start r0 c r t)
  from rule_inv_NewChecker [OF this] show ?case
    using start by (auto simp: NewChecker_def Let_def rule_inv_def sys_inv_def evictions_ok_def
        entry_New split: prod.splits option.splits)
next
  case (step S S')
  from step(2,3) show ?case
    by (elim sys_stepE) (auto intro: sys_inv_run sys_inv_call sys_inv_world)
qed

end

lemma history_ok_split: "history_ok (A @ ev # B) \<Longrightarrow> event_ok B ev"
  by (induction A) simp_all

section \<open>Since a quiet moment\<close>

text \<open>
  From a state in which no check of the user has made its lookup without having stored its
  decision, everything stored for the user rests on lookups made since.
\<close>

definition past_lookup :: "string \<Rightarrow> rule_op \<Rightarrow> bool" where
  "past_lookup u op \<longleftrightarrow> (\<exists>d b. op = CheckFallback u d b \<or> op = CheckSet u d b)"

fun stores_ok :: "string \<Rightarrow> event list \<Rightarrow> bool" where
  "stores_ok u [] = True"
| "stores_ok u (ev # K) = ((\<forall>ts d b. ev = Stored ts u d b \<longrightarrow> event_ok K ev) \<and> stores_ok u K)"

definition since_quiet :: "string \<Rightarrow> event list \<Rightarrow> ('c, 'r) rule_sys \<Rightarrow> bool" where
  "since_quiet u H0 S \<longleftrightarrow>
     (\<exists>K. history S = K @ H0 \<and> stores_ok u K \<and>
          (\<forall>op \<in> set (ops S). past_lookup u op \<longrightarrow> op_ok (clock S) K op))"

lemma stores_ok_split: "stores_ok u (A @ Stored ts u d b # B) \<Longrightarrow> event_ok B (Stored ts u d b)"
  by (induction A) simp_all

lemma stores_ok_no_store:
  "\<forall>ts d b. Stored ts u d b \<notin> set es \<Longrightarrow> stores_ok u (es @ K) \<longleftrightarrow> stores_ok u K"
  by (induction es) auto

context checker_env
begin

lemma run_since_quiet:
  assumes inv: "sys_inv entry dflt S" and q: "since_quiet u H0 S"
    and i: "i < length (ops S)" and t: "clock S \<le> t"
    and st: "op_step C R t (ops S ! i) (shared S) (redis S) = (op', c', r')"
  shows "since_quiet u H0
      (S\<lparr>shared := c', redis := r', ops := (ops S)[i := op'], clock := t,
         history := op_events C R sets_of i t (ops S ! i) (shared S) (redis S) @ history S\<rparr>)"
proof -
  let ?ev = "op_events C R sets_of i t (ops S ! i) (shared S) (redis S)"
  obtain K where H: "history S = K @ H0" and K: "stores_ok u K"
    and ops: "\<And>op. op \<in> set (ops S) \<Longrightarrow> past_lookup u op \<Longrightarrow> op_ok (clock S) K op"
    using q by (auto simp: since_quiet_def)
  have "stores_ok u (?ev @ K)"
  proof (cases "\<exists>d b. ops S ! i = CheckSet u d b")
    case True
    then obtain d b where cs: "ops S ! i = CheckSet u d b" by blast
    have "op_ok (clock S) K (CheckSet u d b)"
      using ops [OF nth_mem [OF i]] by (simp add: cs past_lookup_def)
    then have "event_ok K (Stored t u d b)" using t by (rule event_ok_stored)
    with K show ?thesis by (simp add: cs op_events_def)
  next
    case False
    then have "\<forall>ts d b. Stored ts u d b \<notin> set ?ev"
      by (auto simp: op_events_def split: rule_op.splits option.splits cache_val.splits if_splits)
    with K show ?thesis by (simp add: stores_ok_no_store)
  qed
  moreover have "op_ok t (?ev @ K) op'" if "past_lookup u op'"
  proof (rule op_step_keeps_op_ok [OF st _ t sys_invD(3) [OF inv] Get_no_string [OF inv t]])
    show "op_ok (clock S) K (ops S ! i)"
    proof (cases "past_lookup u (ops S ! i)")
      case True
      with ops i show ?thesis by simp
    next
      case False
      with that st obtain v d where "ops S ! i = CheckGet v d \<or> ops S ! i = CheckAsk v d"
        by (cases "ops S ! i")
          (auto simp: past_lookup_def redirect_ask_def Let_def
            split: option.splits cache_val.splits prod.splits list.splits sum.splits redis_error.splits if_splits)
      with sys_invD(5) [OF inv i] show ?thesis by (auto simp: op_ok_def)
    qed
  qed
  moreover have "op_ok t (?ev @ K) op" if "op \<in> set (ops S)" "past_lookup u op" for op
    using ops [OF that] t by (rule op_ok_mono) simp
  ultimately have "\<forall>op \<in> set ((ops S)[i := op']). past_lookup u op \<longrightarrow> op_ok t (?ev @ K) op"
    using set_update_subset_insert [of "ops S" i op'] by blast
  with \<open>stores_ok u (?ev @ K)\<close> H show ?thesis
    unfolding since_quiet_def by (intro exI [of _ "?ev @ K"]) simp
qed

lemma step_since_quiet:
  assumes "sys_inv entry dflt S" and "since_quiet u H0 S" and "sys_step C R sets_of S S'"
  shows "since_quiet u H0 S'"
  using assms(3)
proof (cases rule: sys_step.cases)
  case (call op)
  have "\<not> past_lookup u op" using call(2) by (cases op) (auto simp: past_lookup_def)
  with assms(2) call show ?thesis by (auto simp: since_quiet_def)
next
  case (run i t op' c' r')
  with run_since_quiet [OF assms(1,2)] show ?thesis by simp
next
  case (world t r')
  with assms(2) show ?thesis by (auto simp: since_quiet_def intro: op_ok_mono)
qed

lemma steps_since_quiet:
  assumes "(sys_step C R sets_of)\<^sup>*\<^sup>* S0 S" and "sys_reach C R sets_of S0"
    and "\<forall>op \<in> set (ops S0). \<not> past_lookup u op"
  shows "sys_reach C R sets_of S \<and> since_quiet u (history S0) S"
  using assms
proof (induction rule: rtranclp_induct)
  case base
  then show ?case by (auto simp: since_quiet_def)
next
  case (step S S')
  then show ?case using sys_reach.step step_since_quiet sys_reach_inv by blast
qed

text \<open>The store an answer rests on, and the lookup that store rests on.\<close>

lemma answer_support:
  assumes "sys_reach C R sets_of S" and "history S = H' @ Answered t u d a # H"
  obtains A B ts b where "H = A @ Stored ts u d b # B" "a = (if b then 1 else 0)" "t \<le> ts + 60 * second"
    "\<forall>j. Evicted j u \<in> set H \<longrightarrow> Listed j u \<notin> set A" "event_ok B (Stored ts u d b)"
proof -
  have ok: "history_ok (H' @ Answered t u d a # H)"
    using sys_invD(8) [OF sys_reach_inv [OF assms(1)]] assms(2) by simp
  obtain A B ts b where H: "H = A @ Stored ts u d b # B" and rest: "a = (if b then 1 else 0)" "t \<le> ts + 60 * second"
    "\<forall>j. Evicted j u \<in> set H \<longrightarrow> Listed j u \<notin> set A"
    using history_ok_split [OF ok] unfolding event_ok_def event.case by blast
  have "event_ok B (Stored ts u d b)"
    using ok unfolding H by (intro history_ok_split [of "H' @ Answered t u d a # A"]) simp
  with H rest show ?thesis by (rule that)
qed

end

section \<open>A late store\<close>

lemma reach_run:
  assumes "sys_reach C R sets_of S" and "i < length (ops S)" and "clock S \<le> t"
    and "op_step C R t (ops S ! i) (shared S) (redis S) = (op', c', r')"
    and "S' = S\<lparr>shared := c', redis := r', ops := (ops S)[i := op'], clock := t,
                history := op_events C R sets_of i t (ops S ! i) (shared S) (redis S) @ history S\<rparr>"
  shows "sys_reach C R sets_of S'"
  using sys_reach.step [OF assms(1) sys_step.run [OF assms(2-4)]] assms(5) by simp

lemma reach_call:
  "sys_reach C R sets_of S \<Longrightarrow> op_call op \<Longrightarrow> S' = S\<lparr>ops := ops S @ [op]\<rparr> \<Longrightarrow>
   sys_reach C R sets_of S'"
  using sys_reach.step [OF _ sys_step.call] by fast

lemma reach_world:
  "sys_reach C R sets_of S \<Longrightarrow> clock S \<le> t \<Longrightarrow> S' = S\<lparr>redis := r', clock := t\<rparr> \<Longrightarrow>
   sys_reach C R sets_of S'"
  using sys_reach.step [OF _ sys_step.world] by fast

text \<open>Steps in the course of which a condition holds in every state.\<close>

definition steps_while ::
  "(('c, 'r) rule_sys \<Rightarrow> bool) \<Rightarrow> ('c, cache_val) cache_ops \<Rightarrow> 'r redis_client \<Rightarrow> ('r \<Rightarrow> string \<Rightarrow> string set) \<Rightarrow>
   ('c, 'r) rule_sys \<Rightarrow> ('c, 'r) rule_sys \<Rightarrow> bool" where
  "steps_while P C R sets_of S S' \<longleftrightarrow> P S \<and> sys_step C R sets_of S S' \<and> P S'"

definition list_blocks :: "('r \<Rightarrow> string \<Rightarrow> string set) \<Rightarrow> string \<Rightarrow> string \<Rightarrow> ('c, 'r) rule_sys \<Rightarrow> bool" where
  "list_blocks sets_of u d S \<longleftrightarrow> blocked_spec defaultFallback (sets_of (redis S) (blocked_key u)) d"

lemma steps_while_run:
  assumes "(steps_while P C R sets_of)\<^sup>*\<^sup>* S0 S" and "i < length (ops S)" and "clock S \<le> t"
    and "op_step C R t (ops S ! i) (shared S) (redis S) = (op', c', r')"
    and "S' = S\<lparr>shared := c', redis := r', ops := (ops S)[i := op'], clock := t,
                history := op_events C R sets_of i t (ops S ! i) (shared S) (redis S) @ history S\<rparr>"
    and "P S" and "P S'"
  shows "(steps_while P C R sets_of)\<^sup>*\<^sup>* S0 S'"
  using rtranclp.rtrancl_into_rtrancl [OF assms(1), of S'] sys_step.run [OF assms(2-4)] assms(5-7)
  by (simp add: steps_while_def)

lemma steps_while_reach:
  "(steps_while P C R sets_of)\<^sup>*\<^sup>* S0 S \<Longrightarrow> sys_reach C R sets_of S0 \<Longrightarrow> sys_reach C R sets_of S"
  by (induction rule: rtranclp_induct) (auto simp: steps_while_def intro: sys_reach.step)

context checker_env
begin

text \<open>A new checker has nothing in its cache.\<close>

lemma new_checker_fresh:
  assumes "NewChecker C R r0 = (c, r)"
  shows "fallback c = defaultFallback" and "cache_Get C (cache c) t k = None" and "cache_Items C (cache c) t = []"
proof -
  have e: "entry (cache c) = (\<lambda>_. None)" and "fallback c = defaultFallback"
    using assms by (auto simp: NewChecker_def Let_def entry_New defaultFallback_def fun_eq_iff
        split: prod.splits option.splits)
  then show "fallback c = defaultFallback" "cache_Get C (cache c) t k = None" by (simp_all add: Get_live)
  show "cache_Items C (cache c) t = []" using Items_live [of "cache c" t] e by simp
qed

lemma late_store_lookup:
  assumes new: "NewChecker C R r0 = (c, r)" and en: "enabled c" and "0 \<le> t" and u: "valid_user u"
    and before: "\<not> blocked_spec defaultFallback (sets_of rA (blocked_key u)) (norm_domain d)"
  shows "\<exists>B. \<not> blocked_spec defaultFallback B (norm_domain d) \<and> sys_reach C R sets_of
     \<lparr>shared = c, redis = rB, ops = [CheckFallback u (norm_domain d) False, ClearList u], clock = t,
      history = [Asked t u (norm_domain d) B]\<rparr>"
proof -
  let ?d = "norm_domain d"
  obtain b err rA' where cr: "checkRedis R rA ?d u = ((b, err), rA')" by (metis surj_pair)
  have b: "\<not> b" and fm: "\<not> fallback_match defaultFallback ?d"
    using checkRedis_answer [OF cr] before by (auto simp: blocked_spec_def)
  note c = new_checker_fresh [OF new]
  let ?B = "if err = None then sets_of rA (blocked_key u) else {}"
  let ?S = "\<lambda>r os H. \<lparr>shared = c, redis = r, ops = os, clock = t, history = H\<rparr>"
  let ?ask = "Asked t u ?d ?B"
  have "sys_reach C R sets_of (?S r [] [])" using new \<open>0 \<le> t\<close> by (rule sys_reach.start)
  then have "sys_reach C R sets_of (?S r [CheckGet u d] [])" by (rule reach_call) (use u in simp_all)
  then have "sys_reach C R sets_of (?S r [CheckGet u d, ClearList u] [])" by (rule reach_call) simp_all
  then have "sys_reach C R sets_of (?S r [CheckAsk u ?d, ClearList u] [])"
    by (rule reach_run [where i = 0 and t = t])
      (simp_all add: Let_def norm_domain_def op_events_def c en)
  then have "sys_reach C R sets_of (?S rA [CheckAsk u ?d, ClearList u] [])"
    by (rule reach_world [where t = t]) simp_all
  then have "sys_reach C R sets_of (?S rA' [CheckFallback u ?d False, ClearList u] [?ask])"
    by (rule reach_run [where i = 0 and t = t]) (use cr b in \<open>simp_all add: op_events_def\<close>)
  then have "sys_reach C R sets_of (?S rB [CheckFallback u ?d False, ClearList u] [?ask])"
    by (rule reach_world [where t = t]) simp_all
  moreover have "\<not> blocked_spec defaultFallback ?B ?d" using before fm by (simp add: blocked_spec_def)
  ultimately show ?thesis by (intro exI [of _ ?B]) simp
qed

lemma late_store_rest:
  assumes new: "NewChecker C R r0 = (c, r)" and fm: "\<not> fallback_match defaultFallback d" and P: "\<And>os H c'. P
     \<lparr>shared = c', redis = rB, ops = os, clock = t, history = H\<rparr>"
  shows "(steps_while P C R sets_of)\<^sup>*\<^sup>*
     \<lparr>shared = c, redis = rB, ops = [CheckFallback u d False, ClearList u], clock = t, history = H\<rparr>
     \<lparr>shared = c\<lparr>cache := cache_Set C (cache c) t (check_cacheKey u d) (CBool False) DefaultExpiration\<rparr>,
      redis = rB, ops = [CheckDone (Inr 0), ClearDone], clock = t,
      history = [Answered t u d 0, Stored t u d False, Evicted 1 u, Listed 1 u] @ H\<rparr>"
proof -
  note c = new_checker_fresh [OF new]
  let ?S = "\<lambda>os H. \<lparr>shared = c, redis = rB, ops = os, clock = t, history = H\<rparr>"
  let ?run = "(steps_while P C R sets_of)\<^sup>*\<^sup>* (?S [CheckFallback u d False, ClearList u] H)"
  have "?run (?S [CheckFallback u d False, ClearList u] H)" by simp
  then have "?run (?S [CheckFallback u d False, ClearDelete u []] (Listed 1 u # H))"
    by (rule steps_while_run [where i = 1 and t = t]) (simp_all add: op_events_def c P)
  then have "?run (?S [CheckFallback u d False, ClearDone] (Evicted 1 u # Listed 1 u # H))"
    by (rule steps_while_run [where i = 1 and t = t]) (simp_all add: op_events_def P)
  then have "?run (?S [CheckSet u d False, ClearDone] (Evicted 1 u # Listed 1 u # H))"
    by (rule steps_while_run [where i = 0 and t = t]) (use fm in \<open>simp_all add: op_events_def fallbackCheck_iff c P\<close>)
  then show ?thesis
    by (rule steps_while_run [where i = 0 and t = t]) (simp_all add: op_events_def P)
qed

text \<open>A run from the start: an eviction, then a check.\<close>

lemma steps_run:
  assumes "(sys_step C R sets_of)\<^sup>*\<^sup>* S0 S" and "i < length (ops S)" and "clock S \<le> t"
    and "op_step C R t (ops S ! i) (shared S) (redis S) = (op', c', r')"
    and "S' = S\<lparr>shared := c', redis := r', ops := (ops S)[i := op'], clock := t,
                history := op_events C R sets_of i t (ops S ! i) (shared S) (redis S) @ history S\<rparr>"
  shows "(sys_step C R sets_of)\<^sup>*\<^sup>* S0 S'"
  using rtranclp.rtrancl_into_rtrancl [OF assms(1) sys_step.run [OF assms(2-4)]] assms(5) by simp

lemma steps_call:
  "(sys_step C R sets_of)\<^sup>*\<^sup>* S0 S \<Longrightarrow> op_call op \<Longrightarrow> S' = S\<lparr>ops := ops S @ [op]\<rparr> \<Longrightarrow>
   (sys_step C R sets_of)\<^sup>*\<^sup>* S0 S'"
  by (simp add: rtranclp.rtrancl_into_rtrancl sys_step.call)

lemma evict_then_check_run:
  assumes new: "NewChecker C R r0 = (c, r)" and en: "enabled c" and "0 \<le> t" and u: "valid_user u"
  shows "\<exists>S B a. (sys_step C R sets_of)\<^sup>*\<^sup>* \<lparr>shared = c, redis = r, ops = [], clock = t, history = []\<rparr> S \<and>
     history S = [] @ Answered t u (norm_domain d) a #
       [Stored t u (norm_domain d) (a = 1), Asked t u (norm_domain d) B, Evicted 0 u, Listed 0 u] @ []"
proof -
  let ?d = "norm_domain d"
  obtain b err r' where cr: "checkRedis R r ?d u = ((b, err), r')" by (metis surj_pair)
  note c = new_checker_fresh [OF new]
  let ?B = "if err = None then sets_of r (blocked_key u) else {}"
  let ?b = "b \<or> fallback_match defaultFallback ?d"
  let ?S = "\<lambda>r os H. \<lparr>shared = c, redis = r, ops = os, clock = t, history = H\<rparr>"
  let ?run = "(sys_step C R sets_of)\<^sup>*\<^sup>* (?S r [] [])"
  let ?ev = "[Evicted 0 u, Listed 0 u]" and ?ask = "Asked t u ?d ?B"
  have "?run (?S r [] [])" by simp
  then have "?run (?S r [ClearList u] [])" by (rule steps_call) simp_all
  then have "?run (?S r [ClearDelete u []] [Listed 0 u])"
    by (rule steps_run [where i = 0 and t = t]) (simp_all add: op_events_def c)
  then have "?run (?S r [ClearDone] ?ev)"
    by (rule steps_run [where i = 0 and t = t]) (simp_all add: op_events_def)
  then have "?run (?S r [ClearDone, CheckGet u d] ?ev)" by (rule steps_call) (use u in simp_all)
  then have "?run (?S r [ClearDone, CheckAsk u ?d] ?ev)"
    by (rule steps_run [where i = 1 and t = t]) (simp_all add: Let_def norm_domain_def op_events_def c en)
  then have "?run (?S r' [ClearDone, CheckFallback u ?d b] (?ask # ?ev))"
    by (rule steps_run [where i = 1 and t = t]) (use cr in \<open>simp_all add: op_events_def\<close>)
  then have "?run (?S r' [ClearDone, CheckSet u ?d ?b] (?ask # ?ev))"
    by (rule steps_run [where i = 1 and t = t]) (simp_all add: op_events_def fallbackCheck_iff c)
  then have "?run (?S r' [ClearDone, CheckDone (Inr (if ?b then 1 else 0))]
        (Answered t u ?d (if ?b then 1 else 0) # Stored t u ?d ?b # ?ask # ?ev)
      \<lparr>shared := c\<lparr>cache := cache_Set C (cache c) t (check_cacheKey u ?d) (CBool ?b) DefaultExpiration\<rparr>\<rparr>)"
    by (rule steps_run [where i = 1 and t = t]) (simp_all add: op_events_def)
  then show ?thesis
    by (intro exI [of _ ?B] exI [of _ "if ?b then 1 else 0"] exI conjI) (assumption, simp)
qed

lemma late_store_stale:
  assumes "NewChecker C R r0 = (c, r)" and "0 \<le> t" and "t' \<le> t + 60 * second"
  shows "fst (Check C R t' t'' (c\<lparr>cache := cache_Set C (cache c) t (check_cacheKey u (norm_domain d))
                (CBool False) DefaultExpiration\<rparr>) rB u d) = Inr 0"
proof -
  have "dflt (cache c) = 60 * second" using rule_inv_NewChecker [OF assms(1,2)] by (rule rule_invD)
  with assms show ?thesis by (simp add: Check_eq Get_Set_same)
qed

end

section \<open>Properties\<close>

text \<open>
  Uninterrupted, the steps of an operation amount to the operation of theory \<open>Rule\<close>, with
  its result and its effect on the checker and on Redis: a block list check and a redirect lookup
  (at most twelve further steps, one for each pattern), a redirect set or removed, and an eviction
  (one step for each key it has listed).
\<close>

theorem steps_alone:
  "exec C R (t0 # replicate (3 + n) t1) (CheckGet u d) c r =
     (let (res, c', r') = Check C R t0 t1 c r u d in (CheckDone res, c', r')) \<and>
   exec C R (t0 # replicate (12 + n) t1) (RedirectGet u d) c r =
     (let (res', c', r') = GetRedirect C R t0 t1 c r u d in (RedirectDone res', c', r')) \<and>
   exec C R (replicate (2 + n) t0) (SetHash u d ip) c r =
     (let (err, c', r') = SetRedirect C R c r u d ip in (SetDone err, c', r')) \<and>
   exec C R (replicate (2 + n) t0) (RemoveHash u d) c r =
     (let (err, c', r') = RemoveRedirect C R c r u d in (RemoveDone err, c', r')) \<and>
   exec C R (t0 # replicate (1 + length (cache_Items C (cache c) t0) + n) t1) (ClearList u) c r =
     (ClearDone, ClearUserCache C t0 c u, r)"
proof (intro conjI)
  have n: "3 + n = Suc (Suc (Suc n))" "2 + n = Suc (Suc n)" by simp_all
  show "exec C R (t0 # replicate (3 + n) t1) (CheckGet u d) c r =
      (let (res, c', r') = Check C R t0 t1 c r u d in (CheckDone res, c', r'))"
    unfolding n by (rule exec_check_eq)
  show "exec C R (t0 # replicate (12 + n) t1) (RedirectGet u d) c r =
      (let (res', c', r') = GetRedirect C R t0 t1 c r u d in (RedirectDone res', c', r'))"
    by (rule exec_redirect_eq) simp
  show "exec C R (replicate (2 + n) t0) (SetHash u d ip) c r =
      (let (err, c', r') = SetRedirect C R c r u d ip in (SetDone err, c', r'))"
    unfolding n by (rule exec_set_eq)
  show "exec C R (replicate (2 + n) t0) (RemoveHash u d) c r =
      (let (err, c', r') = RemoveRedirect C R c r u d in (RemoveDone err, c', r'))"
    unfolding n by (rule exec_remove_eq)
  show "exec C R (t0 # replicate (1 + length (cache_Items C (cache c) t0) + n) t1) (ClearList u) c r =
      (ClearDone, ClearUserCache C t0 c u, r)"
    by (rule exec_clear_eq) simp
qed

text \<open>
  C4. However the goroutines interleave, no block list check of a user without a colon panics: every
  one that has returned has returned an answer. And every answer one gives is the reference decision
  for a block list that a lookup of that user and domain saw, put into the cache at most 60 seconds
  before the answer; and no eviction of the user that had returned when the answer was given had
  begun after that store. (A lookup that fails sees the empty list; checks are called for users
  without a colon, other operations for any user.)
\<close>

theorem concurrent_answers:
  assumes "checker_env C entry dflt R sets_of hashes_of pub_log" and "sys_reach C R sets_of S"
  shows "(\<forall>res. CheckDone res \<in> set (ops S) \<longrightarrow>
            (\<exists>t u d a. res = Inr a \<and> Answered t u d a \<in> set (history S))) \<and>
         (\<forall>H' t u d a H. history S = H' @ Answered t u d a # H \<longrightarrow>
            (\<exists>A B ts tl L.
               H = A @ Stored ts u d (a = 1) # B \<and> t \<le> ts + 60 * second \<and>
               Asked tl u d L \<in> set B \<and> tl \<le> ts \<and>
               a = (if blocked_spec defaultFallback L d then 1 else 0) \<and>
               (\<forall>j. Evicted j u \<in> set H \<longrightarrow> Listed j u \<notin> set A)))"
proof (intro conjI allI impI)
  note inv = checker_env.sys_reach_inv [OF assms]
  fix res
  assume "CheckDone res \<in> set (ops S)"
  from sys_invD(6) [OF inv this] show "\<exists>t u d a. res = Inr a \<and> Answered t u d a \<in> set (history S)"
    by (simp add: op_ok_def)
next
  fix H' t u d a H
  assume h: "history S = H' @ Answered t u d a # H"
  obtain A B ts b where H: "H = A @ Stored ts u d b # B" and a: "a = (if b then 1 else 0)"
    and ts: "t \<le> ts + 60 * second" and ev: "\<forall>j. Evicted j u \<in> set H \<longrightarrow> Listed j u \<notin> set A"
    and "event_ok B (Stored ts u d b)"
    by (rule checker_env.answer_support [OF assms h])
  then obtain tl L where L: "Asked tl u d L \<in> set B" "tl \<le> ts"
    and b: "b \<longleftrightarrow> blocked_spec defaultFallback L d"
    unfolding event_ok_def event.case by blast
  have "H = A @ Stored ts u d (a = 1) # B" using H a by simp
  moreover have "a = (if blocked_spec defaultFallback L d then 1 else 0)" using a b by simp
  ultimately show "\<exists>A B ts tl L.
            H = A @ Stored ts u d (a = 1) # B \<and> t \<le> ts + 60 * second \<and>
            Asked tl u d L \<in> set B \<and> tl \<le> ts \<and>
            a = (if blocked_spec defaultFallback L d then 1 else 0) \<and>
            (\<forall>j. Evicted j u \<in> set H \<longrightarrow> Listed j u \<notin> set A)"
    using ts ev L by blast
qed

theorem concurrent_answers_witness:
  "\<exists>S H L. sys_reach mem_cache_ops mem_redis_ops mr_sets_of S \<and>
     CheckDone (Inr 0) \<in> set (ops S) \<and>
     history S = [] @ Answered 5 ''bob'' ''x.example.com'' 0 # H \<and>
     Asked 5 ''bob'' ''x.example.com'' L \<in> set H \<and>
     \<not> blocked_spec defaultFallback L ''x.example.com''"
proof -
  let ?d = "''x.example.com''"
  let ?new = "NewChecker mem_cache_ops mem_redis_ops ex_redis"
  have new: "NewChecker mem_cache_ops mem_redis_ops ex_redis = (fst ?new, snd ?new)" by simp
  have en: "enabled (fst ?new)" and u: "valid_user ''bob''" and fm: "\<not> fallback_match defaultFallback ?d" by code_simp+
  have before: "\<not> blocked_spec defaultFallback (mr_sets_of ex_redis (blocked_key ''bob'')) (norm_domain ?d)"
    by code_simp
  have d: "norm_domain ?d = ?d" by code_simp
  obtain S1 B where start: "sys_reach mem_cache_ops mem_redis_ops mr_sets_of S1" "history S1 = [Asked 5 ''bob'' ?d B]"
    and S1: "S1 = \<lparr>shared = fst ?new, redis = ex_redis, ops = [CheckFallback ''bob'' ?d False, ClearList ''bob''],
      clock = 5, history = [Asked 5 ''bob'' ?d B]\<rparr>"
    using mem.late_store_lookup [OF new en _ u before, of 5 ex_redis] unfolding d by fastforce
  obtain S where run: "sys_reach mem_cache_ops mem_redis_ops mr_sets_of S" and fin: "ops S = [CheckDone (Inr 0), ClearDone]"
    and h: "history S = [] @ Answered 5 ''bob'' ?d 0 #
      [Stored 5 ''bob'' ?d False, Evicted 1 ''bob'', Listed 1 ''bob'', Asked 5 ''bob'' ?d B]"
    using steps_while_reach [OF mem.late_store_rest [OF new fm, of "\<lambda>_. True" ex_redis 5 "''bob''"] start(1) [unfolded S1]]
    by fastforce
  have all: "\<exists>A B' ts tl L. [Stored 5 ''bob'' ?d False, Evicted 1 ''bob'', Listed 1 ''bob'', Asked 5 ''bob'' ?d B]
        = A @ Stored ts ''bob'' ?d ((0::int) = 1) # B' \<and> (5::int) \<le> ts + 60 * second \<and> Asked tl ''bob'' ?d L \<in> set B' \<and> tl \<le> ts \<and>
        (0::int) = (if blocked_spec defaultFallback L ?d then 1 else 0) \<and>
        (\<forall>j. Evicted j ''bob'' \<in> set [Stored 5 ''bob'' ?d False, Evicted 1 ''bob'', Listed 1 ''bob'', Asked 5 ''bob'' ?d B] \<longrightarrow>
           Listed j ''bob'' \<notin> set A)"
    using concurrent_answers [OF mem.checker_env_axioms run] h by blast
  then obtain A B' ts tl L where "[Stored 5 ''bob'' ?d False, Evicted 1 ''bob'', Listed 1 ''bob'', Asked 5 ''bob'' ?d B]
      = A @ Stored ts ''bob'' ?d ((0::int) = 1) # B'"
    and L: "Asked tl ''bob'' ?d L \<in> set B'" "(0::int) = (if blocked_spec defaultFallback L ?d then 1 else 0)"
    by (elim conjE exE)
  then have "Asked tl ''bob'' ?d L \<in> set [Stored 5 ''bob'' ?d False, Evicted 1 ''bob'', Listed 1 ''bob'', Asked 5 ''bob'' ?d B]"
    by simp
  moreover have "\<not> blocked_spec defaultFallback L ?d" using L(2) by (simp split: if_splits)
  ultimately show ?thesis using run h fin by (intro exI [of _ S]) auto
qed

text \<open>
  C5. An eviction that begins at a quiet moment is effective. Suppose that in some state no check of
  the user is between its lookup and its store, and that an eviction of the user has been made from
  start to end since. Then every answer to that user rests on a lookup made since that state, so
  that whatever changed in the block list before is respected.
\<close>

theorem quiet_eviction_effective:
  assumes "checker_env C entry dflt R sets_of hashes_of pub_log" and "sys_reach C R sets_of S0"
    and "\<forall>op \<in> set (ops S0). \<not> past_lookup u op" and "(sys_step C R sets_of)\<^sup>*\<^sup>* S0 S"
    and "history S = H' @ Answered t u d a # K @ history S0"
    and "Listed j u \<in> set K" and "Evicted j u \<in> set K"
  shows "\<exists>tl L. Asked tl u d L \<in> set K \<and> a = (if blocked_spec defaultFallback L d then 1 else 0)"
proof -
  let ?H0 = "history S0"
  have reach: "sys_reach C R sets_of S" and "since_quiet u ?H0 S"
    using checker_env.steps_since_quiet [OF assms(1,4,2,3)] by simp_all
  then obtain K' where "history S = K' @ ?H0" "stores_ok u K'" by (auto simp: since_quiet_def)
  with assms(5) have K: "stores_ok u (H' @ Answered t u d a # K)" by simp
  obtain A B ts b where H: "K @ ?H0 = A @ Stored ts u d b # B" and a: "a = (if b then 1 else 0)"
    and ev: "\<forall>j. Evicted j u \<in> set (K @ ?H0) \<longrightarrow> Listed j u \<notin> set A"
    by (rule checker_env.answer_support [OF assms(1) reach assms(5)])
  have "Listed j u \<notin> set A" using ev assms(7) by simp
  with H assms(6) obtain us where us: "K = A @ us" "us @ ?H0 = Stored ts u d b # B"
    by (auto simp: append_eq_append_conv2)
  moreover from us(1) assms(6) \<open>Listed j u \<notin> set A\<close> have "us \<noteq> []" by auto
  ultimately obtain B' where "K = A @ Stored ts u d b # B'" by (auto simp: append_eq_Cons_conv)
  with K have "event_ok B' (Stored ts u d b)" and "set B' \<subseteq> set K"
    using stores_ok_split [of u "H' @ Answered t u d a # A" ts d b B'] by auto
  with a show ?thesis unfolding event_ok_def event.case by auto
qed

theorem quiet_eviction_effective_witness:
  "\<exists>S a. sys_reach mem_cache_ops mem_redis_ops mr_sets_of S \<and>
     Answered 5 ''alice'' ''x.example.com'' a \<in> set (history S) \<and> Evicted 0 ''alice'' \<in> set (history S) \<and>
     (\<exists>L. a = (if blocked_spec defaultFallback L ''x.example.com'' then 1 else 0))"
proof -
  let ?d = "''x.example.com''"
  let ?new = "NewChecker mem_cache_ops mem_redis_ops ex_redis"
  let ?S0 = "\<lparr>shared = fst ?new, redis = snd ?new, ops = [], clock = 5, history = []\<rparr>"
  have new: "NewChecker mem_cache_ops mem_redis_ops ex_redis = (fst ?new, snd ?new)" by simp
  have en: "enabled (fst ?new)" and u: "valid_user ''alice''" by code_simp+
  have d: "norm_domain ?d = ?d" by code_simp
  have t: "(0::int) \<le> 5" by simp
  obtain S B a where run: "(sys_step mem_cache_ops mem_redis_ops mr_sets_of)\<^sup>*\<^sup>* ?S0 S"
    and h: "history S = [] @ Answered 5 ''alice'' ?d a #
      [Stored 5 ''alice'' ?d (a = 1), Asked 5 ''alice'' ?d B, Evicted 0 ''alice'', Listed 0 ''alice''] @ []"
    using mem.evict_then_check_run [OF new en t u, of ?d] unfolding d by (elim exE conjE)
  have r0: "sys_reach mem_cache_ops mem_redis_ops mr_sets_of ?S0" by (rule sys_reach.start) simp_all
  have quiet: "\<forall>op \<in> set (ops ?S0). \<not> past_lookup ''alice'' op" by simp
  have "history S = [] @ Answered 5 ''alice'' ?d a #
      [Stored 5 ''alice'' ?d (a = 1), Asked 5 ''alice'' ?d B, Evicted 0 ''alice'', Listed 0 ''alice''] @ history ?S0"
    using h by simp
  from quiet_eviction_effective [OF mem.checker_env_axioms r0 quiet run this, of 0]
  have "\<exists>L. a = (if blocked_spec defaultFallback L ?d then 1 else 0)" by auto
  moreover have "sys_reach mem_cache_ops mem_redis_ops mr_sets_of S"
    using mem.steps_since_quiet [OF run r0 quiet] by simp
  ultimately show ?thesis using h by (intro exI [of _ S] exI [of _ a]) simp
qed

text \<open>
  C15. The other side of that guarantee: the decision of a lookup made before a block list changed can
  be stored after the eviction that the change caused. There is a run in which a lookup sees a list
  that lets a domain pass; then the list comes to block the domain, while no eviction has begun; and
  from then on, with the list blocking the domain in every state, an eviction of the user lists the
  keys and returns, and only then the check stores its decision and answers. With every operation
  ended, the domain stays allowed for the next 60 seconds.
\<close>

theorem late_store_survives_eviction:
  assumes "checker_env C entry dflt R sets_of hashes_of pub_log"
    and "NewChecker C R r0 = (c, r)" and "enabled c" and "0 \<le> t" and "valid_user u"
    and "\<not> blocked_spec defaultFallback (sets_of rA (blocked_key u)) (norm_domain d)"
    and "blocked_spec defaultFallback (sets_of rB (blocked_key u)) (norm_domain d)"
  shows "\<exists>S1 S B. sys_reach C R sets_of S1 \<and> history S1 = [Asked t u (norm_domain d) B] \<and>
             \<not> blocked_spec defaultFallback B (norm_domain d) \<and>
             (steps_while (list_blocks sets_of u (norm_domain d)) C R sets_of)\<^sup>*\<^sup>* S1 S \<and>
             history S = [Answered t u (norm_domain d) 0, Stored t u (norm_domain d) False, Evicted 1 u, Listed 1 u]
                         @ history S1 \<and>
             list_all op_done (ops S) \<and> clock S = t \<and> list_blocks sets_of u (norm_domain d) S \<and>
             (\<forall>t' t''. t \<le> t' \<and> t' \<le> t + 60 * second \<longrightarrow>
                fst (Check C R t' t'' (shared S) (redis S) u d) = Inr 0)"
proof -
  let ?d = "norm_domain d"
  have fm: "\<not> fallback_match defaultFallback ?d" using assms(6) by (simp add: blocked_spec_def)
  have P: "list_blocks sets_of u ?d \<lparr>shared = c', redis = rB, ops = os, clock = t, history = H\<rparr>" for c' os H
    using assms(7) by (simp add: list_blocks_def)
  obtain B where B: "\<not> blocked_spec defaultFallback B ?d" and start: "sys_reach C R sets_of
     \<lparr>shared = c, redis = rB, ops = [CheckFallback u ?d False, ClearList u], clock = t, history = [Asked t u ?d B]\<rparr>"
    (is "sys_reach C R sets_of ?S1")
    using checker_env.late_store_lookup [OF assms(1-6)] by blast
  note rest = checker_env.late_store_rest [where P = "list_blocks sets_of u ?d", OF assms(1,2) fm P, of u "[Asked t u ?d B]"]
  have "fst (Check C R t' t'' (c\<lparr>cache := cache_Set C (cache c) t (check_cacheKey u ?d) (CBool False) DefaultExpiration\<rparr>) rB u d) = Inr 0"
    if "t' \<le> t + 60 * second" for t' t''
    using checker_env.late_store_stale [OF assms(1,2,4) that] .
  with start B P show ?thesis
    by - (rule exI [of _ ?S1], intro exI conjI, assumption, simp, assumption, rule rest, simp_all)
qed

theorem late_store_survives_eviction_witness:
  "\<exists>S. sys_reach mem_cache_ops mem_redis_ops mr_sets_of S \<and> Evicted 1 ''alice'' \<in> set (history S) \<and>
       blocked_spec defaultFallback (mr_sets_of (redis S) (blocked_key ''alice'')) ''x.example.com'' \<and>
       fst (Check mem_cache_ops mem_redis_ops 65 65 (shared S) (redis S) ''alice'' ''x.example.com'') = Inr 0"
proof -
  let ?d = "''x.example.com''"
  let ?new = "NewChecker mem_cache_ops mem_redis_ops mem_redis_empty"
  have new: "NewChecker mem_cache_ops mem_redis_ops mem_redis_empty = (fst ?new, snd ?new)" by simp
  have en: "enabled (fst ?new)" and u: "valid_user ''alice''" by code_simp+
  have before: "\<not> blocked_spec defaultFallback
      (mr_sets_of mem_redis_empty (blocked_key ''alice'')) (norm_domain ?d)" by code_simp
  have after: "blocked_spec defaultFallback (mr_sets_of ex_redis (blocked_key ''alice'')) (norm_domain ?d)"
    by code_simp
  have d: "norm_domain ?d = ?d" by code_simp
  have "(0::int) \<le> 5" by simp
  note stale = late_store_survives_eviction [OF mem.checker_env_axioms new en this u]
  obtain S1 S B where S1: "sys_reach mem_cache_ops mem_redis_ops mr_sets_of S1"
    and run: "(steps_while (list_blocks mr_sets_of ''alice'' ?d) mem_cache_ops mem_redis_ops mr_sets_of)\<^sup>*\<^sup>* S1 S"
    and S: "history S = [Answered 5 ''alice'' ?d 0, Stored 5 ''alice'' ?d False, Evicted 1 ''alice'', Listed 1 ''alice''] @ history S1"
      "list_blocks mr_sets_of ''alice'' ?d S"
      "fst (Check mem_cache_ops mem_redis_ops 65 65 (shared S) (redis S) ''alice'' ?d) = Inr 0"
    using stale [OF before after, unfolded d] by (elim exE conjE) simp
  from S1 run have "sys_reach mem_cache_ops mem_redis_ops mr_sets_of S" by (blast intro: steps_while_reach)
  with S show ?thesis by (intro exI [of _ S]) (simp add: list_blocks_def)
qed

end
