(* ===== verification/Smoke_Test.thy ===== *)
theory Smoke_Test imports Server Rule_Concurrent begin

text \<open>
  The smoke test client \<^verbatim>\<open>cmd/test/main.go\<close>, and what it finds when the server it asks is the plain
  DNS server of an edge process.

  The client's library is a parameter: how a name is made fully qualified, how a question is set,
  and the exchange with the server, whose state is threaded through. What the test prints is not
  modelled; its outcome is its exit code.
\<close>

section \<open>Addresses as text\<close>

text \<open>\<^verbatim>\<open>net.IP.String\<close>: for IPv6 the longest run of at least two zero groups becomes \<^verbatim>\<open>::\<close>.\<close>

definition hex_digit :: "nat \<Rightarrow> char" where
  "hex_digit n = (if n < 10 then digit n else char_of (87 + n))"

fun show_hex :: "nat \<Rightarrow> string" where
  "show_hex n = (if n < 16 then [hex_digit n] else show_hex (n div 16) @ [hex_digit (n mod 16)])"

declare show_hex.simps [simp del]

definition ip_groups :: "byte list \<Rightarrow> nat list" where
  "ip_groups ip = map (\<lambda>i. 256 * unat (ip ! (2 * i)) + unat (ip ! (2 * i + 1))) [0..<8]"

definition zero_run :: "nat list \<Rightarrow> nat \<Rightarrow> nat" where
  "zero_run gs i = length (takeWhile (\<lambda>g. g = 0) (drop i gs))"

fun longest_run :: "nat list \<Rightarrow> nat list \<Rightarrow> (nat \<times> nat) option \<Rightarrow> (nat \<times> nat) option" where
  "longest_run gs [] best = best"
| "longest_run gs (i # is) best =
     longest_run gs is
       (let l = zero_run gs i
        in if 2 \<le> l \<and> (case best of None \<Rightarrow> True | Some (j, m) \<Rightarrow> m < l) then Some (i, l) else best)"

definition show_IPv6 :: "byte list \<Rightarrow> string" where
  "show_IPv6 ip =
     (let gs = ip_groups ip
      in case longest_run gs [0..<8] None of
           None \<Rightarrow> Join (map show_hex gs) '':''
         | Some (i, l) \<Rightarrow>
             Join (map show_hex (take i gs)) '':'' @ ''::'' @ Join (map show_hex (drop (i + l) gs)) '':'')"

definition IP_String :: "byte list \<Rightarrow> string" where
  "IP_String ip =
     (if ip = [] then ''<nil>''
      else case To4 ip of
             Some v4 \<Rightarrow> show_IPv4 v4
           | None \<Rightarrow>
               if length ip = 16 then show_IPv6 ip
               else ''?'' @ concat (map (\<lambda>b. [hex_digit (unat b div 16), hex_digit (unat b mod 16)]) ip))"

section \<open>The client\<close>

record 'n dns_client =
  dc_Fqdn :: "string \<Rightarrow> string"
  dc_SetQuestion :: "dns_msg \<Rightarrow> string \<Rightarrow> 16 word \<Rightarrow> dns_msg"
  dc_Exchange :: "'n \<Rightarrow> dns_msg \<Rightarrow> string \<Rightarrow> (string + dns_msg) \<times> 'n"

locale dns_questions =
  fixes Cl :: "'n dns_client"
  assumes Fqdn_plain: "CHR 0x5C \<notin> set s \<Longrightarrow> \<not> suffix ''.'' s \<Longrightarrow> dc_Fqdn Cl s = s @ ''.''"
    and SetQuestion_fields: "dc_SetQuestion Cl m name t =
      m\<lparr>m_Id := m_Id (dc_SetQuestion Cl m name t), m_RecursionDesired := True,
        m_Question := [\<lparr>q_Name = name, q_Qtype = t, q_Qclass = ClassINET\<rparr>]\<rparr>"

definition server_addr :: string where
  "server_addr = ''127.0.0.1:8053''"

definition smoke_test ::
  "'n dns_client \<Rightarrow> 'n \<Rightarrow> string \<Rightarrow> 16 word \<Rightarrow> (dns_msg \<Rightarrow> bool) \<Rightarrow> bool \<times> 'n" where
  "smoke_test Cl n domain qtype check =
     (let msg = dc_SetQuestion Cl new_Msg (dc_Fqdn Cl domain) qtype;
          msg = msg\<lparr>m_RecursionDesired := True\<rparr>
      in case dc_Exchange Cl n msg server_addr of
           (Inl err, n') \<Rightarrow> (False, n')
         | (Inr resp, n') \<Rightarrow> (check resp, n'))"

definition allowed_check :: "dns_msg \<Rightarrow> bool" where
  "allowed_check resp \<longleftrightarrow> m_Rcode resp = RcodeSuccess"

definition blocked_A_check :: "dns_msg \<Rightarrow> bool" where
  "blocked_A_check resp =
     (case m_Answer resp of
        [] \<Rightarrow> False
      | rr # _ \<Rightarrow> (case rr_Data rr of A_rdata ip \<Rightarrow> IP_String ip = ''0.0.0.0'' | _ \<Rightarrow> False))"

definition blocked_AAAA_check :: "dns_msg \<Rightarrow> bool" where
  "blocked_AAAA_check resp =
     (case m_Answer resp of
        [] \<Rightarrow> False
      | rr # _ \<Rightarrow> (case rr_Data rr of AAAA_rdata ip \<Rightarrow> IP_String ip = ''::'' | _ \<Rightarrow> False))"

text \<open>The exit code, with whether the first argument is \<^verbatim>\<open>--strict\<close>.\<close>

definition smoke_main :: "'n dns_client \<Rightarrow> bool \<Rightarrow> 'n \<Rightarrow> nat \<times> 'n" where
  "smoke_main Cl strict n =
     (let exitCode = 0;
          (ok, n) = smoke_test Cl n ''google.com'' TypeA allowed_check;
          exitCode = (if \<not> ok then (if strict then 1 else exitCode) else exitCode);
          (ok, n) = smoke_test Cl n ''example-blocked.com'' TypeA blocked_A_check;
          exitCode = (if \<not> ok then 1 else exitCode);
          (ok, n) = smoke_test Cl n ''ads.tracker.com'' TypeAAAA blocked_AAAA_check;
          exitCode = (if \<not> ok then 1 else exitCode);
          (ok, n) = smoke_test Cl n ''malware.test'' TypeA blocked_A_check;
          exitCode = (if \<not> ok then 1 else exitCode);
          (ok, n) = smoke_test Cl n ''github.com'' TypeA allowed_check;
          exitCode = (if \<not> ok then (if strict then 1 else exitCode) else exitCode)
      in (exitCode, n))"

section \<open>The server it asks\<close>

text \<open>
  One exchange with the plain DNS server of an edge process in the state \<open>a\<close>. The client packs its
  message, the server unpacks it and handles it, and what its handler writes first comes back packed.
  Without an answer the client runs into its timeout. What the server's library answers to bytes that
  are no message is left out; it counts as an error of the exchange here.
\<close>

definition ask_edge ::
  "('c, 'r, 'z, 'u) libs \<Rightarrow> query_clock \<Rightarrow> string \<Rightarrow> ('c, 'r, 'z, 'h, 'u, 'k) app \<Rightarrow> dns_msg \<Rightarrow>
   (string + dns_msg) \<times> ('c, 'r, 'z, 'h, 'u, 'k) app" where
  "ask_edge L k userID a msg =
     (case dns_Pack (lib_dns L) msg of
        Inl err \<Rightarrow> (Inl err, a)
      | Inr bs \<Rightarrow>
          (case dns_Unpack (lib_dns L) bs of
             Inl err \<Rightarrow> (Inl err, a)
           | Inr req \<Rightarrow>
               (case ServeDNS L list_writer_ops k a userID
                       \<lparr>lw_sent = [], lw_network = ''udp'', lw_addr = ''127.0.0.1:40000''\<rparr> req of
                  (res, a', w') \<Rightarrow>
                    (case lw_sent w' of
                       [] \<Rightarrow> (Inl ''i/o timeout'', a')
                     | resp # _ \<Rightarrow>
                         (case dns_Pack (lib_dns L) resp of
                            Inl err \<Rightarrow> (Inl ''i/o timeout'', a')
                          | Inr out \<Rightarrow> (dns_Unpack (lib_dns L) out, a'))))))"

text \<open>
  Messages that go over the wire unharmed: one question, of class \<^verbatim>\<open>IN\<close>, for a name of plain labels,
  at most one record, an address of that name, and nothing else. An IPv4 address may come back in 4 bytes
  for the 16 that were packed.
\<close>

definition plain_label :: "string \<Rightarrow> bool" where
  "plain_label l \<longleftrightarrow> l \<noteq> [] \<and> length l < 64 \<and>
     list_all (\<lambda>c. c \<in> set ''abcdefghijklmnopqrstuvwxyz0123456789-'') l"

definition plain_name :: "string \<Rightarrow> bool" where
  "plain_name s \<longleftrightarrow> length s < 254 \<and> s \<noteq> [] \<and> last s = CHR ''.'' \<and> list_all plain_label (Split CHR ''.'' (butlast s))"

definition address_record :: "string \<Rightarrow> dns_rr \<Rightarrow> bool" where
  "address_record name rr \<longleftrightarrow> rr_Name rr = name \<and> rr_Class rr = ClassINET \<and>
     (case rr_Data rr of
        A_rdata ip \<Rightarrow> rr_Rrtype rr = TypeA \<and> To4 ip \<noteq> None
      | AAAA_rdata ip \<Rightarrow> rr_Rrtype rr = TypeAAAA \<and> length ip = 16 \<and> To4 ip = None
      | Other_rdata _ \<Rightarrow> False)"

definition plain_msg :: "dns_msg \<Rightarrow> bool" where
  "plain_msg m \<longleftrightarrow> 0 \<le> m_Opcode m \<and> m_Opcode m < 16 \<and> 0 \<le> m_Rcode m \<and> m_Rcode m < 16 \<and>
     m_Ns m = [] \<and> m_Extra m = [] \<and>
     (case m_Question m of
        [q] \<Rightarrow> plain_name (q_Name q) \<and> q_Qclass q = ClassINET \<and> length (m_Answer m) \<le> 1 \<and>
          list_all (address_record (q_Name q)) (m_Answer m)
      | _ \<Rightarrow> False)"

fun same_rdata :: "rdata \<Rightarrow> rdata \<Rightarrow> bool" where
  "same_rdata (A_rdata ip) (A_rdata ip') = (To4 ip' = To4 ip)"
| "same_rdata (AAAA_rdata ip) (AAAA_rdata ip') = (ip' = ip)"
| "same_rdata _ _ = False"

definition same_record :: "dns_rr \<Rightarrow> dns_rr \<Rightarrow> bool" where
  "same_record rr rr' \<longleftrightarrow> same_rdata (rr_Data rr) (rr_Data rr') \<and> rr' = rr\<lparr>rr_Data := rr_Data rr'\<rparr>"

locale dns_wire =
  fixes D :: "'u dns_lib"
  assumes Unpack_Pack: "plain_msg m \<Longrightarrow>
      \<exists>bs answer. dns_Pack D m = Inr bs \<and> dns_Unpack D bs = Inr (m\<lparr>m_Answer := answer\<rparr>) \<and>
        list_all2 same_record (m_Answer m) answer"

section \<open>The built-in block list in every interleaving\<close>

context checker_env
begin

text \<open>A cached decision on a domain of the built-in list is to block it.\<close>

lemma cached_builtin:
  assumes reach: "sys_reach C R sets_of S" and t: "clock S \<le> t" and u: "valid_user u"
    and fm: "fallback_match defaultFallback d"
    and hit: "cache_Get C (cache (shared S)) t (check_cacheKey u d) = Some (CBool b)"
  shows b
proof -
  note inv = sys_reach_inv [OF reach]
  obtain A B ts b' where H: "history S = A @ Stored ts u d b' # B" and b: "(if b then 1 else 0) = (if b' then 1 else (0::int))"
    using hit_event_ok [OF inv t u hit] unfolding event_ok_def event.case by blast
  have "event_ok B (Stored ts u d b')"
    using sys_invD(8) [OF inv] unfolding H by (rule history_ok_split)
  then have b'
    using fm unfolding event_ok_def event.case blocked_spec_def by blast
  with b show ?thesis by (simp split: if_splits)
qed

lemma Check_builtin:
  assumes reach: "sys_reach C R sets_of S" and t: "clock S \<le> t0" and u: "valid_user u"
    and fm: "fallback_match defaultFallback (norm_domain d)"
  shows "\<exists>c' r'. Check C R t0 t1 (shared S) r u d = (Inr 1, c', r')"
proof (cases "cache_Get C (cache (shared S)) t0 (check_cacheKey u (norm_domain d))")
  case None
  have "True \<longleftrightarrow> blocked_spec (fallback (shared S)) (seen_blocklist R sets_of (shared S) r u d) (norm_domain d)"
    using sys_invD(3) [OF sys_reach_inv [OF reach]] fm by (simp add: blocked_spec_def)
  from Check_miss [OF None this, of t1] show ?thesis by auto
next
  case (Some v)
  then obtain b where v: "v = CBool b"
    using Get_no_string [OF sys_reach_inv [OF reach] t u] by (cases v) auto
  with Some cached_builtin [OF reach t u fm] have b by simp
  with Some v show ?thesis by (simp add: Check_eq)
qed

end

lemma builtin_domains:
  assumes "d \<in> set defaultFallback"
  shows "norm_domain (d @ ''.'') = d" and "CHR 0x5C \<notin> set d" and "\<not> suffix ''.'' d"
    and "\<not> suffix ''..'' (d @ ''.'')" and "plain_name (d @ ''.'')" and "fallback_match defaultFallback d"
proof -
  have "list_all (\<lambda>d. norm_domain (d @ ''.'') = d \<and> CHR 0x5C \<notin> set d \<and> \<not> HasSuffix d ''.'' \<and>
          \<not> HasSuffix (d @ ''.'') ''..'' \<and> plain_name (d @ ''.'')) defaultFallback" by code_simp
  with assms show "norm_domain (d @ ''.'') = d" "CHR 0x5C \<notin> set d" "\<not> suffix ''.'' d" "\<not> suffix ''..'' (d @ ''.'')"
    "plain_name (d @ ''.'')"
    by (auto simp: list_all_iff HasSuffix_iff)
  show "fallback_match defaultFallback d" using assms by (auto simp: fallback_match_def)
qed

lemma IP_String_zero:
  "IP_String (replicate 10 0 @ [255, 255, 0, 0, 0, 0]) = ''0.0.0.0''" "IP_String (replicate 16 0) = ''::''"
  by code_simp+

text \<open>The response to a blocked query, and its way over the wire.\<close>

definition block_reply :: "'u dns_lib \<Rightarrow> dns_msg \<Rightarrow> dns_question \<Rightarrow> dns_msg" where
  "block_reply D msg q = (dns_SetReply D new_Msg msg)\<lparr>m_Rcode := RcodeNameError, m_Answer := [zero_record q]\<rparr>"

lemma ServeDNS_blocked:
  assumes "dns_library (lib_dns L)" and "admits L k a u" and "m_Question msg = [q]" and "global (app_rules a) = Some c"
    and "Check (lib_cache L) (lib_redis L) (fst (k_check k)) (snd (k_check k)) c (app_redis a) u
           (norm_domain (q_Name q)) = (Inr 1, c', rd)"
  shows "\<exists>a'. ServeDNS L list_writer_ops k a u w msg = (Inr (), a', w\<lparr>lw_sent := lw_sent w @ [block_reply (lib_dns L) msg q]\<rparr>)"
proof -
  obtain rl where run: "ProcessQuery L list_writer_ops k a w u msg =
      process_allowed L list_writer_ops k (a\<lparr>defaultRateLimiter := rl\<rparr>) w u msg"
    using ProcessQuery_admitted [OF assms(2)] by metis
  let ?a = "a\<lparr>defaultRateLimiter := rl\<rparr>"
  obtain rules where "check_of L k ?a u (q_Name q) = (Inr 1, rules, rd)"
    using assms(4,5) by (simp add: CheckRule_def Let_def norm_domain_def)
  from process_blocked [OF assms(3) this, of list_writer_ops w] run show ?thesis
    by (simp add: Let_def ServeDNS_def HandleDNSQuery_def writeBlockResponse_eq block_reply_def list_writer_ops_def
        dns_library.reply_laws [OF assms(1)])
qed

lemma plain_block_reply:
  assumes "dns_library D" and "plain_msg msg" and "m_Question msg = [q]"
  shows "plain_msg (block_reply D msg q)"
proof -
  have "To4 (replicate 10 0 @ [255, 255, 0, 0, 0, 0]) = Some [0, 0, 0, 0]" "To4 (replicate 16 0) = None" by code_simp+
  then have "address_record (q_Name q) (zero_record q)"
    by (simp add: address_record_def zero_record_def dns_consts)
  then show ?thesis using assms(2,3)
    by (simp add: plain_msg_def block_reply_def dns_library.reply_laws [OF assms(1)] dns_library.SetReply_Opcode [OF assms(1)]
        dns_library.SetReply_rest [OF assms(1)] new_Msg_def RcodeNameError_def)
qed

lemma ask_edge_blocked:
  assumes D: "dns_library (lib_dns L)" and Wi: "dns_wire (lib_dns L)"
    and E: "checker_env (lib_cache L) entry dflt (lib_redis L) sets_of hashes_of pub_log"
    and reach: "sys_reach (lib_cache L) (lib_redis L) sets_of S" and g: "global (app_rules a) = Some (shared S)"
    and t: "clock S \<le> fst (k_check k)" and u: "valid_user u" and adm: "admits L k a u"
    and q: "m_Question msg = [q]" "\<not> suffix ''..'' (q_Name q)" "fallback_match defaultFallback (norm_domain (q_Name q))"
    and plain: "plain_msg msg" "m_Answer msg = []"
  shows "\<exists>a' resp rr. ask_edge L k u a msg = (Inr resp, a') \<and> m_Answer resp = [rr] \<and> same_record (zero_record q) rr"
proof -
  let ?D = "lib_dns L"
  let ?w = "\<lparr>lw_sent = [], lw_network = ''udp'', lw_addr = ''127.0.0.1:40000''\<rparr>"
  have fm: "fallback_match defaultFallback (norm_domain (norm_domain (q_Name q)))"
    using q(3) by (simp add: norm_domain_twice [OF q(2)])
  obtain c' rd where "Check (lib_cache L) (lib_redis L) (fst (k_check k)) (snd (k_check k)) (shared S) (app_redis a) u
      (norm_domain (q_Name q)) = (Inr 1, c', rd)"
    using checker_env.Check_builtin [OF E reach t u fm] by blast
  from ServeDNS_blocked [OF D adm q(1) g this, of ?w]
  obtain a' where serve: "ServeDNS L list_writer_ops k a u ?w msg = (Inr (), a', ?w\<lparr>lw_sent := [block_reply ?D msg q]\<rparr>)"
    by auto
  obtain bs where "dns_Pack ?D msg = Inr bs" "dns_Unpack ?D bs = Inr (msg\<lparr>m_Answer := []\<rparr>)"
    using dns_wire.Unpack_Pack [OF Wi plain(1)] plain(2) by auto
  moreover have "msg\<lparr>m_Answer := []\<rparr> = msg" using plain(2) by simp
  moreover obtain out answer where "dns_Pack ?D (block_reply ?D msg q) = Inr out"
    "dns_Unpack ?D out = Inr ((block_reply ?D msg q)\<lparr>m_Answer := answer\<rparr>)"
    "list_all2 same_record [zero_record q] answer"
    using dns_wire.Unpack_Pack [OF Wi plain_block_reply [OF D plain(1) q(1)]] by (auto simp: block_reply_def)
  ultimately show ?thesis using serve by (auto simp: ask_edge_def list_all2_Cons1)
qed

text \<open>What the test sees of the address.\<close>

lemma same_zero_record:
  assumes "same_record (zero_record q) rr"
  shows "if q_Qtype q = TypeAAAA then rr_Data rr = AAAA_rdata (replicate 16 0)
         else \<exists>ip. rr_Data rr = A_rdata ip \<and> IP_String ip = ''0.0.0.0''"
proof -
  have z: "To4 (replicate 10 0 @ [255, 255, 0, 0, 0, 0]) = Some [0, 0, 0, 0]" "To4 [] = None"
    "show_IPv4 [0, 0, 0, 0] = ''0.0.0.0''" by code_simp+
  have "IP_String ip = ''0.0.0.0''" if "To4 ip = Some [0, 0, 0, 0]" for ip
    using that z by (auto simp: IP_String_def)
  then show ?thesis using assms z(1)
    by (cases "rr_Data rr") (auto simp: same_record_def zero_record_def split: if_splits)
qed

section \<open>Properties\<close>

text \<open>
  C27. The smoke test's block tests succeed against an edge process, at any moment of any
  interleaving of its queries and evictions: a query for a domain of the built-in list, of type A
  or AAAA, is answered with the address \<^verbatim>\<open>0.0.0.0\<close> or \<^verbatim>\<open>::\<close> that the test looks for, whatever Redis
  says or does and whatever is cached, as long as the rate limiter lets the query pass. The query and
  the response are packed and unpacked on their way; the DNS library is assumed to do so without loss for
  messages as plain as these.
\<close>

theorem smoke_test_blocks:
  assumes "dns_library (lib_dns L)" and "dns_wire (lib_dns L)" and "dns_questions Cl"
    and "checker_env (lib_cache L) entry dflt (lib_redis L) sets_of hashes_of pub_log"
    and "sys_reach (lib_cache L) (lib_redis L) sets_of S" and "global (app_rules a) = Some (shared S)"
    and "clock S \<le> fst (k_check k)" and "valid_user u" and "admits L k a u"
    and "dc_Exchange Cl = (\<lambda>a msg addr. ask_edge L k u a msg)" and "d \<in> set defaultFallback"
  shows "fst (smoke_test Cl a d TypeA blocked_A_check) \<and> fst (smoke_test Cl a d TypeAAAA blocked_AAAA_check)"
proof -
  note b = builtin_domains [OF assms(11)]
  let ?msg = "\<lambda>t. (dc_SetQuestion Cl new_Msg (dc_Fqdn Cl d) t)\<lparr>m_RecursionDesired := True\<rparr>"
  let ?q = "\<lambda>t. \<lparr>q_Name = d @ ''.'', q_Qtype = t, q_Qclass = ClassINET\<rparr>"
  have msg: "m_Question (?msg t) = [?q t]" "plain_msg (?msg t)" "m_Answer (?msg t) = []" for t
    by (subst dns_questions.SetQuestion_fields [OF assms(3)],
        simp add: dns_questions.Fqdn_plain [OF assms(3) b(2,3)] plain_msg_def new_Msg_def b(5))+
  have name: "\<not> suffix ''..'' (q_Name (?q t))" "fallback_match defaultFallback (norm_domain (q_Name (?q t)))" for t
    using b(1,4,6) by simp_all
  have ans: "\<exists>a' resp rr. ask_edge L k u a (?msg t) = (Inr resp, a') \<and> m_Answer resp = [rr] \<and>
      same_record (zero_record (?q t)) rr" for t
    by (rule ask_edge_blocked [OF assms(1,2,4-9) msg(1) name msg(2,3)])
  have ne: "TypeA \<noteq> TypeAAAA" by (simp add: dns_consts)
  obtain a1 r1 rr1 where a1: "ask_edge L k u a (?msg TypeA) = (Inr r1, a1)" "m_Answer r1 = [rr1]"
    and "same_record (zero_record (?q TypeA)) rr1" using ans by blast
  then obtain ip where "rr_Data rr1 = A_rdata ip" "IP_String ip = ''0.0.0.0''"
    using same_zero_record [of "?q TypeA"] ne by auto
  moreover obtain a2 r2 rr2 where a2: "ask_edge L k u a (?msg TypeAAAA) = (Inr r2, a2)" "m_Answer r2 = [rr2]"
    and "same_record (zero_record (?q TypeAAAA)) rr2" using ans by blast
  then have "rr_Data rr2 = AAAA_rdata (replicate 16 0)" using same_zero_record [of "?q TypeAAAA"] by simp
  ultimately show ?thesis
    using a1 a2 by (simp add: smoke_test_def Let_def assms(10) blocked_A_check_def blocked_AAAA_check_def IP_String_zero)
qed

subsection \<open>Witness\<close>

definition mem_client :: "('n \<Rightarrow> dns_msg \<Rightarrow> string \<Rightarrow> (string + dns_msg) \<times> 'n) \<Rightarrow> 'n dns_client" where
  "mem_client exchange =
     \<lparr>dc_Fqdn = (\<lambda>s. if suffix ''.'' s then s else s @ ''.''),
      dc_SetQuestion = (\<lambda>m name t. m\<lparr>m_Id := 4711, m_RecursionDesired := True,
        m_Question := [\<lparr>q_Name = name, q_Qtype = t, q_Qclass = ClassINET\<rparr>]\<rparr>),
      dc_Exchange = exchange\<rparr>"

interpretation mq: dns_questions "mem_client exchange" for exchange
  by unfold_locales (simp_all add: mem_client_def)

text \<open>
  A wire format for the messages of the witness: a header of eight bytes, the name after its length, and
  at most one address, an IPv4 address in four bytes.
\<close>

definition be32 :: "32 word \<Rightarrow> byte list" where
  "be32 n = be16 (ucast (drop_bit 16 n)) @ be16 (ucast n)"

definition word_cat4 :: "byte \<Rightarrow> byte \<Rightarrow> byte \<Rightarrow> byte \<Rightarrow> 32 word" where
  "word_cat4 a b c d = push_bit 16 (ucast (word_cat2 a b)) OR ucast (word_cat2 c d)"

lemma be32_cases: obtains a b c d where "be32 n = [a, b, c, d]" and "word_cat4 a b c d = n"
proof -
  have "push_bit 16 (ucast (ucast (drop_bit 16 n) :: 16 word)) OR ucast (ucast n :: 16 word) = n"
    by (rule bit_word_eqI) (auto simp: bit_simps)
  then show thesis using that by (simp add: be32_def be16_def word_cat4_def)
qed

definition wire_rr :: "dns_rr \<Rightarrow> byte list" where
  "wire_rr rr =
     (case rr_Data rr of
        A_rdata ip \<Rightarrow> 1 # be32 (rr_Ttl rr) @ the (To4 ip)
      | AAAA_rdata ip \<Rightarrow> 2 # be32 (rr_Ttl rr) @ ip
      | Other_rdata _ \<Rightarrow> [])"

definition unwire_rr :: "string \<Rightarrow> byte list \<Rightarrow> dns_rr list" where
  "unwire_rr name bs =
     (case bs of
        k # a # b # c # d # ip \<Rightarrow>
          [\<lparr>rr_Name = name, rr_Rrtype = (if k = 1 then TypeA else TypeAAAA), rr_Class = ClassINET,
            rr_Ttl = word_cat4 a b c d, rr_Data = (if k = 1 then A_rdata ip else AAAA_rdata ip)\<rparr>]
      | _ \<Rightarrow> [])"

definition wire_Pack :: "dns_msg \<Rightarrow> string + byte list" where
  "wire_Pack m =
     (case m_Question m of
        [] \<Rightarrow> Inl ''empty''
      | q # _ \<Rightarrow>
          Inr (be16 (m_Id m) @ [of_bool (m_Response m), word_of_int (m_Opcode m), of_bool (m_RecursionDesired m),
                 word_of_int (m_Rcode m)] @ be16 (q_Qtype q) @ word_of_nat (length (q_Name q)) #
               bytes_of_string (q_Name q) @ concat (map wire_rr (m_Answer m))))"

definition wire_Unpack :: "byte list \<Rightarrow> string + dns_msg" where
  "wire_Unpack bs =
     (case bs of
        i # j # r # oc # rd # rc # s # t # n # rest \<Rightarrow>
          (let name = string_of_bytes (take (unat n) rest)
           in Inr \<lparr>m_Id = word_cat2 i j, m_Response = (r = 1), m_Opcode = uint oc, m_RecursionDesired = (rd = 1),
                   m_Rcode = uint rc, m_Question = [\<lparr>q_Name = name, q_Qtype = word_cat2 s t, q_Qclass = ClassINET\<rparr>],
                   m_Answer = unwire_rr name (drop (unat n) rest), m_Ns = [], m_Extra = []\<rparr>)
      | _ \<Rightarrow> Inl ''short buffer'')"

definition wire_dns :: "mem_upstream dns_lib" where
  "wire_dns = mem_dns\<lparr>dns_Pack := wire_Pack, dns_Unpack := wire_Unpack\<rparr>"

lemma unwire_wire_rr:
  assumes "address_record name rr"
  obtains rr' where "unwire_rr name (wire_rr rr) = [rr']" and "same_record rr rr'"
proof -
  obtain a b c d where t: "be32 (rr_Ttl rr) = [a, b, c, d]" "word_cat4 a b c d = rr_Ttl rr" by (rule be32_cases)
  have "(1::byte) \<noteq> 2" by simp
  moreover have "To4 v = Some v" if "To4 ip = Some v" for ip v
    using that by (auto simp: To4_def split: if_splits)
  ultimately show thesis
    using assms that t by (cases rr; cases "rr_Data rr") (auto simp: address_record_def wire_rr_def unwire_rr_def same_record_def)
qed

interpretation mw: dns_wire wire_dns
proof unfold_locales
  fix m :: dns_msg assume m: "plain_msg m"
  then obtain q where q: "m_Question m = [q]" "plain_name (q_Name q)" "q_Qclass q = ClassINET"
    by (auto simp: plain_msg_def split: list.splits)
  let ?name = "q_Name q"
  let ?bs = "concat (map wire_rr (m_Answer m))"
  obtain answer where answer: "unwire_rr ?name ?bs = answer" "list_all2 same_record (m_Answer m) answer"
  proof (cases "m_Answer m")
    case (Cons rr rrs)
    then have "rrs = []" "address_record ?name rr" using m q(1) by (auto simp: plain_msg_def)
    then show ?thesis using that Cons by (auto elim: unwire_wire_rr)
  qed (use that in \<open>simp add: unwire_rr_def\<close>)
  have n: "unat (word_of_nat (length ?name) :: byte) = length ?name"
    using q(2) by (simp add: plain_name_def unat_of_nat take_bit_nat_eq_self)
  have i: "uint (word_of_int x :: byte) = x" if "0 \<le> x" "x < 16" for x :: int
    using that by (simp add: unsigned_of_int take_bit_int_eq_self)
  have "dns_Pack wire_dns m = Inr (be16 (m_Id m) @ [of_bool (m_Response m), word_of_int (m_Opcode m),
      of_bool (m_RecursionDesired m), word_of_int (m_Rcode m)] @ be16 (q_Qtype q) @ word_of_nat (length ?name) #
      bytes_of_string ?name @ ?bs)" (is "_ = Inr ?out")
    by (simp add: wire_dns_def wire_Pack_def q(1))
  moreover have "dns_Unpack wire_dns ?out = Inr (m\<lparr>m_Answer := answer\<rparr>)"
    using m q answer(1) n i by (cases m; cases q) (simp add: wire_dns_def wire_Unpack_def be16_def plain_msg_def)
  ultimately show "\<exists>bs answer. dns_Pack wire_dns m = Inr bs \<and> dns_Unpack wire_dns bs = Inr (m\<lparr>m_Answer := answer\<rparr>) \<and>
      list_all2 same_record (m_Answer m) answer"
    using answer(2) by blast
qed

lemma wire_dns_library: "dns_library wire_dns"
  using md.dns_library_axioms by (simp add: dns_library_def wire_dns_def)

definition wire_libs where
  "wire_libs = ex_libs\<lparr>lib_dns := wire_dns\<rparr>"

definition ex_client where
  "ex_client = mem_client (\<lambda>a msg addr. ask_edge wire_libs ex_clock ''alice'' a msg)"

theorem smoke_test_blocks_witness:
  "fst (smoke_test ex_client ex_app ''ads.tracker.com'' TypeAAAA blocked_AAAA_check)"
proof -
  let ?new = "NewChecker mem_cache_ops mem_redis_ops ex_redis"
  let ?S = "\<lparr>shared = fst ?new, redis = snd ?new, ops = [], clock = 0, history = []\<rparr>"
  have D: "dns_library (lib_dns wire_libs)" by (simp add: wire_libs_def ex_libs_def wire_dns_library)
  have E: "checker_env (lib_cache wire_libs) mc_entry mc_default (lib_redis wire_libs) mr_sets_of mr_hashes_of mr_log"
    by (simp add: wire_libs_def ex_libs_def mem.checker_env_axioms)
  have reach: "sys_reach (lib_cache wire_libs) (lib_redis wire_libs) mr_sets_of ?S"
    by (rule sys_reach.start) (simp_all add: wire_libs_def ex_libs_def)
  have st: "global (app_rules ex_app) = Some (shared ?S)" "clock ?S \<le> fst (k_check ex_clock)"
    "valid_user ''alice''" "admits wire_libs ex_clock ex_app ''alice''"
    "dc_Exchange ex_client = (\<lambda>a msg addr. ask_edge wire_libs ex_clock ''alice'' a msg)"
    by (simp_all add: ex_app_def ex_checker_def ex_clock_def valid_user_def admits_def ex_client_def mem_client_def)
  have d: "''ads.tracker.com'' \<in> set defaultFallback" by (simp add: defaultFallback_def)
  have C: "dns_questions ex_client" unfolding ex_client_def by (rule mq.dns_questions_axioms)
  have Wi: "dns_wire (lib_dns wire_libs)" by (simp add: wire_libs_def mw.dns_wire_axioms)
  from smoke_test_blocks [OF D Wi C E reach st d] show ?thesis by blast
qed

end
