(* ===== verification/Lifecycle.thy ===== *)
theory Lifecycle imports Startup begin

text \<open>
  The life of an edge process: the goroutines that \<^verbatim>\<open>cmd/edgedns/main.go\<close> starts, how it waits for
  them, and the servers \<^verbatim>\<open>RunStd\<close>, \<^verbatim>\<open>RunDoH\<close> and \<^verbatim>\<open>RunDoT\<close> of \<^verbatim>\<open>internal/server\<close> as main sees
  them.

  The state holds what the goroutines share: whether the context is cancelled, the channel of
  errors, which servers have returned, the accept loop of the DoT server with the connections whose
  handlers are running, and where \<^verbatim>\<open>main\<close> is. An event is one step of one goroutine or of the
  outside world; \<open>proc_step\<close> is \<open>None\<close> for an event that cannot happen now. Every
  interleaving of the goroutines is a sequence of events.
\<close>

section \<open>What the servers return\<close>

text \<open>What ends the wait of a server that is up: the context, or an error of its listener.\<close>

datatype outcome = CtxCancelled | ServeError string

definition ctx_Err :: string where "ctx_Err = ''context canceled''"

text \<open>\<open>None\<close>: the server returns without an error.\<close>

definition RunStd :: "outcome \<Rightarrow> string option" where
  "RunStd w = (case w of CtxCancelled \<Rightarrow> Some ctx_Err | ServeError err \<Rightarrow> Some err)"

definition RunDoH :: "cert_error + 't \<Rightarrow> outcome \<Rightarrow> string option" where
  "RunDoH tlsCert w =
     (case tlsCert of
        Inl err \<Rightarrow> Some ''certificate''
      | Inr c \<Rightarrow> (case w of CtxCancelled \<Rightarrow> None | ServeError err \<Rightarrow> Some err))"

definition runMetrics :: "outcome \<Rightarrow> string option" where
  "runMetrics w = (case w of CtxCancelled \<Rightarrow> None | ServeError err \<Rightarrow> Some err)"

section \<open>The process\<close>

datatype server = Std | DoH | DoT | Metrics

datatype main_phase = Selecting | WaitingServers | WaitingAggregator | Stopped

datatype dot_phase = DotStarting | DotAccepting | DotDraining

record proc =
  ctx_cancelled :: bool
  errCh :: "string list"
  running :: "server list"
  dot_state :: dot_phase
  dot_listener :: bool
  dot_conns :: "nat list"
  agg_worker :: bool
  main_at :: main_phase

definition errCh_cap :: nat where "errCh_cap = 4"

definition proc_init :: proc where
  "proc_init = \<lparr>ctx_cancelled = False, errCh = [], running = [Std, DoH, DoT, Metrics], dot_state = DotStarting,
                dot_listener = False, dot_conns = [], agg_worker = True, main_at = Selecting\<rparr>"

datatype proc_event =
    SignalReceived | ErrorReceived
  | Returns server outcome
  | DotStartFails string | DotListens | DotAccepts nat | DotAcceptFails | DotListenerCloses | DotConnEnds nat | DotReturns
  | ServersDone | WorkerStops | AggregatorDone

text \<open>The goroutine of a server ends: it reports the error, if any, and is done.\<close>

definition server_returns :: "server \<Rightarrow> string option \<Rightarrow> proc \<Rightarrow> proc option" where
  "server_returns s res p =
     (if s \<notin> set (running p) then None
      else case res of
             None \<Rightarrow> Some (p\<lparr>running := remove1 s (running p)\<rparr>)
           | Some err \<Rightarrow>
               (if length (errCh p) < errCh_cap
                then Some (p\<lparr>errCh := errCh p @ [err], running := remove1 s (running p)\<rparr>)
                else None))"

text \<open>The accept loop of the DoT server; \<open>DotDraining\<close> is its \<^verbatim>\<open>wg.Wait\<close>.\<close>

definition RunDoT :: "proc \<Rightarrow> proc_event \<Rightarrow> proc option" where
  "RunDoT p ev =
     (case ev of
        DotStartFails err \<Rightarrow> if dot_state p = DotStarting then server_returns DoT (Some err) p else None
      | DotListens \<Rightarrow>
          if DoT \<in> set (running p) \<and> dot_state p = DotStarting then Some (p\<lparr>dot_state := DotAccepting, dot_listener := True\<rparr>) else None
      | DotAccepts c \<Rightarrow>
          if dot_state p = DotAccepting \<and> dot_listener p \<and> c \<notin> set (dot_conns p)
          then Some (p\<lparr>dot_conns := dot_conns p @ [c]\<rparr>) else None
      | DotAcceptFails \<Rightarrow>
          if dot_state p = DotAccepting then (if ctx_cancelled p then Some (p\<lparr>dot_state := DotDraining\<rparr>) else Some p) else None
      | DotListenerCloses \<Rightarrow>
          if dot_listener p \<and> ctx_cancelled p then Some (p\<lparr>dot_listener := False\<rparr>) else None
      | DotConnEnds c \<Rightarrow>
          if c \<in> set (dot_conns p) then Some (p\<lparr>dot_conns := remove1 c (dot_conns p)\<rparr>) else None
      | DotReturns \<Rightarrow>
          if dot_state p = DotDraining \<and> dot_conns p = [] then server_returns DoT (Some ctx_Err) p else None
      | _ \<Rightarrow> None)"

text \<open>A server other than DoT returns when the context is cancelled, or at any time with an error.\<close>

definition run_result :: "server \<Rightarrow> outcome \<Rightarrow> string option" where
  "run_result s w =
     (case s of Std \<Rightarrow> RunStd w | DoH \<Rightarrow> RunDoH (Inr ()) w | Metrics \<Rightarrow> runMetrics w | DoT \<Rightarrow> None)"

definition proc_step :: "proc \<Rightarrow> proc_event \<Rightarrow> proc option" where
  "proc_step p ev =
     (case ev of
        SignalReceived \<Rightarrow>
          if main_at p = Selecting then Some (p\<lparr>ctx_cancelled := True, main_at := WaitingServers\<rparr>) else None
      | ErrorReceived \<Rightarrow>
          (case errCh p of
             [] \<Rightarrow> None
           | err # rest \<Rightarrow>
               if main_at p = Selecting then Some (p\<lparr>errCh := rest, ctx_cancelled := True, main_at := WaitingServers\<rparr>) else None)
      | Returns s w \<Rightarrow>
          if s = DoT \<or> (w = CtxCancelled \<and> \<not> ctx_cancelled p) then None else server_returns s (run_result s w) p
      | ServersDone \<Rightarrow>
          if main_at p = WaitingServers \<and> running p = [] then Some (p\<lparr>main_at := WaitingAggregator\<rparr>) else None
      | WorkerStops \<Rightarrow> if agg_worker p \<and> ctx_cancelled p then Some (p\<lparr>agg_worker := False\<rparr>) else None
      | AggregatorDone \<Rightarrow>
          if main_at p = WaitingAggregator \<and> \<not> agg_worker p then Some (p\<lparr>main_at := Stopped\<rparr>) else None
      | _ \<Rightarrow> RunDoT p ev)"

fun proc_run :: "proc \<Rightarrow> proc_event list \<Rightarrow> proc option" where
  "proc_run p [] = Some p"
| "proc_run p (ev # evs) = (case proc_step p ev of None \<Rightarrow> None | Some p' \<Rightarrow> proc_run p' evs)"

section \<open>The invariant\<close>

definition proc_inv :: "proc \<Rightarrow> bool" where
  "proc_inv p \<longleftrightarrow>
     distinct (running p) \<and> length (errCh p) + length (running p) \<le> errCh_cap \<and>
     (ctx_cancelled p \<longleftrightarrow> main_at p \<noteq> Selecting) \<and>
     (main_at p = WaitingAggregator \<or> main_at p = Stopped \<longrightarrow> running p = []) \<and>
     (main_at p = Stopped \<longrightarrow> \<not> agg_worker p) \<and>
     (DoT \<notin> set (running p) \<longrightarrow> dot_state p \<noteq> DotAccepting \<and> dot_conns p = []) \<and>
     (dot_state p = DotStarting \<longrightarrow> dot_conns p = [])"

lemma proc_inv_init: "proc_inv proc_init"
  by (simp add: proc_inv_def proc_init_def errCh_cap_def)

lemma server_returns_cases:
  assumes "server_returns s res p = Some p'"
  shows "s \<in> set (running p) \<and> (\<exists>es. p' = p\<lparr>errCh := errCh p @ es, running := remove1 s (running p)\<rparr> \<and> length es \<le> 1)"
proof (cases res)
  case None
  then show ?thesis using assms
    by (intro conjI exI [of _ "[]"]) (auto simp: server_returns_def split: if_splits)
next
  case (Some err)
  then show ?thesis using assms
    by (intro conjI exI [of _ "[err]"]) (auto simp: server_returns_def split: if_splits)
qed

lemma server_returns_inv:
  assumes "proc_inv p" and "server_returns s res p = Some p'" and "s = DoT \<Longrightarrow> dot_state p \<noteq> DotAccepting \<and> dot_conns p = []"
  shows "proc_inv p'"
proof -
  obtain es where p': "s \<in> set (running p)" "p' = p\<lparr>errCh := errCh p @ es, running := remove1 s (running p)\<rparr>" "length es \<le> 1"
    using server_returns_cases [OF assms(2)] by auto
  have "length (remove1 s (running p)) + 1 = length (running p)"
    using p'(1) by (simp add: length_remove1) (metis One_nat_def Suc_pred length_pos_if_in_set)
  then show ?thesis using assms(1,3) p'
    by (cases "s = DoT") (auto simp: proc_inv_def in_set_remove1)
qed

lemma dot_frame:
  "RunDoT p ev = Some p' \<Longrightarrow>
   (\<exists>err. ev = DotStartFails err \<and> dot_state p = DotStarting \<and> server_returns DoT (Some err) p = Some p') \<or>
   (ev = DotReturns \<and> dot_state p = DotDraining \<and> dot_conns p = [] \<and> server_returns DoT (Some ctx_Err) p = Some p') \<or>
   (\<exists>st l cs. p' = p\<lparr>dot_state := st, dot_listener := l, dot_conns := cs\<rparr> \<and>
      (st = DotAccepting \<and> DoT \<in> set (running p) \<and> dot_state p = DotStarting \<and> cs = dot_conns p \<or>
       st = DotAccepting \<and> dot_state p = DotAccepting \<or>
       st = DotDraining \<and> cs = dot_conns p \<or>
       st = dot_state p \<and> set cs \<subseteq> set (dot_conns p)))"
proof -
  assume step: "RunDoT p ev = Some p'"
  have upd: "p = p\<lparr>dot_state := dot_state p, dot_listener := dot_listener p, dot_conns := dot_conns p\<rparr>" by simp
  show ?thesis
  proof (cases ev)
    case (DotStartFails err)
    with step show ?thesis by (simp add: RunDoT_def split: if_splits)
  next
    case DotReturns
    with step show ?thesis by (simp add: RunDoT_def split: if_splits)
  next
    case DotListens
    with step show ?thesis
      by (intro disjI2 exI [of _ DotAccepting] exI [of _ True] exI [of _ "dot_conns p"]) (auto simp: RunDoT_def split: if_splits)
  next
    case (DotAccepts c)
    with step show ?thesis
      by (intro disjI2 exI [of _ DotAccepting] exI [of _ "dot_listener p"] exI [of _ "dot_conns p @ [c]"])
        (auto simp: RunDoT_def split: if_splits)
  next
    case DotAcceptFails
    with step show ?thesis
      by (intro disjI2 exI [of _ "dot_state p'"] exI [of _ "dot_listener p"] exI [of _ "dot_conns p"])
        (auto simp: RunDoT_def split: if_splits)
  next
    case DotListenerCloses
    with step show ?thesis
      by (intro disjI2 exI [of _ "dot_state p"] exI [of _ False] exI [of _ "dot_conns p"]) (auto simp: RunDoT_def split: if_splits)
  next
    case (DotConnEnds c)
    with step show ?thesis
      by (intro disjI2 exI [of _ "dot_state p"] exI [of _ "dot_listener p"] exI [of _ "remove1 c (dot_conns p)"])
        (auto simp: RunDoT_def split: if_splits dest: in_set_remove1 set_remove1_subset [THEN subsetD])
  qed (use step in \<open>simp_all add: RunDoT_def\<close>)
qed

lemma RunDoT_inv:
  assumes "proc_inv p" and "RunDoT p ev = Some p'"
  shows "proc_inv p'"
  using dot_frame [OF assms(2)]
proof (elim disjE exE conjE)
  fix err
  assume "dot_state p = DotStarting" "server_returns DoT (Some err) p = Some p'"
  with assms(1) show ?thesis by (intro server_returns_inv [OF assms(1)]) (auto simp: proc_inv_def)
next
  assume "dot_state p = DotDraining" "dot_conns p = []" "server_returns DoT (Some ctx_Err) p = Some p'"
  then show ?thesis by (intro server_returns_inv [OF assms(1)]) auto
qed (use assms(1) in \<open>auto simp: proc_inv_def\<close>)

lemma proc_step_inv:
  assumes "proc_inv p" and "proc_step p ev = Some p'"
  shows "proc_inv p'"
proof (cases "\<exists>s w. ev = Returns s w")
  case True
  then obtain s w where ev: "ev = Returns s w" by blast
  with assms(2) have "s \<noteq> DoT" "server_returns s (run_result s w) p = Some p'" by (auto simp: proc_step_def split: if_splits)
  then show ?thesis by (intro server_returns_inv [OF assms(1)]) auto
next
  case False
  show ?thesis
  proof (cases "RunDoT p ev = Some p'")
    case True
    then show ?thesis by (rule RunDoT_inv [OF assms(1)])
  next
    case no: False
    with False assms show ?thesis
      by (cases ev) (auto simp: proc_step_def proc_inv_def split: if_splits list.splits)
  qed
qed

lemma proc_run_inv: "proc_inv p \<Longrightarrow> proc_run p evs = Some p' \<Longrightarrow> proc_inv p'"
  by (induction p evs rule: proc_run.induct) (auto split: option.splits dest: proc_step_inv)

lemma proc_run_append: "proc_run p (evs @ evs') = (case proc_run p evs of None \<Rightarrow> None | Some p' \<Rightarrow> proc_run p' evs')"
  by (induction p evs rule: proc_run.induct) (auto split: option.split)

text \<open>An open connection stays open until its handler returns.\<close>

lemma proc_step_conn: "proc_step p ev = Some p' \<Longrightarrow> c \<in> set (dot_conns p) \<Longrightarrow> ev \<noteq> DotConnEnds c \<Longrightarrow> c \<in> set (dot_conns p')"
  by (cases ev) (auto simp: proc_step_def RunDoT_def in_set_remove1 split: if_splits list.splits dest!: server_returns_cases)

lemma proc_run_conn:
  "proc_run p evs = Some p' \<Longrightarrow> c \<in> set (dot_conns p) \<Longrightarrow> DotConnEnds c \<notin> set evs \<Longrightarrow> c \<in> set (dot_conns p')"
  by (induction p evs rule: proc_run.induct) (auto split: option.splits dest: proc_step_conn)

section \<open>Progress of the shutdown\<close>

text \<open>How far a cancelled process is from its end.\<close>

definition shutdown_left :: "proc \<Rightarrow> nat" where
  "shutdown_left p =
     length (dot_conns p) + 2 * length (running p) + (if dot_listener p then 1 else 0) + (if agg_worker p then 1 else 0) +
     (case dot_state p of DotStarting \<Rightarrow> 3 | DotAccepting \<Rightarrow> 1 | DotDraining \<Rightarrow> 0) +
     (case main_at p of Selecting \<Rightarrow> 3 | WaitingServers \<Rightarrow> 2 | WaitingAggregator \<Rightarrow> 1 | Stopped \<Rightarrow> 0)"

lemma server_returns_ready:
  assumes "proc_inv p" and "s \<in> set (running p)"
  shows "\<exists>p'. server_returns s res p = Some p' \<and> ctx_cancelled p' = ctx_cancelled p \<and> shutdown_left p' < shutdown_left p"
proof -
  have cap: "length (errCh p) + length (running p) \<le> errCh_cap" using assms(1) by (simp add: proc_inv_def)
  have "length (running p) > 0" using assms(2) by (rule length_pos_if_in_set)
  moreover from this cap have "length (errCh p) < errCh_cap" by linarith
  moreover have "length (remove1 s (running p)) < length (running p)"
    using assms(2) calculation(1) by (simp add: length_remove1)
  ultimately show ?thesis using assms(2) by (cases res) (simp_all add: server_returns_def shutdown_left_def)
qed

lemma dot_progress:
  assumes "proc_inv p" and "ctx_cancelled p" and "DoT \<in> set (running p)"
  shows "\<exists>ev p'. proc_step p ev = Some p' \<and> ctx_cancelled p' \<and> shutdown_left p' < shutdown_left p"
proof (cases "dot_state p")
  case DotStarting
  with assms show ?thesis
    by (intro exI [of _ DotListens]) (simp add: proc_step_def RunDoT_def shutdown_left_def)
next
  case DotAccepting
  show ?thesis
  proof (cases "dot_listener p")
    case True
    with DotAccepting assms show ?thesis
      by (intro exI [of _ DotListenerCloses]) (simp add: proc_step_def RunDoT_def shutdown_left_def)
  next
    case False
    with DotAccepting assms show ?thesis
      by (intro exI [of _ DotAcceptFails]) (simp add: proc_step_def RunDoT_def shutdown_left_def)
  qed
next
  case DotDraining
  show ?thesis
  proof (cases "dot_conns p")
    case Nil
    with server_returns_ready [OF assms(1,3), of "Some ctx_Err"] DotDraining assms(2) show ?thesis
      by (intro exI [of _ DotReturns]) (simp add: proc_step_def RunDoT_def)
  next
    case (Cons c cs)
    with DotDraining assms show ?thesis
      by (intro exI [of _ "DotConnEnds c"]) (simp add: proc_step_def RunDoT_def shutdown_left_def)
  qed
qed

lemma shutdown_progress:
  assumes "proc_inv p" and "ctx_cancelled p" and "main_at p \<noteq> Stopped"
  shows "\<exists>ev p'. proc_step p ev = Some p' \<and> ctx_cancelled p' \<and> shutdown_left p' < shutdown_left p"
proof (cases "main_at p")
  case Selecting
  with assms show ?thesis by (simp add: proc_inv_def)
next
  case WaitingAggregator
  show ?thesis
  proof (cases "agg_worker p")
    case True
    with assms(2) WaitingAggregator show ?thesis by (intro exI [of _ WorkerStops]) (simp add: proc_step_def shutdown_left_def)
  next
    case False
    with assms(2) WaitingAggregator show ?thesis by (intro exI [of _ AggregatorDone]) (simp add: proc_step_def shutdown_left_def)
  qed
next
  case WaitingServers
  show ?thesis
  proof (cases "running p")
    case Nil
    with assms(2) WaitingServers show ?thesis by (intro exI [of _ ServersDone]) (simp add: proc_step_def shutdown_left_def)
  next
    case (Cons s ss)
    then have s: "s \<in> set (running p)" by simp
    show ?thesis
    proof (cases "s = DoT")
      case True
      with s dot_progress [OF assms(1,2)] show ?thesis by simp
    next
      case False
      with server_returns_ready [OF assms(1) s, of "run_result s CtxCancelled"] assms(2) show ?thesis
        by (intro exI [of _ "Returns s CtxCancelled"]) (simp add: proc_step_def)
    qed
  qed
qed (use assms in simp)

lemma shutdown_run:
  assumes "proc_inv p" and "ctx_cancelled p"
  shows "\<exists>evs p'. proc_run p evs = Some p' \<and> main_at p' = Stopped \<and> length evs \<le> shutdown_left p"
  using assms
proof (induction "shutdown_left p" arbitrary: p rule: less_induct)
  case less
  show ?case
  proof (cases "main_at p = Stopped")
    case True
    then show ?thesis by (intro exI [of _ "[]"]) simp
  next
    case False
    then obtain ev p1 where st: "proc_step p ev = Some p1" "ctx_cancelled p1" "shutdown_left p1 < shutdown_left p"
      using shutdown_progress [OF less.prems] by blast
    from less.hyps [OF st(3) proc_step_inv [OF less.prems(1) st(1)] st(2)] obtain evs p' where
      "proc_run p1 evs = Some p'" "main_at p' = Stopped" "length evs \<le> shutdown_left p1" by blast
    with st show ?thesis by (intro exI [of _ "ev # evs"]) simp
  qed
qed

section \<open>Properties\<close>

text \<open>
  C11. However the goroutines are interleaved: no server is ever stuck reporting its error, since the
  channel of four errors has room for every server that is still running; and when the program
  ends, the context is cancelled, every server has returned, no DoT connection is left, and the log
  worker has flushed its batch.
\<close>

theorem process_ends_cleanly:
  assumes "proc_run proc_init evs = Some p"
  shows "(s \<in> set (running p) \<longrightarrow> server_returns s res p \<noteq> None) \<and>
         (main_at p = Stopped \<longrightarrow> ctx_cancelled p \<and> running p = [] \<and> dot_conns p = [] \<and> \<not> agg_worker p)"
proof -
  have inv: "proc_inv p" by (rule proc_run_inv [OF proc_inv_init assms])
  show ?thesis
  proof (intro conjI impI)
    assume "s \<in> set (running p)"
    from server_returns_ready [OF inv this, of res] show "server_returns s res p \<noteq> None" by auto
  qed (use inv in \<open>auto simp: proc_inv_def\<close>)
qed

text \<open>
  Once the context is cancelled, by a signal or by a failing server, the program can end from
  every state it can be in, in a number of steps bounded by the open connections and the servers
  that still run: no interleaving leads into a deadlock.
\<close>

theorem shutdown_can_complete:
  assumes "proc_run proc_init evs = Some p" and "ctx_cancelled p"
  shows "\<exists>evs' p'. proc_run p evs' = Some p' \<and> main_at p' = Stopped \<and> length evs' \<le> length (dot_conns p) + 2 * length (running p) + 8"
proof -
  obtain evs' p' where "proc_run p evs' = Some p'" "main_at p' = Stopped" "length evs' \<le> shutdown_left p"
    using shutdown_run [OF proc_run_inv [OF proc_inv_init assms(1)] assms(2)] by blast
  moreover have "main_at p \<noteq> Selecting" using proc_run_inv [OF proc_inv_init assms(1)] assms(2) by (simp add: proc_inv_def)
  then have "shutdown_left p \<le> length (dot_conns p) + 2 * length (running p) + 8"
    by (simp add: shutdown_left_def split: dot_phase.split main_phase.split)
  ultimately show ?thesis by (intro exI [of _ evs'] exI [of _ p']) simp
qed

text \<open>
  C38. The program cannot end without its DoT clients: handlers read without a deadline and shutdown
  does not close their connections, so as long as one client keeps a connection open, no sequence
  of events ends the program, signal or not.
\<close>

theorem shutdown_waits_for_dot_clients:
  assumes "proc_run proc_init evs = Some p" and "c \<in> set (dot_conns p)"
    and "proc_run p evs' = Some p'" and "DotConnEnds c \<notin> set evs'"
  shows "main_at p' \<noteq> Stopped"
proof
  assume "main_at p' = Stopped"
  moreover have "proc_inv p'" by (rule proc_run_inv [OF proc_run_inv [OF proc_inv_init assms(1)] assms(3)])
  ultimately have "dot_conns p' = []" by (simp add: proc_inv_def)
  with proc_run_conn [OF assms(3,2,4)] show False by simp
qed

subsection \<open>Witnesses\<close>

definition ex_start_events :: "proc_event list" where
  "ex_start_events = [DotListens, DotAccepts 1, DotAccepts 2, DotConnEnds 1, SignalReceived]"

definition ex_end_events :: "proc_event list" where
  "ex_end_events = [WorkerStops, DotListenerCloses, DotAcceptFails, Returns DoH CtxCancelled, Returns Std CtxCancelled,
     Returns Metrics CtxCancelled]"

definition ex_proc :: proc where
  "ex_proc = the (proc_run proc_init ex_start_events)"

lemma ex_proc_run: "proc_run proc_init ex_start_events = Some ex_proc" "ctx_cancelled ex_proc" "dot_conns ex_proc = [2]"
  "running ex_proc = [Std, DoH, DoT, Metrics]"
  by code_simp+

theorem process_ends_cleanly_witness: "server_returns DoT (Some ctx_Err) ex_proc \<noteq> None"
  using process_ends_cleanly [OF ex_proc_run(1), of DoT "Some ctx_Err"] by (simp add: ex_proc_run(4))

theorem shutdown_can_complete_witness: "\<exists>evs' p'. proc_run ex_proc evs' = Some p' \<and> main_at p' = Stopped \<and> length evs' \<le> 17"
  using shutdown_can_complete [OF ex_proc_run(1,2)] by (simp add: ex_proc_run(3,4))

theorem shutdown_waits_for_dot_clients_witness:
  "main_at (the (proc_run ex_proc ex_end_events)) \<noteq> Stopped \<and> running (the (proc_run ex_proc ex_end_events)) = [DoT]"
proof -
  have "proc_run ex_proc ex_end_events \<noteq> None" "running (the (proc_run ex_proc ex_end_events)) = [DoT]" by code_simp+
  moreover have "DotConnEnds 2 \<notin> set ex_end_events" by (simp add: ex_end_events_def)
  ultimately show ?thesis
    using shutdown_waits_for_dot_clients [OF ex_proc_run(1), of 2 ex_end_events] by (auto simp: ex_proc_run(3))
qed

end
