(* ===== verification/Listeners.thy ===== *)
theory Listeners imports Lifecycle begin

text \<open>
  The servers of an edge process in detail: \<^verbatim>\<open>RunStd\<close> of \<^verbatim>\<open>internal/server/std.go\<close> with its two
  listeners, and the two HTTP servers, \<^verbatim>\<open>RunDoH\<close> of \<^verbatim>\<open>internal/server/doh.go\<close> and the metrics server
  of \<^verbatim>\<open>cmd/edgedns/main.go\<close>, with their requests in flight.

  Theory \<open>Lifecycle\<close> sees of each of them only what it returns. Here each is a machine of its
  own whose steps are those of its goroutines, and \<open>edge_step\<close> runs the three beside the rest of
  the process. \<open>edge_run_refines\<close> is the simulation: what \<open>Lifecycle\<close> shows of every run of
  the process holds of every detailed run. What the libraries do is documented behaviour:
  \<^verbatim>\<open>ListenAndServe\<close> of a DNS server returns nil after a shutdown, and a shutdown of one that is not
  started has no effect; \<^verbatim>\<open>ListenAndServe\<close> of an HTTP server returns \<^verbatim>\<open>ErrServerClosed\<close> as soon as
  \<^verbatim>\<open>Shutdown\<close> is called, while requests are in flight.
\<close>

section \<open>What is started\<close>

datatype net = UDP | TCP

record dns_server =
  srv_Addr :: string
  srv_Net :: net
  srv_User :: string \<comment> \<open>the user of its handler\<close>

definition std_servers :: "environ \<Rightarrow> string \<Rightarrow> dns_server list" where
  "std_servers E addr =
     (let user = envStdUserID (Getenv E)
      in [\<lparr>srv_Addr = addr, srv_Net = UDP, srv_User = user\<rparr>,
          \<lparr>srv_Addr = addr, srv_Net = TCP, srv_User = user\<rparr>])"

record 't tls_server =
  ts_Addr :: string
  ts_Certificates :: "'t list"
  ts_MinVersion :: "16 word"

definition VersionTLS12 :: "16 word" where
  "VersionTLS12 = 0x0303"

definition doh_server :: "('p, 't) crypto \<Rightarrow> environ \<Rightarrow> time \<Rightarrow> string \<Rightarrow> cert_error + 't tls_server" where
  "doh_server K E now addr =
     (case LoadFromEnv K E now of
        Inl err \<Rightarrow> Inl err
      | Inr tlsCert \<Rightarrow>
          Inr \<lparr>ts_Addr = addr, ts_Certificates = [tlsCert], ts_MinVersion = VersionTLS12\<rparr>)"

definition dot_server :: "('p, 't) crypto \<Rightarrow> environ \<Rightarrow> time \<Rightarrow> string \<Rightarrow> cert_error + 't tls_server" where
  "dot_server K E now addr =
     (case LoadFromEnv K E now of
        Inl err \<Rightarrow> Inl err
      | Inr tlsCert \<Rightarrow>
          Inr \<lparr>ts_Addr = addr, ts_Certificates = [tlsCert], ts_MinVersion = VersionTLS12\<rparr>)"

text \<open>
  With a configured certificate both servers present that one, whenever they start; without one
  each makes its own, valid from an hour before its start and for a year.
\<close>

lemma tls_servers_agree:
  assumes "doh_server K E t1 a1 = Inr s1" and "dot_server K E t2 a2 = Inr s2"
    and "Getenv E ''TLS_CERT_FILE'' \<noteq> []" and "Getenv E ''TLS_KEY_FILE'' \<noteq> []"
  shows "ts_Certificates s1 = ts_Certificates s2" and "ts_MinVersion s1 = VersionTLS12" and "ts_MinVersion s2 = VersionTLS12"
  using assms by (auto simp: doh_server_def dot_server_def LoadFromEnv_def Let_def split: sum.splits)

section \<open>RunStd\<close>

datatype listener = NotListening | Serving | ShutDown | Ended

datatype return_state = Running | Returned "string option"

record std_run =
  std_listener :: "net \<Rightarrow> listener"
  std_errCh :: "string list"
  std_main :: return_state

definition std_init :: std_run where
  "std_init = \<lparr>std_listener = (\<lambda>_. NotListening), std_errCh = [], std_main = Running\<rparr>"

definition std_errCh_cap :: nat where "std_errCh_cap = 2"

datatype std_event =
    StdListens net
  | StdFails net string \<comment> \<open>\<^verbatim>\<open>ListenAndServe\<close> returns an error\<close>
  | StdEnds net \<comment> \<open>\<^verbatim>\<open>ListenAndServe\<close> returns nil\<close>
  | StdCtxDone
  | StdErr

text \<open>\<^verbatim>\<open>ShutdownContext\<close>, whose error the source ignores.\<close>

definition shutdown_listener :: "listener \<Rightarrow> listener" where
  "shutdown_listener l = (if l = Serving then ShutDown else l)"

definition std_step :: "bool \<Rightarrow> std_run \<Rightarrow> std_event \<Rightarrow> std_run option" where
  "std_step cancelled s ev =
     (case ev of
        StdListens n \<Rightarrow>
          if std_listener s n = NotListening
          then Some (s\<lparr>std_listener := (std_listener s)(n := Serving)\<rparr>) else None
      | StdFails n err \<Rightarrow>
          if std_listener s n \<in> {NotListening, Serving} \<and> length (std_errCh s) < std_errCh_cap
          then Some (s\<lparr>std_listener := (std_listener s)(n := Ended), std_errCh := std_errCh s @ [err]\<rparr>)
          else None
      | StdEnds n \<Rightarrow>
          if std_listener s n = ShutDown
          then Some (s\<lparr>std_listener := (std_listener s)(n := Ended)\<rparr>) else None
      | StdCtxDone \<Rightarrow>
          if cancelled \<and> std_main s = Running
          then Some (s\<lparr>std_listener := (\<lambda>n. shutdown_listener (std_listener s n)),
                       std_main := Returned (Some ctx_Err)\<rparr>)
          else None
      | StdErr \<Rightarrow>
          (case std_errCh s of
             [] \<Rightarrow> None
           | err # rest \<Rightarrow>
               if std_main s = Running
               then Some (s\<lparr>std_errCh := rest, std_main := Returned (Some err)\<rparr>) else None))"

section \<open>The HTTP servers\<close>

datatype http_state = HttpLoading | HttpStarting | HttpServing | HttpShutdown

record http_run =
  http_state :: http_state
  http_requests :: "nat list" \<comment> \<open>in flight\<close>
  http_main :: return_state

text \<open>\<^verbatim>\<open>RunDoH\<close> begins with its certificate; the metrics server has none to load.\<close>

definition doh_init :: http_run where
  "doh_init = \<lparr>http_state = HttpLoading, http_requests = [], http_main = Running\<rparr>"

definition metrics_init :: http_run where
  "metrics_init = \<lparr>http_state = HttpStarting, http_requests = [], http_main = Running\<rparr>"

datatype http_event =
    HttpCertLoaded
  | HttpCertFails string
  | HttpListens
  | HttpFails string
  | HttpRequest nat
  | HttpAnswered nat
  | HttpCtxDone \<comment> \<open>the goroutine that waits for the context calls \<^verbatim>\<open>Shutdown\<close>\<close>
  | HttpClosed \<comment> \<open>\<^verbatim>\<open>ListenAndServe\<close> returns \<^verbatim>\<open>ErrServerClosed\<close>\<close>

definition http_step :: "bool \<Rightarrow> http_run \<Rightarrow> http_event \<Rightarrow> http_run option" where
  "http_step cancelled h ev =
     (case ev of
        HttpCertLoaded \<Rightarrow>
          if http_state h = HttpLoading \<and> http_main h = Running
          then Some (h\<lparr>http_state := HttpStarting\<rparr>) else None
      | HttpCertFails err \<Rightarrow>
          if http_state h = HttpLoading \<and> http_main h = Running
          then Some (h\<lparr>http_main := Returned (Some err)\<rparr>) else None
      | HttpListens \<Rightarrow>
          if http_state h = HttpStarting \<and> http_main h = Running
          then Some (h\<lparr>http_state := HttpServing\<rparr>) else None
      | HttpFails err \<Rightarrow>
          if http_state h \<in> {HttpStarting, HttpServing} \<and> http_main h = Running
          then Some (h\<lparr>http_main := Returned (Some err)\<rparr>) else None
      | HttpRequest c \<Rightarrow>
          if http_state h = HttpServing \<and> http_main h = Running \<and> c \<notin> set (http_requests h)
          then Some (h\<lparr>http_requests := http_requests h @ [c]\<rparr>) else None
      | HttpAnswered c \<Rightarrow>
          if c \<in> set (http_requests h)
          then Some (h\<lparr>http_requests := remove1 c (http_requests h)\<rparr>) else None
      | HttpCtxDone \<Rightarrow>
          if cancelled \<and> http_state h \<in> {HttpStarting, HttpServing}
          then Some (h\<lparr>http_state := HttpShutdown\<rparr>) else None
      | HttpClosed \<Rightarrow>
          if http_state h = HttpShutdown \<and> http_main h = Running
          then Some (h\<lparr>http_main := Returned None\<rparr>) else None)"

section \<open>The whole process\<close>

record edge_proc =
  proc_of :: proc
  std_of :: std_run
  doh_of :: http_run
  met_of :: http_run

definition edge_init :: edge_proc where
  "edge_init = \<lparr>proc_of = proc_init, std_of = std_init, doh_of = doh_init, met_of = metrics_init\<rparr>"

datatype edge_event =
    StdEvent std_event | DohEvent http_event | MetEvent http_event
  | Reports server \<comment> \<open>the goroutine of the server hands its result to \<^verbatim>\<open>main\<close>\<close>
  | ProcEvent proc_event

definition result_of :: "edge_proc \<Rightarrow> server \<Rightarrow> return_state" where
  "result_of e s =
     (case s of Std \<Rightarrow> std_main (std_of e) | DoH \<Rightarrow> http_main (doh_of e)
      | Metrics \<Rightarrow> http_main (met_of e) | DoT \<Rightarrow> Running)"

definition edge_step :: "edge_proc \<Rightarrow> edge_event \<Rightarrow> edge_proc option" where
  "edge_step e ev =
     (let cancelled = ctx_cancelled (proc_of e)
      in if main_at (proc_of e) = Stopped then None
         else case ev of
           StdEvent a \<Rightarrow> map_option (\<lambda>s. e\<lparr>std_of := s\<rparr>) (std_step cancelled (std_of e) a)
         | DohEvent a \<Rightarrow> map_option (\<lambda>h. e\<lparr>doh_of := h\<rparr>) (http_step cancelled (doh_of e) a)
         | MetEvent a \<Rightarrow> map_option (\<lambda>h. e\<lparr>met_of := h\<rparr>) (http_step cancelled (met_of e) a)
         | Reports s \<Rightarrow>
             (case result_of e s of
                Running \<Rightarrow> None
              | Returned res \<Rightarrow> map_option (\<lambda>p. e\<lparr>proc_of := p\<rparr>) (server_returns s res (proc_of e)))
         | ProcEvent a \<Rightarrow>
             (case a of
                Returns s w \<Rightarrow> None
              | _ \<Rightarrow> map_option (\<lambda>p. e\<lparr>proc_of := p\<rparr>) (proc_step (proc_of e) a)))"

fun edge_run :: "edge_proc \<Rightarrow> edge_event list \<Rightarrow> edge_proc option" where
  "edge_run e [] = Some e"
| "edge_run e (ev # evs) = (case edge_step e ev of None \<Rightarrow> None | Some e' \<Rightarrow> edge_run e' evs)"

section \<open>The simulation\<close>

text \<open>A server that has returned without an error, or with that of the context, was cancelled.\<close>

definition edge_inv :: "edge_proc \<Rightarrow> bool" where
  "edge_inv e \<longleftrightarrow>
     (\<not> ctx_cancelled (proc_of e) \<longrightarrow>
        http_state (doh_of e) \<noteq> HttpShutdown \<and> http_state (met_of e) \<noteq> HttpShutdown) \<and>
     (http_main (doh_of e) = Returned None \<longrightarrow> http_state (doh_of e) = HttpShutdown) \<and>
     (http_main (met_of e) = Returned None \<longrightarrow> http_state (met_of e) = HttpShutdown) \<and>
     std_main (std_of e) \<noteq> Returned None"

lemma proc_step_cancelled: "proc_step p ev = Some p' \<Longrightarrow> ctx_cancelled p \<Longrightarrow> ctx_cancelled p'"
  by (cases ev) (auto simp: proc_step_def RunDoT_def split: if_splits list.splits dest!: server_returns_cases)

lemma http_step_inv:
  assumes "http_step x h ev = Some h'" and "\<not> x \<Longrightarrow> http_state h \<noteq> HttpShutdown"
    and "http_main h = Returned None \<Longrightarrow> http_state h = HttpShutdown"
  shows "(\<not> x \<longrightarrow> http_state h' \<noteq> HttpShutdown) \<and>
         (http_main h' = Returned None \<longrightarrow> http_state h' = HttpShutdown)"
  using assms by (cases ev) (auto simp: http_step_def split: if_splits)

lemma std_step_inv:
  "std_step x s ev = Some s' \<Longrightarrow> std_main s \<noteq> Returned None \<Longrightarrow> std_main s' \<noteq> Returned None"
  by (cases ev) (auto simp: std_step_def split: if_splits list.splits)

lemma edge_step_inv:
  assumes "edge_step e ev = Some e'" and "edge_inv e"
  shows "edge_inv e'"
proof (cases ev)
  case (StdEvent a)
  with assms show ?thesis
    by (auto simp: edge_step_def edge_inv_def Let_def split: if_splits dest: std_step_inv)
next
  case (DohEvent a)
  with assms show ?thesis
    using http_step_inv [of "ctx_cancelled (proc_of e)" "doh_of e" a]
    by (auto simp: edge_step_def edge_inv_def Let_def split: if_splits)
next
  case (MetEvent a)
  with assms show ?thesis
    using http_step_inv [of "ctx_cancelled (proc_of e)" "met_of e" a]
    by (auto simp: edge_step_def edge_inv_def Let_def split: if_splits)
next
  case (Reports s)
  with assms show ?thesis
    by (auto simp: edge_step_def edge_inv_def Let_def split: if_splits return_state.splits
        dest!: server_returns_cases)
next
  case (ProcEvent a)
  with assms obtain p where "proc_step (proc_of e) a = Some p" "e' = e\<lparr>proc_of := p\<rparr>"
    by (cases a) (auto simp: edge_step_def Let_def split: if_splits)
  with assms(2) show ?thesis by (auto simp: edge_inv_def dest: proc_step_cancelled)
qed

lemma edge_step_refines:
  assumes "edge_step e ev = Some e'" and "edge_inv e"
  shows "proc_of e' = proc_of e \<or> (\<exists>a. proc_step (proc_of e) a = Some (proc_of e'))"
proof (cases ev)
  case (Reports s)
  with assms(1) obtain res p where res: "result_of e s = Returned res"
    and p: "server_returns s res (proc_of e) = Some p" and e': "e' = e\<lparr>proc_of := p\<rparr>"
    by (auto simp: edge_step_def Let_def split: if_splits return_state.splits)
  have s: "s \<noteq> DoT" using res by (auto simp: result_of_def)
  show ?thesis
  proof (cases res)
    case None
    then have "s = DoH \<or> s = Metrics" using res assms(2) by (cases s) (auto simp: result_of_def edge_inv_def)
    moreover have "ctx_cancelled (proc_of e)"
      using None res assms(2) calculation by (auto simp: result_of_def edge_inv_def)
    ultimately have "proc_step (proc_of e) (Returns s CtxCancelled) = Some p"
      using p None by (auto simp: proc_step_def run_result_def RunDoH_def runMetrics_def)
    with e' show ?thesis by auto
  next
    case (Some err)
    then have "proc_step (proc_of e) (Returns s (ServeError err)) = Some p"
      using p s by (cases s) (simp_all add: proc_step_def run_result_def RunStd_def RunDoH_def runMetrics_def)
    with e' show ?thesis by auto
  qed
next
  case (ProcEvent a)
  with assms(1) show ?thesis
    by (cases a) (auto simp: edge_step_def Let_def split: if_splits)
qed (use assms(1) in \<open>auto simp: edge_step_def Let_def split: if_splits\<close>)

lemma edge_run_inv: "edge_run e evs = Some e' \<Longrightarrow> edge_inv e \<Longrightarrow> edge_inv e'"
  by (induction e evs rule: edge_run.induct) (auto split: option.splits dest: edge_step_inv)

lemma edge_run_refines:
  "edge_run e evs = Some e' \<Longrightarrow> edge_inv e \<Longrightarrow>
   \<exists>as. proc_run (proc_of e) as = Some (proc_of e') \<and> length as \<le> length evs"
proof (induction e evs rule: edge_run.induct)
  case (1 e)
  then show ?case by (intro exI [of _ "[]"]) simp
next
  case (2 e ev evs)
  then obtain e1 where st: "edge_step e ev = Some e1" and run: "edge_run e1 evs = Some e'"
    by (auto split: option.splits)
  from "2.IH" [OF st run edge_step_inv [OF st "2.prems"(2)]] obtain as where
    as: "proc_run (proc_of e1) as = Some (proc_of e')" "length as \<le> length evs" by blast
  from edge_step_refines [OF st "2.prems"(2)] show ?case
  proof
    assume "proc_of e1 = proc_of e"
    with as show ?thesis by (intro exI [of _ as]) simp
  next
    assume "\<exists>a. proc_step (proc_of e) a = Some (proc_of e1)"
    then obtain a where "proc_step (proc_of e) a = Some (proc_of e1)" ..
    with as show ?thesis by (intro exI [of _ "a # as"]) simp
  qed
qed

lemma edge_inv_init: "edge_inv edge_init"
  by (simp add: edge_inv_def edge_init_def doh_init_def metrics_init_def std_init_def)

section \<open>No listener blocks on its error\<close>

definition std_live :: "std_run \<Rightarrow> net \<Rightarrow> nat" where
  "std_live s n = (if std_listener s n = Ended then 0 else 1)"

definition std_room :: "std_run \<Rightarrow> bool" where
  "std_room s \<longleftrightarrow> length (std_errCh s) + std_live s UDP + std_live s TCP \<le> std_errCh_cap"

lemma std_step_room:
  assumes "std_step x s ev = Some s'" and "std_room s"
  shows "std_room s'"
proof -
  have n: "n = UDP \<or> n = TCP" for n by (cases n) auto
  show ?thesis
  proof (cases ev)
    case (StdFails m err)
    with assms n [of m] show ?thesis by (auto simp: std_step_def std_room_def std_live_def split: if_splits)
  qed (use assms in \<open>auto simp: std_step_def std_room_def std_live_def shutdown_listener_def
         split: if_splits list.splits\<close>)
qed

lemma edge_step_std:
  assumes "edge_step e ev = Some e'"
  shows "std_of e' = std_of e \<or> (\<exists>a. ev = StdEvent a \<and> std_step (ctx_cancelled (proc_of e)) (std_of e) a = Some (std_of e'))"
  using assms
  by (cases ev) (auto simp: edge_step_def Let_def split: if_splits return_state.splits proc_event.splits)

lemma edge_run_room: "edge_run e evs = Some e' \<Longrightarrow> std_room (std_of e) \<Longrightarrow> std_room (std_of e')"
  by (induction e evs rule: edge_run.induct)
    (auto split: option.splits dest!: edge_step_std dest: std_step_room)

lemma edge_run_append:
  "edge_run e (evs @ evs') = (case edge_run e evs of None \<Rightarrow> None | Some e' \<Rightarrow> edge_run e' evs')"
  by (induction e evs rule: edge_run.induct) (auto split: option.split)

section \<open>A listener that nobody shuts down\<close>

lemma std_step_orphan:
  assumes "std_step x s ev = Some s'" and "std_main s \<noteq> Running" and "std_listener s n = Serving"
    and "\<forall>err. ev \<noteq> StdFails n err"
  shows "std_main s' \<noteq> Running \<and> std_listener s' n = Serving"
  using assms by (cases ev) (auto simp: std_step_def split: if_splits list.splits)

lemma edge_run_orphan:
  assumes "edge_run e evs = Some e'" and "std_main (std_of e) \<noteq> Running"
    and "std_listener (std_of e) n = Serving" and "\<And>err. StdEvent (StdFails n err) \<notin> set evs"
  shows "std_listener (std_of e') n = Serving"
  using assms
proof (induction e evs rule: edge_run.induct)
  case (2 e ev evs)
  then obtain e1 where st: "edge_step e ev = Some e1" and run: "edge_run e1 evs = Some e'"
    by (auto split: option.splits)
  have "std_main (std_of e1) \<noteq> Running \<and> std_listener (std_of e1) n = Serving"
    using edge_step_std [OF st]
  proof
    assume "\<exists>a. ev = StdEvent a \<and> std_step (ctx_cancelled (proc_of e)) (std_of e) a = Some (std_of e1)"
    then obtain a where a: "ev = StdEvent a" "std_step (ctx_cancelled (proc_of e)) (std_of e) a = Some (std_of e1)"
      by blast
    from a(1) 2(5) have "\<forall>err. a \<noteq> StdFails n err" by auto
    from std_step_orphan [OF a(2) 2(3,4) this] show ?thesis .
  qed (use 2(3,4) in simp)
  with 2(1) [OF st run] 2(5) show ?case by simp
qed simp

section \<open>The shutdown of the whole\<close>

definition http_left :: "http_run \<Rightarrow> nat" where
  "http_left h =
     (if http_main h \<noteq> Running then 0
      else case http_state h of HttpLoading \<Rightarrow> 3 | HttpStarting \<Rightarrow> 2 | HttpServing \<Rightarrow> 2 | HttpShutdown \<Rightarrow> 1)"

definition edge_left :: "edge_proc \<Rightarrow> nat" where
  "edge_left e =
     shutdown_left (proc_of e) + (if std_main (std_of e) = Running then 1 else 0) +
     http_left (doh_of e) + http_left (met_of e)"

lemma http_progress:
  assumes "http_main h = Running"
  shows "\<exists>a h'. http_step True h a = Some h' \<and> http_left h' < http_left h \<and> http_requests h' = http_requests h"
proof (cases "http_state h")
  case HttpLoading
  with assms show ?thesis
    by (intro exI [of _ HttpCertLoaded]) (simp add: http_step_def http_left_def)
next
  case HttpShutdown
  with assms show ?thesis by (intro exI [of _ HttpClosed]) (simp add: http_step_def http_left_def)
qed (use assms in \<open>intro exI [of _ HttpCtxDone], simp add: http_step_def http_left_def\<close>)+

text \<open>A step towards the end that leaves the requests in flight alone.\<close>

definition nearer :: "edge_proc \<Rightarrow> edge_proc \<Rightarrow> bool" where
  "nearer e e' \<longleftrightarrow>
     ctx_cancelled (proc_of e') \<and> edge_left e' < edge_left e \<and>
     http_requests (doh_of e') = http_requests (doh_of e) \<and>
     http_requests (met_of e') = http_requests (met_of e)"

lemma server_progress:
  assumes inv: "proc_inv (proc_of e)" and c: "ctx_cancelled (proc_of e)"
    and st: "main_at (proc_of e) \<noteq> Stopped" and s: "s \<in> set (running (proc_of e))" "s \<noteq> DoT"
  shows "\<exists>ev e'. edge_step e ev = Some e' \<and> nearer e e'"
proof (cases "result_of e s")
  case (Returned res)
  obtain p where "server_returns s res (proc_of e) = Some p" "ctx_cancelled p = ctx_cancelled (proc_of e)"
    "shutdown_left p < shutdown_left (proc_of e)"
    using server_returns_ready [OF inv s(1)] by blast
  with Returned c st show ?thesis
    by (intro exI [of _ "Reports s"]) (simp add: edge_step_def nearer_def edge_left_def)
next
  case Running
  show ?thesis
  proof (cases s)
    case Std
    with Running c st show ?thesis
      by (intro exI [of _ "StdEvent StdCtxDone"])
        (simp add: result_of_def edge_step_def std_step_def nearer_def edge_left_def)
  next
    case DoH
    with Running have "http_main (doh_of e) = Running" by (simp add: result_of_def)
    with http_progress obtain a h where "http_step True (doh_of e) a = Some h" "http_left h < http_left (doh_of e)"
      "http_requests h = http_requests (doh_of e)" by blast
    with c st show ?thesis
      by (intro exI [of _ "DohEvent a"]) (simp add: edge_step_def nearer_def edge_left_def)
  next
    case Metrics
    with Running have "http_main (met_of e) = Running" by (simp add: result_of_def)
    with http_progress obtain a h where "http_step True (met_of e) a = Some h" "http_left h < http_left (met_of e)"
      "http_requests h = http_requests (met_of e)" by blast
    with c st show ?thesis
      by (intro exI [of _ "MetEvent a"]) (simp add: edge_step_def nearer_def edge_left_def)
  qed (use s in simp)
qed

lemma edge_progress:
  assumes inv: "proc_inv (proc_of e)" and c: "ctx_cancelled (proc_of e)" and st: "main_at (proc_of e) \<noteq> Stopped"
  shows "\<exists>ev e'. edge_step e ev = Some e' \<and> nearer e e'"
proof (cases "\<exists>s \<in> set (running (proc_of e)). s \<noteq> DoT")
  case True
  with server_progress [OF assms] show ?thesis by blast
next
  case False
  obtain a p where p: "proc_step (proc_of e) a = Some p" "ctx_cancelled p" "shutdown_left p < shutdown_left (proc_of e)"
    using shutdown_progress [OF assms] by blast
  have "\<forall>s w. a \<noteq> Returns s w"
    using p(1) False by (auto simp: proc_step_def server_returns_def split: if_splits)
  then have "edge_step e (ProcEvent a) = Some (e\<lparr>proc_of := p\<rparr>)"
    using p(1) st by (cases a) (simp_all add: edge_step_def)
  with p show ?thesis by (intro exI [of _ "ProcEvent a"]) (simp add: nearer_def edge_left_def)
qed

lemma edge_step_proc_inv:
  assumes "edge_step e ev = Some e'" and "edge_inv e" and "proc_inv (proc_of e)"
  shows "proc_inv (proc_of e')"
  using edge_step_refines [OF assms(1,2)] proc_step_inv [OF assms(3)] assms(3) by auto

lemma edge_shutdown:
  assumes "edge_inv e" and "proc_inv (proc_of e)" and "ctx_cancelled (proc_of e)"
  shows "\<exists>evs e'. edge_run e evs = Some e' \<and> main_at (proc_of e') = Stopped \<and> length evs \<le> edge_left e \<and>
           http_requests (doh_of e') = http_requests (doh_of e)"
  using assms
proof (induction "edge_left e" arbitrary: e rule: less_induct)
  case less
  show ?case
  proof (cases "main_at (proc_of e) = Stopped")
    case True
    then show ?thesis by (intro exI [of _ "[]"]) simp
  next
    case False
    then obtain ev e1 where st: "edge_step e ev = Some e1" and n: "nearer e e1"
      using edge_progress [OF less.prems(2,3)] by blast
    have "edge_left e1 < edge_left e" "ctx_cancelled (proc_of e1)" using n by (simp_all add: nearer_def)
    from less.hyps [OF this(1) edge_step_inv [OF st less.prems(1)] edge_step_proc_inv [OF st less.prems(1,2)] this(2)]
    obtain evs e' where "edge_run e1 evs = Some e'" "main_at (proc_of e') = Stopped" "length evs \<le> edge_left e1"
      "http_requests (doh_of e') = http_requests (doh_of e1)" by blast
    with st n show ?thesis by (intro exI [of _ "ev # evs"]) (simp add: nearer_def)
  qed
qed

lemma edge_run_proc_inv:
  assumes "edge_run edge_init evs = Some e"
  shows "proc_inv (proc_of e)" and "edge_inv e"
proof -
  show "edge_inv e" by (rule edge_run_inv [OF assms edge_inv_init])
  have "proc_of edge_init = proc_init" by (simp add: edge_init_def)
  with edge_run_refines [OF assms edge_inv_init] obtain as where "proc_run proc_init as = Some (proc_of e)"
    by auto
  then show "proc_inv (proc_of e)" by (rule proc_run_inv [OF proc_inv_init])
qed

section \<open>Properties\<close>

text \<open>
  C12. The detailed process refines the process of theory \<open>Lifecycle\<close>: every detailed run
  amounts to a run of \<open>proc_step\<close> with the same outcome for \<^verbatim>\<open>main\<close>, so that what is shown of
  those holds of it. Moreover no goroutine of a server is stuck: a listener of plain DNS that fails
  finds room in the channel of \<^verbatim>\<open>RunStd\<close>, and a server that has returned finds room in that of \<^verbatim>\<open>main\<close>.
\<close>

theorem detailed_process_refines:
  assumes "edge_run edge_init evs = Some e"
  shows "(\<exists>as. proc_run proc_init as = Some (proc_of e) \<and> length as \<le> length evs) \<and>
         (std_listener (std_of e) n \<in> {NotListening, Serving} \<longrightarrow>
            std_step x (std_of e) (StdFails n err) \<noteq> None) \<and>
         (main_at (proc_of e) \<noteq> Stopped \<longrightarrow> s \<in> set (running (proc_of e)) \<longrightarrow>
            result_of e s \<noteq> Running \<longrightarrow> edge_step e (Reports s) \<noteq> None)"
proof -
  have init: "proc_of edge_init = proc_init" by (simp add: edge_init_def)
  from edge_run_refines [OF assms edge_inv_init, unfolded init]
  obtain as where as: "proc_run proc_init as = Some (proc_of e)" "length as \<le> length evs" by blast
  have "std_room (std_of edge_init)"
    by (simp add: edge_init_def std_init_def std_room_def std_live_def std_errCh_cap_def)
  then have room: "std_room (std_of e)" by (rule edge_run_room [OF assms])
  have "proc_inv (proc_of e)" by (rule proc_run_inv [OF proc_inv_init as(1)])
  then have "edge_step e (Reports s) \<noteq> None"
    if "main_at (proc_of e) \<noteq> Stopped" "s \<in> set (running (proc_of e))" "result_of e s = Returned res" for res
    using that server_returns_ready [of "proc_of e" s res] by (auto simp: edge_step_def Let_def)
  with as room show ?thesis
    by (cases n; cases "result_of e s") (auto simp: std_step_def std_room_def std_live_def split: if_splits)
qed

text \<open>
  C13. Once the context is cancelled the detailed process can always end, in a bounded number of
  steps; and it can end without answering a single request that the DoH server has in flight:
  \<^verbatim>\<open>RunDoH\<close> returns as soon as \<^verbatim>\<open>Shutdown\<close> is called and not when it has finished. Once the program
  has ended nothing happens any more, so those requests get no response.
\<close>

theorem stop_abandons_requests:
  assumes "edge_run edge_init evs = Some e" and "ctx_cancelled (proc_of e)"
  shows "\<exists>evs' e'. edge_run e evs' = Some e' \<and> main_at (proc_of e') = Stopped \<and>
           length evs' \<le> length (dot_conns (proc_of e)) + 2 * length (running (proc_of e)) + 15 \<and>
           http_requests (doh_of e') = http_requests (doh_of e) \<and> (\<forall>ev. edge_step e' ev = None)"
proof -
  note inv = edge_run_proc_inv [OF assms(1)]
  obtain evs' e' where run: "edge_run e evs' = Some e'" "main_at (proc_of e') = Stopped"
    "length evs' \<le> edge_left e" "http_requests (doh_of e') = http_requests (doh_of e)"
    using edge_shutdown [OF inv(2,1) assms(2)] by blast
  have "http_left h \<le> 3" for h by (simp add: http_left_def split: http_state.split)
  from this [of "doh_of e"] this [of "met_of e"]
  have "edge_left e \<le> shutdown_left (proc_of e) + 7" by (simp add: edge_left_def)
  moreover have "shutdown_left (proc_of e) \<le> length (dot_conns (proc_of e)) + 2 * length (running (proc_of e)) + 8"
    using inv(1) assms(2) by (simp add: proc_inv_def shutdown_left_def split: dot_phase.split main_phase.split)
  ultimately show ?thesis
    using run by (intro exI [of _ evs'] exI [of _ e']) (simp add: edge_step_def)
qed

text \<open>
  C40. A listener of plain DNS that is serving when \<^verbatim>\<open>RunStd\<close> has returned, because the other one
  failed or because it came up after the shutdown, is never told to stop: whatever happens, it
  goes on serving until it fails by itself or the program ends.
\<close>

theorem std_listener_left_serving:
  assumes "edge_run edge_init evs = Some e" and "std_main (std_of e) \<noteq> Running"
    and "std_listener (std_of e) n = Serving"
    and "edge_run e evs' = Some e'" and "\<forall>err. StdEvent (StdFails n err) \<notin> set evs'"
  shows "std_listener (std_of e') n = Serving"
  using edge_run_orphan [OF assms(4,2,3)] assms(5) by blast

subsection \<open>Witnesses\<close>

text \<open>UDP serves and TCP cannot; a request is accepted over HTTPS; then the failure cancels the context.\<close>

definition ex_edge_events :: "edge_event list" where
  "ex_edge_events =
     [StdEvent (StdListens UDP), DohEvent HttpCertLoaded, DohEvent HttpListens, MetEvent HttpListens,
      ProcEvent DotListens, DohEvent (HttpRequest 7), StdEvent (StdFails TCP ''address in use''),
      StdEvent StdErr, Reports Std, ProcEvent ErrorReceived]"

definition ex_edge_proc :: edge_proc where
  "ex_edge_proc = the (edge_run edge_init ex_edge_events)"

lemma ex_edge_run: "edge_run edge_init ex_edge_events = Some ex_edge_proc"
proof -
  have "edge_run edge_init ex_edge_events \<noteq> None"
    by (simp add: ex_edge_events_def edge_init_def std_init_def doh_init_def metrics_init_def proc_init_def
        edge_step_def std_step_def http_step_def Let_def result_of_def server_returns_def proc_step_def RunDoT_def
        std_errCh_cap_def errCh_cap_def)
  then show ?thesis by (simp add: ex_edge_proc_def)
qed

lemma ex_edge_facts:
  "ctx_cancelled (proc_of ex_edge_proc)" "http_requests (doh_of ex_edge_proc) = [7]"
  "std_listener (std_of ex_edge_proc) UDP = Serving" "std_main (std_of ex_edge_proc) \<noteq> Running"
  "running (proc_of ex_edge_proc) = [DoH, DoT, Metrics]" "main_at (proc_of ex_edge_proc) = WaitingServers"
  by code_simp+

theorem detailed_process_refines_witness:
  "(\<exists>as. proc_run proc_init as = Some (proc_of ex_edge_proc) \<and> length as \<le> length ex_edge_events) \<and>
   std_step True (std_of ex_edge_proc) (StdFails UDP ''closed'') \<noteq> None"
  using detailed_process_refines [OF ex_edge_run, of UDP True "''closed''" DoT] by (simp add: ex_edge_facts)

theorem stop_abandons_requests_witness:
  "\<exists>evs' e'. edge_run ex_edge_proc evs' = Some e' \<and> main_at (proc_of e') = Stopped \<and>
     http_requests (doh_of e') = [7]"
  using stop_abandons_requests [OF ex_edge_run ex_edge_facts(1)] unfolding ex_edge_facts by blast

definition ex_edge_end :: "edge_event list" where
  "ex_edge_end =
     [DohEvent HttpCtxDone, DohEvent HttpClosed, Reports DoH, MetEvent HttpCtxDone, MetEvent HttpClosed,
      Reports Metrics, ProcEvent DotListenerCloses, ProcEvent DotAcceptFails, ProcEvent DotReturns,
      ProcEvent ServersDone, ProcEvent WorkerStops, ProcEvent AggregatorDone]"

theorem std_listener_left_serving_witness:
  "\<exists>e'. edge_run ex_edge_proc ex_edge_end = Some e' \<and> main_at (proc_of e') = Stopped \<and>
        std_listener (std_of e') UDP = Serving"
proof -
  have stop: "edge_run ex_edge_proc ex_edge_end \<noteq> None"
    "main_at (proc_of (the (edge_run ex_edge_proc ex_edge_end))) = Stopped"
    by code_simp+
  have "\<forall>err. StdEvent (StdFails UDP err) \<notin> set ex_edge_end" by (simp add: ex_edge_end_def)
  with std_listener_left_serving [OF ex_edge_run ex_edge_facts(4,3)] stop show ?thesis by auto
qed

end
