(* ===== verification/Sni_Proxy.thy ===== *)
theory Sni_Proxy imports Net begin

text \<open>
  The SNI proxy: \<^verbatim>\<open>cmd/sniproxy/main.go\<close>.

  The parser of the TLS ClientHello is translated with its explicit offsets. Every slice
  expression goes through the bounds-checked operations of \<open>Prelude\<close>, so that a read out of
  range is a value \<open>Inl (Panic _)\<close> and not an unspecified byte. A connection is the list of
  bytes it delivers before its read side fails. Resolver, dialer and the write side of the
  connections belong to Go's \<^verbatim>\<open>net\<close> package and the operating system; what they answer is an
  argument of \<open>handleConn\<close> and \<open>transfer\<close>.
\<close>

section \<open>Data\<close>

datatype sni_error =
    ReadHeader | ReadPayload
  | NotHandshake byte | EmptyHandshake | NotClientHello byte
  | TruncatedHandshakeHeader | TruncatedHandshakeBody
  | TooShortVersion | TooShortRandom | TooShortSessionIDLen | TruncatedSessionID
  | TooShortCipherSuitesLen | TruncatedCipherSuites
  | TooShortCompressionLen | TruncatedCompression
  | TooShortExtensionsLen | NoExtensions | TruncatedExtensions
  | ExtensionDataTruncated | SniNotFound
  | SniListTooShort | EmptySniList | SniListTruncated | SniEntryTruncated
  | UnsupportedNameType byte | SniNameTruncated

record tlsRecord =
  ContentType :: byte
  Version :: "16 word"
  Length :: "16 word"
  Payload :: "byte list"
  Raw :: "byte list"

definition recordTypeHandshake :: byte where "recordTypeHandshake = 22"
definition handshakeTypeClientHello :: byte where "handshakeTypeClientHello = 1"
definition extensionTypeSNI :: "16 word" where "extensionTypeSNI = 0"
definition sniNameTypeHost :: byte where "sniNameTypeHost = 0"

section \<open>Numbers on the wire\<close>

text \<open>The 24-bit length of the handshake header.\<close>

definition uint24 :: "byte list \<Rightarrow> nat" where
  "uint24 b =
     (if length b < 3 then 0
      else unat (b ! 0) * 65536 + unat (b ! 1) * 256 + unat (b ! 2))"

section \<open>Server name extension\<close>

definition parseSNI :: "byte list \<Rightarrow> sni_error fail + string" where
  "parseSNI data =
     (if length data < 2 then Inl (Err SniListTooShort)
      else go_do (slice_range data 0 2) (\<lambda>s. go_do (BigEndian_Uint16 s) (\<lambda>l.
        let listLen = unat l in
        if listLen = 0 then Inl (Err EmptySniList)
        else let pos = 2; end' = pos + listLen in
          if length data < end' then Inl (Err SniListTruncated)
          else if pos + 3 > end' then Inl (Err SniEntryTruncated)
          else go_do (slice_index data pos) (\<lambda>nameType.
            if nameType \<noteq> sniNameTypeHost then Inl (Err (UnsupportedNameType nameType))
            else let pos = pos + 1 in
              go_do (slice_from data pos) (\<lambda>s. go_do (BigEndian_Uint16 s) (\<lambda>n.
                let nameLen = unat n; pos = pos + 2 in
                if pos + nameLen > end' then Inl (Err SniNameTruncated)
                else go_do (slice_range data pos (pos + nameLen)) (\<lambda>nm.
                  Inr (string_of_bytes nm))))))))"

section \<open>ClientHello\<close>

function extensionLoop :: "byte list \<Rightarrow> nat \<Rightarrow> nat \<Rightarrow> sni_error fail + string" where
  "extensionLoop clientHello end' pos =
     (if pos + 4 \<le> end' then
        go_do (slice_from clientHello pos) (\<lambda>s. go_do (BigEndian_Uint16 s) (\<lambda>extType.
          go_do (slice_from clientHello (pos + 2)) (\<lambda>s. go_do (BigEndian_Uint16 s) (\<lambda>n.
            let extDataLen = unat n in
            if pos + 4 + extDataLen > end' then Inl (Err ExtensionDataTruncated)
            else if extType = extensionTypeSNI then
              go_do (slice_range clientHello (pos + 4) (pos + 4 + extDataLen)) parseSNI
            else extensionLoop clientHello end' (pos + 4 + extDataLen)))))
      else Inl (Err SniNotFound))"
  by pat_completeness auto
termination
  by (relation "measure (\<lambda>(b, e, p). e - p)") auto

declare extensionLoop.simps [simp del]

definition extractSNI :: "byte list \<Rightarrow> sni_error fail + string" where
  "extractSNI clientHello =
     (if length clientHello < 2 then Inl (Err TooShortVersion)
      else let pos = 2 in
      if length clientHello < pos + 32 then Inl (Err TooShortRandom)
      else let pos = pos + 32 in
      if length clientHello < pos + 1 then Inl (Err TooShortSessionIDLen)
      else go_do (slice_index clientHello pos) (\<lambda>x.
        let sessionIDLen = unat x; pos = pos + 1 in
        if length clientHello < pos + sessionIDLen then Inl (Err TruncatedSessionID)
        else let pos = pos + sessionIDLen in
        if length clientHello < pos + 2 then Inl (Err TooShortCipherSuitesLen)
        else go_do (slice_from clientHello pos) (\<lambda>s. go_do (BigEndian_Uint16 s) (\<lambda>x.
          let cipherSuiteLen = unat x; pos = pos + 2 in
          if length clientHello < pos + cipherSuiteLen then Inl (Err TruncatedCipherSuites)
          else let pos = pos + cipherSuiteLen in
          if length clientHello < pos + 1 then Inl (Err TooShortCompressionLen)
          else go_do (slice_index clientHello pos) (\<lambda>x.
            let compLen = unat x; pos = pos + 1 in
            if length clientHello < pos + compLen then Inl (Err TruncatedCompression)
            else let pos = pos + compLen in
            if length clientHello < pos + 2 then Inl (Err TooShortExtensionsLen)
            else go_do (slice_from clientHello pos) (\<lambda>s. go_do (BigEndian_Uint16 s) (\<lambda>x.
              let extLen = unat x; pos = pos + 2 in
              if extLen = 0 then Inl (Err NoExtensions)
              else let end' = pos + extLen in
              if length clientHello < end' then Inl (Err TruncatedExtensions)
              else extensionLoop clientHello end' pos)))))))"

section \<open>TLS record\<close>

definition readRecord :: "byte list \<Rightarrow> sni_error fail + (tlsRecord \<times> byte list)" where
  "readRecord conn =
     (case io_ReadFull conn 5 of
        None \<Rightarrow> Inl (Err ReadHeader)
      | Some (header, conn1) \<Rightarrow>
          go_do (slice_index header 0) (\<lambda>ct.
          go_do (slice_range header 1 3) (\<lambda>s. go_do (BigEndian_Uint16 s) (\<lambda>ver.
          go_do (slice_range header 3 5) (\<lambda>s. go_do (BigEndian_Uint16 s) (\<lambda>len.
            case io_ReadFull conn1 (unat len) of
              None \<Rightarrow> Inl (Err ReadPayload)
            | Some (payload, conn2) \<Rightarrow>
                Inr (\<lparr>ContentType = ct, Version = ver, Length = len,
                      Payload = payload, Raw = header @ payload\<rparr>, conn2)))))))"

definition parseClientHello ::
  "byte list \<Rightarrow> sni_error fail + (string \<times> byte list \<times> byte list)" where
  "parseClientHello conn =
     (case readRecord conn of
        Inl e \<Rightarrow> Inl e
      | Inr (rec, conn') \<Rightarrow>
          if ContentType rec \<noteq> recordTypeHandshake then Inl (Err (NotHandshake (ContentType rec)))
          else if length (Payload rec) < 1 then Inl (Err EmptyHandshake)
          else go_do (slice_index (Payload rec) 0) (\<lambda>t.
            if t \<noteq> handshakeTypeClientHello then Inl (Err (NotClientHello t))
            else let helloData = Payload rec in
            if length helloData < 4 then Inl (Err TruncatedHandshakeHeader)
            else go_do (slice_range helloData 1 4) (\<lambda>h.
              let handshakeLen = uint24 h in
              go_do (slice_from helloData 4) (\<lambda>helloBody.
                if length helloBody < handshakeLen then Inl (Err TruncatedHandshakeBody)
                else go_do (slice_range helloBody 0 handshakeLen) (\<lambda>helloBody.
                  case extractSNI helloBody of
                    Inl e \<Rightarrow> Inl e
                  | Inr sni \<Rightarrow> Inr (sni, Raw rec, conn'))))))"

section \<open>Connections\<close>

datatype net_error = EOF | Timeout | OtherErr

definition isTimeoutErr :: "net_error option \<Rightarrow> bool" where
  "isTimeoutErr err = (case err of None \<Rightarrow> False | Some e \<Rightarrow> e = Timeout)"

text \<open>
  One direction of the relay. The first argument is what the reads of the source return (the
  bytes, at most 32768 of them, and an error if any), the second whether each write succeeds;
  the result is the list of the chunks written. A run that uses up either list is still waiting.
\<close>

fun transfer :: "(byte list \<times> net_error option) list \<Rightarrow> bool list \<Rightarrow> byte list list" where
  "transfer [] ws = []"
| "transfer ((buf, err) # rs) ws =
     (if length buf > 0 then
        (case ws of
           [] \<Rightarrow> []
         | wok # ws' \<Rightarrow>
             (if \<not> wok then []
              else buf # (if err \<noteq> None then [] else transfer rs ws')))
      else if err \<noteq> None then [] else transfer rs ws)"

text \<open>
  What the reads of a connection return that delivers the bytes \<open>bs\<close>: at most as many at a time as the
  sizes say and the buffer holds, and then an error, which comes at the latest when the deadline has
  passed. And whether each write to a connection succeeds, given the number of the first that fails.
\<close>

function reads_of :: "nat list \<Rightarrow> net_error \<Rightarrow> byte list \<Rightarrow> (byte list \<times> net_error option) list" where
  "reads_of sizes err bs =
     (if bs = [] then [([], Some err)]
      else let k = (case sizes of [] \<Rightarrow> 32768 | n # _ \<Rightarrow> min 32768 (max 1 n))
           in (take k bs, None) # reads_of (tl sizes) err (drop k bs))"
  by pat_completeness auto
termination by (relation "measure (\<lambda>(sizes, err, bs). length bs)") (auto split: list.splits)

declare reads_of.simps [simp del]

record relay_end =
  re_sizes :: "nat list" \<comment> \<open>of the reads from this side\<close>
  re_error :: net_error \<comment> \<open>how its reads end\<close>
  re_fails :: "nat option" \<comment> \<open>which write to this side fails\<close>

definition writes_of :: "nat option \<Rightarrow> nat \<Rightarrow> bool list" where
  "writes_of fails n = (case fails of None \<Rightarrow> replicate n True | Some i \<Rightarrow> replicate i True @ False # replicate n True)"

text \<open>One goroutine of the relay: the chunks that reach the destination.\<close>

definition relayed :: "relay_end \<Rightarrow> relay_end \<Rightarrow> byte list \<Rightarrow> byte list list" where
  "relayed dst src bs =
     (let rs = reads_of (re_sizes src) (re_error src) bs in transfer rs (writes_of (re_fails dst) (length rs)))"

record Proxy =
  addr :: string
  dialTimeout :: time
  dialKeepAlive :: time
  readTimeout :: time
  idleTimeout :: time

definition NewProxy :: "string \<Rightarrow> Proxy" where
  "NewProxy a = \<lparr>addr = a, dialTimeout = 10 * second, dialKeepAlive = 30 * second,
                 readTimeout = 10 * second, idleTimeout = 120 * second\<rparr>"

datatype proxy_action =
    SetKeepAlive time | SetReadDeadline time | ClearReadDeadline
  | LookupHost string | Dial string | WriteUpstream "byte list"
  | Relay "byte list list" "byte list list" \<comment> \<open>the chunks written to the upstream server and to the client\<close>
  | CloseUpstream | CloseClient

text \<open>
  What a connection makes the proxy do, in order: \<open>lookup\<close> is the resolver's answer,
  \<open>dial\<close> whether a target can be reached, \<open>wrote\<close> whether the replayed ClientHello
  could be written. \<open>Relay\<close> are the two \<open>transfer\<close> goroutines, which have both returned before the
  connections are closed: the first copies what the client sends after its first record, the second what
  the upstream server sends (\<open>server\<close>); \<open>cl\<close> and \<open>up\<close> are the two ends.
\<close>

definition handleConn ::
  "Proxy \<Rightarrow> bool \<Rightarrow> (string \<Rightarrow> net_error + string list) \<Rightarrow> (string \<Rightarrow> bool) \<Rightarrow> bool \<Rightarrow>
   relay_end \<Rightarrow> relay_end \<Rightarrow> byte list \<Rightarrow> byte list \<Rightarrow> proxy_action list" where
  "handleConn p isTCP lookup dial wrote cl up server client =
     (if isTCP then [SetKeepAlive (30 * second)] else []) @ [SetReadDeadline (readTimeout p)] @
     (case parseClientHello client of
        Inl err \<Rightarrow> [CloseClient]
      | Inr (sni, clientHello, rest) \<Rightarrow>
          [ClearReadDeadline, LookupHost sni] @
          (case lookup sni of
             Inl err \<Rightarrow> [CloseClient]
           | Inr ips \<Rightarrow>
               (case ips of
                  [] \<Rightarrow> [CloseClient]
                | ip # _ \<Rightarrow>
                    (let target = JoinHostPort ip ''443''
                     in Dial target #
                        (if \<not> dial target then [CloseClient]
                         else WriteUpstream clientHello #
                              (if \<not> wrote then [CloseUpstream, CloseClient]
                               else [Relay (relayed up cl rest) (relayed cl up server), CloseUpstream, CloseClient]))))))"

text \<open>
  The accept loop, over what \<^verbatim>\<open>Accept\<close> returns one time after the other: the connections handed to a
  handler, and whether the server has returned. \<open>lis\<close> is the outcome of listening; the deferred
  close of the listener is not visible to a caller.
\<close>

datatype 'c accept_result = Accepted 'c | ListenerClosed | AcceptError string

fun accept_loop :: "'c accept_result list \<Rightarrow> 'c list \<times> bool" where
  "accept_loop [] = ([], False)"
| "accept_loop (Accepted c # rs) = (let (cs, returned) = accept_loop rs in (c # cs, returned))"
| "accept_loop (ListenerClosed # rs) = ([], True)"
| "accept_loop (AcceptError err # rs) = accept_loop rs"

definition ListenAndServe :: "string option \<Rightarrow> 'c accept_result list \<Rightarrow> string + 'c list \<times> bool" where
  "ListenAndServe lis rs = (case lis of Some err \<Rightarrow> Inl err | None \<Rightarrow> Inr (accept_loop rs))"

text \<open>Every connection accepted before the listener is closed gets a handler; errors stop nothing.\<close>

lemma accept_loop_all:
  "fst (accept_loop rs) = [c. Accepted c \<leftarrow> takeWhile (\<lambda>r. r \<noteq> ListenerClosed) rs] \<and>
   (snd (accept_loop rs) \<longleftrightarrow> ListenerClosed \<in> set rs)"
  by (induction rs rule: accept_loop.induct) (auto simp: case_prod_beta)

section \<open>The messages with a server name\<close>

text \<open>
  A declarative description of the byte strings the parser is meant to accept. An extension is a
  type, a length and that many bytes; \<open>sni_block es d\<close>: the first extension of type
  \<^verbatim>\<open>server_name\<close> in the block \<open>es\<close> has the data \<open>d\<close>; \<open>sni_names d s\<close>: the first
  entry of the name list \<open>d\<close> is the host name \<open>s\<close>; \<open>client_hello b s\<close>: the
  handshake body \<open>b\<close> is a ClientHello with server name \<open>s\<close>.
\<close>

definition encode_ext :: "16 word \<Rightarrow> byte list \<Rightarrow> byte list" where
  "encode_ext t x = be16 t @ be_len x @ x"

inductive sni_block :: "byte list \<Rightarrow> byte list \<Rightarrow> bool" where
  here: "length d < 65536 \<Longrightarrow> sni_block (encode_ext extensionTypeSNI d @ rest) d"
| skip: "t \<noteq> extensionTypeSNI \<Longrightarrow> length x < 65536 \<Longrightarrow> sni_block es d \<Longrightarrow>
    sni_block (encode_ext t x @ es) d"

definition sni_names :: "byte list \<Rightarrow> string \<Rightarrow> bool" where
  "sni_names d s \<longleftrightarrow>
     (\<exists>name more trail. let l = [sniNameTypeHost] @ be_len name @ name @ more in
        d = be_len l @ l @ trail \<and> length l < 65536 \<and> s = string_of_bytes name)"

definition client_hello :: "byte list \<Rightarrow> string \<Rightarrow> bool" where
  "client_hello b s \<longleftrightarrow>
     (\<exists>ver rnd sid cs comp es trail d.
        b = ver @ rnd @ word_of_nat (length sid) # sid @ be_len cs @ cs @
            word_of_nat (length comp) # comp @ be_len es @ es @ trail \<and>
        length ver = 2 \<and> length rnd = 32 \<and> length sid < 256 \<and> length cs < 65536 \<and>
        length comp < 256 \<and> length es < 65536 \<and> sni_block es d \<and> sni_names d s)"

section \<open>Reading at offsets\<close>

declare add_2_eq_Suc [simp del] add_2_eq_Suc' [simp del]

text \<open>The number at an offset.\<close>

definition u16_at :: "byte list \<Rightarrow> nat \<Rightarrow> 16 word" where
  "u16_at b p = word_cat2 (b ! p) (b ! (p + 1))"

lemma BigEndian_at [simp]:
  "p + 2 \<le> length b \<Longrightarrow> BigEndian_Uint16 (drop p b) = Inr (u16_at b p)"
  by (simp add: BigEndian_Uint16_def u16_at_def Cons_nth_drop_Suc [symmetric])

lemma BigEndian_slice [simp]:
  "p + 2 \<le> length b \<Longrightarrow> BigEndian_Uint16 (take 2 (drop p b)) = Inr (u16_at b p)"
  by (simp add: BigEndian_Uint16_def u16_at_def Cons_nth_drop_Suc [symmetric] numeral_2_eq_2)

text \<open>With every slice expression in bounds, the parser is a chain of length tests.\<close>

lemma parseSNI_eq:
  "parseSNI d =
     (if length d < 2 then Inl (Err SniListTooShort)
      else let l = unat (u16_at d 0) in
      if l = 0 then Inl (Err EmptySniList)
      else if length d < 2 + l then Inl (Err SniListTruncated)
      else if l < 3 then Inl (Err SniEntryTruncated)
      else if d ! 2 \<noteq> sniNameTypeHost then Inl (Err (UnsupportedNameType (d ! 2)))
      else let n = unat (u16_at d 3) in
      if l < 3 + n then Inl (Err SniNameTruncated)
      else Inr (string_of_bytes (take n (drop 5 d))))"
proof -
  have "BigEndian_Uint16 (take 2 d) = Inr (u16_at d 0)" if "2 \<le> length d"
    using BigEndian_slice [of 0 d] that by simp
  then show ?thesis by (auto simp: parseSNI_def Let_def slice_defs)
qed

lemma extensionLoop_eq:
  assumes "e \<le> length b"
  shows "extensionLoop b e p =
     (if p + 4 \<le> e then
        let n = unat (u16_at b (p + 2)) in
        if e < p + 4 + n then Inl (Err ExtensionDataTruncated)
        else if u16_at b p = extensionTypeSNI then parseSNI (take n (drop (p + 4) b))
        else extensionLoop b e (p + 4 + n)
      else Inl (Err SniNotFound))"
  using assms by (subst extensionLoop.simps) (auto simp: Let_def slice_defs)

lemma extractSNI_eq:
  "extractSNI b =
     (if length b < 2 then Inl (Err TooShortVersion)
      else if length b < 34 then Inl (Err TooShortRandom)
      else if length b < 35 then Inl (Err TooShortSessionIDLen)
      else let p = 35 + unat (b ! 34) in
      if length b < p then Inl (Err TruncatedSessionID)
      else if length b < p + 2 then Inl (Err TooShortCipherSuitesLen)
      else let p = p + 2 + unat (u16_at b p) in
      if length b < p then Inl (Err TruncatedCipherSuites)
      else if length b < p + 1 then Inl (Err TooShortCompressionLen)
      else let p = p + 1 + unat (b ! p) in
      if length b < p then Inl (Err TruncatedCompression)
      else if length b < p + 2 then Inl (Err TooShortExtensionsLen)
      else let n = unat (u16_at b p) in
      if n = 0 then Inl (Err NoExtensions)
      else if length b < p + 2 + n then Inl (Err TruncatedExtensions)
      else extensionLoop b (p + 2 + n) (p + 2))"
  by (simp add: extractSNI_def Let_def slice_defs)


lemma unat_length8: "length xs < 256 \<Longrightarrow> unat (word_of_nat (length xs) :: byte) = length xs"
  by (simp add: unat_of_nat take_bit_nat_eq_self)

lemma drop_u16: "p + 2 \<le> length b \<Longrightarrow> drop p b = be16 (u16_at b p) @ drop (p + 2) b"
  by (simp add: u16_at_def be16_word_cat2 Cons_nth_drop_Suc add_2_eq_Suc')

lemma vec8_at:
  fixes b :: "byte list"
  assumes "p + 1 + unat (b ! p) \<le> length b"
  obtains x where "drop p b = word_of_nat (length x) # x @ drop (p + 1 + length x) b"
    and "length x = unat (b ! p)" and "length x < 256"
proof -
  let ?x = "take (unat (b ! p)) (drop (p + 1) b)"
  have l: "length ?x = unat (b ! p)" using assms by simp
  have "drop p b = b ! p # drop (p + 1) b" using assms by (simp add: Cons_nth_drop_Suc)
  also have "drop (p + 1) b = ?x @ drop (p + 1 + length ?x) b"
    using assms by (metis add.commute append_take_drop_id drop_drop l)
  finally show thesis using that [of ?x] l unat_byte [of "b ! p"] by simp
qed

lemma vec16_at:
  assumes "p + 2 + unat (u16_at b p) \<le> length b"
  obtains x where "drop p b = be_len x @ x @ drop (p + 2 + length x) b"
    and "length x = unat (u16_at b p)" and "length x < 65536"
proof -
  let ?x = "take (unat (u16_at b p)) (drop (p + 2) b)"
  have l: "length ?x = unat (u16_at b p)" using assms by simp
  have "drop p b = be_len ?x @ drop (p + 2) b"
    using drop_u16 [of p b] assms l by simp
  also have "drop (p + 2) b = ?x @ drop (p + 2 + length ?x) b"
    using assms by (metis add.commute append_take_drop_id drop_drop l)
  finally show thesis using that [of ?x] l unat_uint16 [of "u16_at b p"] by simp
qed

lemma u16_at_drop:
  assumes "drop p b = be16 n @ r"
  shows "u16_at b p = n" and "p + 2 + length r = length b"
proof -
  have l: "length (drop p b) = 2 + length r" using assms by simp
  then show "p + 2 + length r = length b" by simp
  with BigEndian_at [of p b] assms show "u16_at b p = n" by simp
qed

lemma extensionLoop_complete:
  "sni_block es d \<Longrightarrow> drop p b = es @ trail \<Longrightarrow> extensionLoop b (p + length es) p = parseSNI d"
proof (induction arbitrary: p rule: sni_block.induct)
  case (here d rest)
  note dr = here.prems [unfolded encode_ext_def append_assoc]
  have "drop (p + 2) b = be_len d @ d @ rest @ trail"
    using arg_cong [OF dr, of "drop 2"] by (simp add: add.commute)
  moreover have "drop (p + 4) b = d @ rest @ trail"
    using arg_cong [OF dr, of "drop 4"] by (simp add: add.commute)
  ultimately show ?case
    using u16_at_drop [OF dr] u16_at_drop [of "p + 2" b] here.hyps
    by (subst extensionLoop_eq) (simp_all add: encode_ext_def unat_length16)
next
  case (skip t x es d)
  note dr = skip.prems [unfolded encode_ext_def append_assoc]
  have d2: "drop (p + 2) b = be_len x @ x @ es @ trail"
    using arg_cong [OF dr, of "drop 2"] by (simp add: add.commute)
  have d4: "drop (p + 4 + length x) b = es @ trail"
    using arg_cong [OF dr, of "drop (4 + length x)"] by (simp add: ac_simps)
  show ?case
    using u16_at_drop [OF dr] u16_at_drop [OF d2] skip.hyps skip.IH [OF d4]
    by (subst extensionLoop_eq) (simp_all add: encode_ext_def unat_length16 add.assoc)
qed

lemma extensionLoop_sound:
  assumes "extensionLoop b e p = Inr s" and "e \<le> length b"
  shows "\<exists>d. sni_block (take (e - p) (drop p b)) d \<and> parseSNI d = Inr s"
  using assms(1)
proof (induction "e - p" arbitrary: p rule: less_induct)
  case (less p)
  let ?n = "unat (u16_at b (p + 2))"
  note eq = extensionLoop_eq [OF assms(2), of p]
  have p: "p + 4 + ?n \<le> e" using less.prems eq by (auto simp: Let_def split: if_splits)
  obtain x where x: "drop (p + 2) b = be_len x @ x @ drop (p + 2 + 2 + length x) b" "length x = ?n" "length x < 65536"
    using vec16_at [of "p + 2" b] p assms(2) by auto
  have "drop p b = be16 (u16_at b p) @ drop (p + 2) b"
    using drop_u16 [of p b] p assms(2) by simp
  with x have "drop p b = encode_ext (u16_at b p) x @ drop (p + 4 + length x) b"
    by (simp add: encode_ext_def ac_simps)
  then have blk: "take (e - p) (drop p b) =
      encode_ext (u16_at b p) x @ take (e - (p + 4 + length x)) (drop (p + 4 + length x) b)"
    using p x(2) by (simp add: encode_ext_def ac_simps)
  have px: "take ?n (drop (p + 4) b) = x"
    using arg_cong [OF x(1), of "drop 2"] x(2) by (simp add: ac_simps)
  show ?case
  proof (cases "u16_at b p = extensionTypeSNI")
    case True
    then show ?thesis using less.prems eq p px blk x(3) by (auto simp: Let_def intro: sni_block.here)
  next
    case False
    then have "extensionLoop b e (p + 4 + ?n) = Inr s" using less.prems eq p by (simp add: Let_def)
    moreover have "e - (p + 4 + ?n) < e - p" using p by simp
    ultimately obtain d where
      "sni_block (take (e - (p + 4 + ?n)) (drop (p + 4 + ?n) b)) d" "parseSNI d = Inr s"
      using less.hyps by blast
    then show ?thesis unfolding blk x(2) using sni_block.skip [OF False x(3)] by blast
  qed
qed


lemma parseSNI_iff: "parseSNI d = Inr s \<longleftrightarrow> sni_names d s"
proof
  assume s: "parseSNI d = Inr s"
  let ?l = "unat (u16_at d 0)" and ?n = "unat (u16_at d 3)"
  have b: "3 + ?n \<le> ?l" "2 + ?l \<le> length d" "d ! 2 = sniNameTypeHost"
    and s: "s = string_of_bytes (take ?n (drop 5 d))"
    using s by (auto simp: parseSNI_eq Let_def split: if_splits)
  obtain l where l: "drop 0 d = be_len l @ l @ drop (0 + 2 + length l) d" "length l = ?l" "length l < 65536"
    using vec16_at [of 0 d] b by auto
  obtain n where n: "drop 3 d = be_len n @ n @ drop (3 + 2 + length n) d" "length n = ?n" "length n < 65536"
    using vec16_at [of 3 d] b by auto
  let ?A = "[sniNameTypeHost] @ be_len n @ n"
  have "drop 2 d = sniNameTypeHost # drop 3 d"
    using b Cons_nth_drop_Suc [of 2 d] by simp
  with n have "drop 2 d = sniNameTypeHost # be_len n @ n @ drop (5 + length n) d" by simp
  moreover have "l = take (length l) (drop 2 d)"
    using arg_cong [OF l(1), of "drop 2"] by simp
  ultimately have "l = take (length l) (?A @ drop (5 + length n) d)" by simp
  moreover have "length ?A \<le> length l" using l(2) n(2) b by simp
  then have "take (length l) (?A @ Z) = ?A @ take (length l - length ?A) Z" for Z
    by (rule take_append_ge)
  ultimately have "l = ?A @ take (length l - length ?A) (drop (5 + length n) d)" by (simp only:)
  then obtain more where more: "l = [sniNameTypeHost] @ be_len n @ n @ more"
    unfolding append_assoc by blast
  moreover obtain tr where "d = be_len l @ l @ tr" using l(1) unfolding drop_0 by blast
  moreover have "s = string_of_bytes n"
    using s arg_cong [OF n(1), of "drop 2"] n(2) by simp
  ultimately show "sni_names d s" using l(3) unfolding sni_names_def Let_def by blast
next
  assume "sni_names d s"
  then obtain name more trail where d: "d = be_len (sniNameTypeHost # be_len name @ name @ more) @
      (sniNameTypeHost # be_len name @ name @ more) @ trail"
    and l: "length (sniNameTypeHost # be_len name @ name @ more) < 65536" and s: "s = string_of_bytes name"
    by (auto simp: sni_names_def Let_def)
  have d3: "drop 3 d = be_len name @ name @ more @ trail" using d by (simp add: numeral_3_eq_3)
  have "unat (u16_at d 0) = 3 + length name + length more"
    using u16_at_drop(1) [of 0 d] d l unat_length16 [OF l] by simp
  moreover have "unat (u16_at d 3) = length name"
    using u16_at_drop(1) [OF d3] l by (simp add: unat_length16)
  moreover have "d ! 2 = sniNameTypeHost" using d by (simp add: nth_append)
  moreover have "take (length name) (drop 5 d) = name"
    using arg_cong [OF d3, of "drop 2"] by simp
  moreover have "length d = 5 + length name + length more + length trail" using d by simp
  ultimately show "parseSNI d = Inr s" using s by (simp add: parseSNI_eq)
qed


lemma parseSNI_no_panic: "parseSNI d \<noteq> Inl (Panic q)"
  by (simp add: parseSNI_eq Let_def)

lemma extensionLoop_no_panic: "e \<le> length b \<Longrightarrow> extensionLoop b e p \<noteq> Inl (Panic q)"
proof (induction "e - p" arbitrary: p rule: less_induct)
  case less
  then show ?case by (subst extensionLoop_eq) (auto simp: Let_def parseSNI_no_panic)
qed

lemma extractSNI_panic_free: "extractSNI b \<noteq> Inl (Panic q)"
  by (simp add: extractSNI_eq Let_def extensionLoop_no_panic)

lemma extractSNI_sound:
  assumes "extractSNI b = Inr s"
  shows "client_hello b s"
proof -
  define p1 where "p1 = 34 + 1 + unat (b ! 34)"
  define p2 where "p2 = p1 + 2 + unat (u16_at b p1)"
  define p3 where "p3 = p2 + 1 + unat (b ! p2)"
  define p4 where "p4 = p3 + 2 + unat (u16_at b p3)"
  have le: "p4 \<le> length b" and loop: "extensionLoop b p4 (p3 + 2) = Inr s"
    using assms by (auto simp: extractSNI_eq Let_def p1_def p2_def p3_def p4_def split: if_splits)
  note ps = p4_def p3_def p2_def p1_def
  have b1: "34 + 1 + unat (b ! 34) \<le> length b" and b2: "p1 + 2 + unat (u16_at b p1) \<le> length b"
    and b3: "p2 + 1 + unat (b ! p2) \<le> length b" and b4: "p3 + 2 + unat (u16_at b p3) \<le> length b"
    using le ps by simp_all
  obtain sid where sid: "drop 34 b = word_of_nat (length sid) # sid @ drop p1 b" "length sid < 256"
    using vec8_at [OF b1] p1_def by metis
  obtain cs where cs: "drop p1 b = be_len cs @ cs @ drop p2 b" "length cs < 65536"
    using vec16_at [OF b2] p2_def by metis
  obtain comp where comp: "drop p2 b = word_of_nat (length comp) # comp @ drop p3 b" "length comp < 256"
    using vec8_at [OF b3] p3_def by metis
  obtain es where es: "drop p3 b = be_len es @ es @ drop p4 b" "length es = p4 - (p3 + 2)" "length es < 65536"
    using vec16_at [OF b4] p4_def by (metis add_diff_cancel_left')
  have hd: "b = take 2 b @ take 32 (drop 2 b) @ drop 34 b"
    using append_take_drop_id [of 32 "drop 2 b"] by simp
  have "es = take (p4 - (p3 + 2)) (drop (p3 + 2) b)"
    using arg_cong [OF es(1), of "drop 2"] es(2) by (simp add: add.commute)
  then obtain d where d: "sni_block es d" "sni_names d s"
    using extensionLoop_sound [OF loop le] parseSNI_iff by metis
  have "length (take 2 b) = 2" "length (take 32 (drop 2 b)) = 32" using le ps by simp_all
  then show ?thesis
    unfolding client_hello_def using hd [unfolded sid(1) cs(1) comp(1) es(1)] sid(2) cs(2) comp(2) es(3) d
    by blast
qed

lemma extractSNI_complete:
  assumes "client_hello b s"
  shows "extractSNI b = Inr s"
proof -
  obtain ver rnd sid cs comp es trail d where
    b: "b = ver @ rnd @ word_of_nat (length sid) # sid @ be_len cs @ cs @
            word_of_nat (length comp) # comp @ be_len es @ es @ trail"
    and l: "length ver = 2" "length rnd = 32" "length sid < 256" "length cs < 65536"
      "length comp < 256" "length es < 65536"
    and d: "sni_block es d" "sni_names d s"
    using assms unfolding client_hello_def by blast
  let ?p1 = "35 + length sid"
  let ?p2 = "?p1 + 2 + length cs"
  let ?p3 = "?p2 + 1 + length comp"
  have "length es \<noteq> 0" using d(1) by (cases rule: sni_block.cases) (auto simp: encode_ext_def)
  moreover have "b ! 34 = word_of_nat (length sid)" using b l by (simp add: nth_append)
  moreover have d1: "drop ?p1 b = be_len cs @ cs @ word_of_nat (length comp) # comp @ be_len es @ es @ trail"
    using b l by simp
  moreover have d2: "drop ?p2 b = word_of_nat (length comp) # comp @ be_len es @ es @ trail"
    using arg_cong [OF d1, of "drop (2 + length cs)"] by (simp add: ac_simps)
  moreover have "b ! ?p2 = word_of_nat (length comp)"
    using d2 by (metis hd_drop_conv_nth drop_eq_Nil2 leI list.sel(1) list.distinct(1))
  moreover have d3: "drop ?p3 b = be_len es @ es @ trail"
    using arg_cong [OF d2, of "drop (1 + length comp)"] by (simp add: ac_simps)
  moreover have "drop (?p3 + 2) b = es @ trail"
    using arg_cong [OF d3, of "drop 2"] by (simp add: ac_simps)
  moreover have "length b = ?p3 + 2 + length es + length trail" using b l by simp
  ultimately show ?thesis
    using extensionLoop_complete [OF d(1), of "?p3 + 2" b trail] u16_at_drop(1) [OF d1] u16_at_drop(1) [OF d3] l d(2)
    by (simp add: extractSNI_eq Let_def unat_length16 unat_length8 parseSNI_iff)
qed

section \<open>The record layer and the connection\<close>

lemma readRecord_eq:
  "readRecord conn =
     (if length conn < 5 then Inl (Err ReadHeader)
      else let n = unat (u16_at conn 3) in
      if length conn < 5 + n then Inl (Err ReadPayload)
      else Inr (\<lparr>ContentType = conn ! 0, Version = u16_at conn 1, Length = u16_at conn 3,
                 Payload = take n (drop 5 conn), Raw = take (5 + n) conn\<rparr>, drop (5 + n) conn))"
proof (cases "length conn < 5")
  case False
  then have "BigEndian_Uint16 (take 2 (drop 1 (take 5 conn))) = Inr (u16_at (take 5 conn) 1)"
    and "BigEndian_Uint16 (take 2 (drop 3 (take 5 conn))) = Inr (u16_at (take 5 conn) 3)"
    using BigEndian_slice [of _ "take 5 conn"] by simp_all
  with False show ?thesis
    by (auto simp: readRecord_def io_ReadFull_def slice_defs Let_def u16_at_def take_add ac_simps)
qed (simp add: readRecord_def io_ReadFull_def)

lemma readRecord_consumes:
  "readRecord conn = Inr (rec, rest) \<Longrightarrow> Raw rec @ rest = conn \<and> Raw rec = take 5 conn @ Payload rec"
  by (auto simp: readRecord_eq Let_def split: if_splits) (simp add: take_add)

lemma readRecord_no_panic: "readRecord conn \<noteq> Inl (Panic q)"
  by (simp add: readRecord_eq Let_def)

lemma parseClientHello_panic_free: "parseClientHello conn \<noteq> Inl (Panic q)"
  by (auto simp: parseClientHello_def Let_def slice_defs readRecord_no_panic extractSNI_panic_free
      split: sum.splits)

lemma parseClientHello_parts:
  assumes "parseClientHello conn = Inr (sni, raw, rest)"
  obtains rec where "readRecord conn = Inr (rec, rest)" and "raw = Raw rec"
    and "ContentType rec = recordTypeHandshake" and "Payload rec ! 0 = handshakeTypeClientHello"
    and "4 + uint24 (take 3 (drop 1 (Payload rec))) \<le> length (Payload rec)"
    and "extractSNI (take (uint24 (take 3 (drop 1 (Payload rec)))) (drop 4 (Payload rec))) = Inr sni"
  using assms
  by (auto simp: parseClientHello_def Let_def slice_defs split: sum.splits if_splits)

lemma transfer_prefix: "prefix (concat (transfer rs ws)) (concat (map fst rs))"
  by (induction rs ws rule: transfer.induct) (auto split: list.splits)

lemma transfer_all_written:
  assumes "length rs \<le> length ws" and "list_all id ws"
  shows "concat (transfer rs ws) =
           concat (map fst (takeWhile (\<lambda>x. snd x = None) rs)) @
           (case dropWhile (\<lambda>x. snd x = None) rs of [] \<Rightarrow> [] | x # _ \<Rightarrow> fst x)"
  using assms
proof (induction rs ws rule: transfer.induct)
  case (2 buf err rs ws)
  then show ?case by (cases ws; cases err) auto
qed simp

lemma reads_of_sound:
  "concat (map fst (reads_of sizes err bs)) = bs"
  "reads_of sizes err bs = map (\<lambda>b. (b, None)) (map fst (butlast (reads_of sizes err bs))) @ [([], Some err)]"
proof (induction sizes err bs rule: reads_of.induct)
  case (1 sizes err bs)
  let ?k = "case sizes of [] \<Rightarrow> 32768 | n # _ \<Rightarrow> min 32768 (max 1 n)"
  {
    case 1
    show ?case using "1.IH"(1) [OF _ refl] by (cases "bs = []") (simp_all add: reads_of.simps [of sizes] Let_def)
  next
    case 2
    show ?case
    proof (cases "bs = []")
      case False
      let ?r = "reads_of (tl sizes) err (drop ?k bs)"
      have r: "reads_of sizes err bs = (take ?k bs, None) # ?r" using False by (simp add: reads_of.simps [of sizes] Let_def)
      have IH: "?r = map (\<lambda>b. (b, None)) (map fst (butlast ?r)) @ [([], Some err)]" by (rule "1.IH"(2) [OF False refl])
      then have "?r \<noteq> []" by (metis snoc_eq_iff_butlast)
      then show ?thesis unfolding r using IH by simp
    qed (simp add: reads_of.simps [of sizes])
  }
qed

lemma written_reads:
  "concat (map fst (takeWhile (\<lambda>x. snd x = None) (map (\<lambda>b. (b, None)) bs @ [([], Some e)]))) @
     (case dropWhile (\<lambda>x. snd x = None) (map (\<lambda>b. (b, None)) bs @ [([], Some e)]) of [] \<Rightarrow> [] | x # _ \<Rightarrow> fst x) =
   concat bs"
  by (induction bs) auto

text \<open>What a goroutine of the relay delivers: a prefix of what was sent, and all of it if no write fails.\<close>

lemma relayed_prefix: "prefix (concat (relayed dst src bs)) bs"
  using transfer_prefix [of "reads_of (re_sizes src) (re_error src) bs"] by (simp add: relayed_def Let_def reads_of_sound(1))

lemma relayed_all:
  assumes "re_fails dst = None"
  shows "concat (relayed dst src bs) = bs"
proof -
  let ?rs = "reads_of (re_sizes src) (re_error src) bs"
  let ?bs = "map fst (butlast ?rs)"
  have rs: "?rs = map (\<lambda>b. (b, None)) ?bs @ [([], Some (re_error src))]" by (rule reads_of_sound(2))
  have "concat (transfer ?rs (replicate (length ?rs) True)) = concat (map fst (takeWhile (\<lambda>x. snd x = None) ?rs)) @
      (case dropWhile (\<lambda>x. snd x = None) ?rs of [] \<Rightarrow> [] | x # _ \<Rightarrow> fst x)"
    by (rule transfer_all_written) (simp_all add: list_all_iff)
  also have "\<dots> = concat ?bs" by (subst (1 2) rs) (rule written_reads)
  also have "\<dots> = bs"
    using arg_cong [OF rs, of "\<lambda>rs. concat (map fst rs)"] by (simp add: reads_of_sound(1) comp_def)
  finally show ?thesis using assms by (simp add: relayed_def writes_of_def Let_def)
qed

section \<open>Example data for the witnesses\<close>

definition ex_body :: "byte list" where
  "ex_body =
     [3, 3] @ replicate 32 7 @
     [0, 0, 2, 19, 1, 1, 0, 0, 19, 0, 10, 0, 2, 0, 2, 0, 0, 0, 9, 0, 7, 0, 0, 4, 97, 46, 105, 111]"

definition ex_conn :: "byte list" where
  "ex_conn = [22, 3, 1, 0, 66, 1, 0, 0, 62] @ ex_body @ [23, 3, 3]"

lemma length_ex_body: "length ex_body = 62"
  by (simp add: ex_body_def)

lemma drop_ex_body:
  "drop 34 ex_body =
     [0, 0, 2, 19, 1, 1, 0, 0, 19, 0, 10, 0, 2, 0, 2, 0, 0, 0, 9, 0, 7, 0, 0, 4, 97, 46, 105, 111]"
  by (simp add: ex_body_def)

lemma nth_ex_body: "34 \<le> i \<Longrightarrow> i < 62 \<Longrightarrow> ex_body ! i =
    [0, 0, 2, 19, 1, 1, 0, 0, 19, 0, 10, 0, 2, 0, 2, 0, 0, 0, 9, 0, 7, 0, 0, 4, 97, 46, 105, 111] ! (i - 34)"
  using nth_drop [of 34 ex_body "i - 34"] unfolding drop_ex_body by (simp add: length_ex_body)

lemma extractSNI_ex_body: "extractSNI ex_body = Inr ''a.io''"
proof -
  have d: "drop 53 ex_body = [0, 7, 0, 0, 4, 97, 46, 105, 111]"
    using drop_drop [of 19 34 ex_body] by (simp add: drop_ex_body)
  have z: "word_cat2 0 0 = 0" "word_cat2 0 10 \<noteq> 0" by (simp_all add: word_cat2_def)
  have "parseSNI [0, 7, 0, 0, 4, 97, 46, 105, 111] = Inr ''a.io''"
    by (simp add: parseSNI_eq Let_def u16_at_def unat_word_cat2 sniNameTypeHost_def
        string_of_bytes_def char_of_def bit_0)
  then show ?thesis
    by (simp add: extractSNI_eq extensionLoop_eq Let_def length_ex_body nth_ex_body u16_at_def
        unat_word_cat2 d z extensionTypeSNI_def)
qed

lemma parseClientHello_ex_conn:
  "parseClientHello ex_conn = Inr (''a.io'', [22, 3, 1, 0, 66, 1, 0, 0, 62] @ ex_body, [23, 3, 3])"
  by (simp add: parseClientHello_def readRecord_eq Let_def slice_defs ex_conn_def u16_at_def
      unat_word_cat2 uint24_def length_ex_body extractSNI_ex_body
      recordTypeHandshake_def handshakeTypeClientHello_def)

section \<open>Properties\<close>

text \<open>
  C25. \<open>extractSNI\<close> returns a server name exactly for the handshake bodies that are a
  ClientHello with that name: version, random, session id, cipher suites, compression methods, and
  an extension block whose first \<^verbatim>\<open>server_name\<close> extension holds a list that starts with that host
  name. In particular it inverts every encoder of that format.
\<close>

theorem extractSNI_correct: "extractSNI b = Inr s \<longleftrightarrow> client_hello b s"
  using extractSNI_sound extractSNI_complete by blast

text \<open>
  C26. Whatever bytes a client sends, parsing its first record does not panic: every index and
  every slice expression of \<open>parseClientHello\<close>, \<open>readRecord\<close>, \<open>extractSNI\<close> and
  \<open>parseSNI\<close> is in range, and the extension loop terminates.
\<close>

theorem parseClientHello_never_panics:
  "parseClientHello conn \<noteq> Inl (Panic q) \<and> extractSNI b \<noteq> Inl (Panic q) \<and> parseSNI d \<noteq> Inl (Panic q)"
  by (simp add: parseClientHello_panic_free extractSNI_panic_free parseSNI_no_panic)

text \<open>
  The bytes replayed to the upstream server and the bytes left on the client connection are
  together what the client sent: parsing consumes one whole record, a handshake record with a
  ClientHello of the reported server name.
\<close>

theorem parseClientHello_transparent:
  assumes "parseClientHello conn = Inr (sni, raw, rest)"
  shows "raw @ rest = conn \<and> conn ! 0 = recordTypeHandshake \<and> conn ! 5 = handshakeTypeClientHello \<and>
         (\<exists>body tail. raw = take 9 conn @ body @ tail \<and> client_hello body sni)"
proof -
  obtain rec where rec: "readRecord conn = Inr (rec, rest)" "raw = Raw rec"
    "ContentType rec = recordTypeHandshake" "Payload rec ! 0 = handshakeTypeClientHello"
    and n: "4 + uint24 (take 3 (drop 1 (Payload rec))) \<le> length (Payload rec)"
    and ex: "extractSNI (take (uint24 (take 3 (drop 1 (Payload rec)))) (drop 4 (Payload rec))) = Inr sni"
    using parseClientHello_parts [OF assms] by blast
  let ?n = "uint24 (take 3 (drop 1 (Payload rec)))"
  have raw: "raw @ rest = conn" "raw = take 5 conn @ Payload rec"
    using readRecord_consumes [OF rec(1)] unfolding rec(2) by blast+
  have pl: "Payload rec = take (length (Payload rec)) (drop 5 conn)" "ContentType rec = conn ! 0"
    using rec(1) by (auto simp: readRecord_eq Let_def split: if_splits)
  have len: "9 \<le> length conn" using arg_cong [OF pl(1), of length] n by simp
  have "Payload rec = take 4 (Payload rec) @ take ?n (drop 4 (Payload rec)) @ drop (4 + ?n) (Payload rec)"
    by (metis add.commute append_take_drop_id drop_drop)
  moreover have "take 5 conn @ take 4 (Payload rec) = take 9 conn"
    using arg_cong [OF pl(1), of "take 4"] n take_add [of 5 4 conn] by (simp add: min_def)
  ultimately have "raw = take 9 conn @ take ?n (drop 4 (Payload rec)) @ drop (4 + ?n) (Payload rec)"
    using raw(2) by (metis append.assoc)
  moreover have "conn ! 5 = Payload rec ! 0"
    using arg_cong [OF pl(1), of "\<lambda>xs. xs ! 0"] n len by (cases "length (Payload rec)") simp_all
  ultimately show ?thesis using raw(1) rec pl(2) extractSNI_sound [OF ex] by auto
qed

theorem parseClientHello_transparent_witness:
  "\<exists>raw. parseClientHello ex_conn = Inr (''a.io'', raw, [23, 3, 3]) \<and> raw @ [23, 3, 3] = ex_conn"
  using parseClientHello_ex_conn parseClientHello_transparent [OF parseClientHello_ex_conn] by blast

text \<open>
  One direction of the relay writes a prefix of the bytes it reads, in order and unchanged;
  if no write fails, it writes every byte of every read up to and including the first read that
  reports an error.
\<close>

theorem transfer_delivers:
  "prefix (concat (transfer rs ws)) (concat (map fst rs)) \<and>
   (length rs \<le> length ws \<and> list_all id ws \<longrightarrow>
      concat (transfer rs ws) =
        concat (map fst (takeWhile (\<lambda>x. snd x = None) rs)) @
        (case dropWhile (\<lambda>x. snd x = None) rs of [] \<Rightarrow> [] | x # _ \<Rightarrow> fst x))"
  using transfer_prefix transfer_all_written by blast

theorem transfer_delivers_witness:
  "concat (transfer [([1, 2], None), ([], None), ([3], Some EOF), ([4], None)] [True, True, True, True]) = [1, 2, 3]"
  using transfer_delivers [of "[([1, 2], None), ([], None), ([3], Some EOF), ([4], None)]" "[True, True, True, True]"]
  by simp

text \<open>
  C30. A connection is proxied only to port 443 of the first address of the name in its
  ClientHello. What is sent upstream, the replayed ClientHello and then the relayed rest, is a prefix of
  what the client sent, and all of it if no write to the upstream server fails; what the client gets
  is a prefix of what the server sent, and all of it if no write to the client fails. The client
  connection is closed once, at the end, on every path, and the upstream connection is closed on
  every path on which it was opened.
\<close>

theorem handleConn_contract:
  "let acts = handleConn p isTCP lookup dial wrote cl up server client in
     (\<forall>t. Dial t \<in> set acts \<longrightarrow>
        (\<exists>sni raw rest ip ips. parseClientHello client = Inr (sni, raw, rest) \<and>
           lookup sni = Inr (ip # ips) \<and> t = JoinHostPort ip ''443'')) \<and>
     (\<forall>x upward downward. WriteUpstream x \<in> set acts \<and> Relay upward downward \<in> set acts \<longrightarrow>
        prefix (x @ concat upward) client \<and> (re_fails up = None \<longrightarrow> x @ concat upward = client) \<and>
        prefix (concat downward) server \<and> (re_fails cl = None \<longrightarrow> concat downward = server)) \<and>
     last acts = CloseClient \<and> count_list acts CloseClient = 1 \<and>
     (CloseUpstream \<in> set acts \<longleftrightarrow> (\<exists>t. Dial t \<in> set acts \<and> dial t))"
proof (cases "parseClientHello client")
  case (Inl e)
  then show ?thesis by (simp add: handleConn_def)
next
  case (Inr a)
  then obtain sni raw rest where a: "parseClientHello client = Inr (sni, raw, rest)" by (cases a) auto
  obtain rec where "readRecord client = Inr (rec, rest)" "raw = Raw rec"
    using parseClientHello_parts [OF a] by blast
  then have c: "raw @ rest = client" using readRecord_consumes by blast
  have "prefix (raw @ concat (relayed up cl rest)) client" using relayed_prefix [of up cl rest] c by auto
  moreover have "raw @ concat (relayed up cl rest) = client" if "re_fails up = None"
    using relayed_all [OF that, of cl rest] c by simp
  ultimately show ?thesis
    using a relayed_prefix [of cl up server] relayed_all [of cl up server]
    by (simp add: handleConn_def Let_def split: sum.split list.split)
qed

definition ex_end :: relay_end where
  "ex_end = \<lparr>re_sizes = [2], re_error = EOF, re_fails = None\<rparr>"

theorem handleConn_contract_witness:
  "let acts = handleConn (NewProxy '':443'') True (\<lambda>_. Inr [''::1'']) (\<lambda>_. True) True ex_end ex_end [21, 3] ex_conn in
     WriteUpstream (take 71 ex_conn) \<in> set acts \<and> Relay [[23, 3], [3]] [[21, 3]] \<in> set acts \<and>
     take 71 ex_conn @ concat [[23, 3], [3]] = ex_conn \<and> Dial ''[::1]:443'' \<in> set acts"
proof -
  have p: "parseClientHello ex_conn = Inr (''a.io'', take 71 ex_conn, [23, 3, 3])"
    using parseClientHello_ex_conn by (simp add: ex_conn_def length_ex_body)
  let ?acts = "handleConn (NewProxy '':443'') True (\<lambda>_. Inr [''::1'']) (\<lambda>_. True) True ex_end ex_end [21, 3] ex_conn"
  have "relayed ex_end ex_end [23, 3, 3] = [[23, 3], [3]]" "relayed ex_end ex_end [21, 3] = [[21, 3]]"
    by (simp_all add: relayed_def reads_of.simps writes_of_def ex_end_def)
  then have "?acts = [SetKeepAlive (30 * second), SetReadDeadline (10 * second), ClearReadDeadline,
      LookupHost ''a.io'', Dial ''[::1]:443'', WriteUpstream (take 71 ex_conn), Relay [[23, 3], [3]] [[21, 3]],
      CloseUpstream, CloseClient]"
    by (simp add: handleConn_def p NewProxy_def JoinHostPort_def)
  moreover have "re_fails ex_end = None" by (simp add: ex_end_def)
  ultimately show ?thesis
    using handleConn_contract [of "NewProxy '':443''" True "\<lambda>_. Inr [''::1'']" "\<lambda>_. True" True ex_end ex_end "[21, 3]" ex_conn]
    unfolding Let_def by auto
qed

end
