(* ===== verification/Programs.thy ===== *)
theory Programs imports Listeners Sni_Proxy begin

text \<open>
  The main functions of the other two services: the SNI proxy (\<^verbatim>\<open>cmd/sniproxy/main.go\<close>) with its
  goroutines, a step function like that of theory \<open>Lifecycle\<close>, and the admin service
  (\<^verbatim>\<open>cmd/adminapi/main.go\<close>), which only waits for its router to fail or for a signal.
\<close>

section \<open>The SNI proxy process\<close>

datatype sni_main = AwaitingSignal | AwaitingServer | SniStopped

record sni_proc =
  sp_addr :: string
  sp_cancelled :: bool
  sp_listener :: listener
  sp_server :: return_state \<comment> \<open>\<^verbatim>\<open>ListenAndServe\<close> in its goroutine\<close>
  sp_conns :: "nat list" \<comment> \<open>the handlers that run\<close>
  sp_main :: sni_main

definition sni_start :: "environ \<Rightarrow> sni_proc" where
  "sni_start E =
     \<lparr>sp_addr = addr (NewProxy (env E ''SNI_PROXY_ADDR'' '':443'')), sp_cancelled = False,
      sp_listener = NotListening, sp_server = Running, sp_conns = [], sp_main = AwaitingSignal\<rparr>"

datatype sni_event =
    SniListens | SniListenFails string | SniAccepted nat | SniAcceptError | SniCtxDone | SniClosed
  | SniConnEnds nat | SniSignal | SniDone

definition sni_step :: "sni_proc \<Rightarrow> sni_event \<Rightarrow> sni_proc option" where
  "sni_step p ev =
     (if sp_main p = SniStopped then None
      else case ev of
        SniListens \<Rightarrow>
          if sp_server p = Running \<and> sp_listener p = NotListening
          then Some (p\<lparr>sp_listener := Serving\<rparr>) else None
      | SniListenFails err \<Rightarrow>
          if sp_server p = Running \<and> sp_listener p = NotListening
          then Some (p\<lparr>sp_listener := Ended, sp_server := Returned (Some err)\<rparr>) else None
      | SniAccepted c \<Rightarrow>
          if sp_server p = Running \<and> sp_listener p = Serving \<and> c \<notin> set (sp_conns p)
          then Some (p\<lparr>sp_conns := sp_conns p @ [c]\<rparr>) else None
      | SniAcceptError \<Rightarrow>
          if sp_server p = Running \<and> sp_listener p = Serving then Some p else None
      | SniCtxDone \<Rightarrow>
          if sp_cancelled p \<and> sp_listener p = Serving then Some (p\<lparr>sp_listener := ShutDown\<rparr>) else None
      | SniClosed \<Rightarrow>
          if sp_server p = Running \<and> sp_listener p = ShutDown
          then Some (p\<lparr>sp_listener := Ended, sp_server := Returned None\<rparr>) else None
      | SniConnEnds c \<Rightarrow>
          if c \<in> set (sp_conns p) then Some (p\<lparr>sp_conns := remove1 c (sp_conns p)\<rparr>) else None
      | SniSignal \<Rightarrow>
          if sp_main p = AwaitingSignal
          then Some (p\<lparr>sp_cancelled := True, sp_main := AwaitingServer\<rparr>) else None
      | SniDone \<Rightarrow>
          if sp_main p = AwaitingServer \<and> sp_server p \<noteq> Running
          then Some (p\<lparr>sp_main := SniStopped\<rparr>) else None)"

fun sni_run :: "sni_proc \<Rightarrow> sni_event list \<Rightarrow> sni_proc option" where
  "sni_run p [] = Some p"
| "sni_run p (ev # evs) = (case sni_step p ev of None \<Rightarrow> None | Some p' \<Rightarrow> sni_run p' evs)"

definition sni_inv :: "sni_proc \<Rightarrow> bool" where
  "sni_inv p \<longleftrightarrow>
     (sp_cancelled p \<longleftrightarrow> sp_main p \<noteq> AwaitingSignal) \<and>
     (sp_server p = Running \<longleftrightarrow> sp_listener p \<noteq> Ended) \<and>
     (sp_server p = Returned None \<longrightarrow> sp_cancelled p) \<and>
     (sp_listener p = ShutDown \<longrightarrow> sp_cancelled p) \<and>
     (sp_main p = SniStopped \<longrightarrow> sp_listener p = Ended) \<and>
     (sp_listener p = NotListening \<longrightarrow> sp_conns p = []) \<and>
     (\<forall>err. sp_server p = Returned (Some err) \<longrightarrow> sp_conns p = [])"

lemma sni_step_inv: "sni_step p ev = Some p' \<Longrightarrow> sni_inv p \<Longrightarrow> sni_inv p'"
  by (cases ev) (auto simp: sni_step_def sni_inv_def split: if_splits)

lemma sni_run_inv: "sni_run p evs = Some p' \<Longrightarrow> sni_inv p \<Longrightarrow> sni_inv p'"
  by (induction p evs rule: sni_run.induct) (auto split: option.splits dest: sni_step_inv)

lemma sni_inv_start: "sni_inv (sni_start E)"
  by (simp add: sni_inv_def sni_start_def)

lemma sni_step_failed:
  assumes "sni_step p ev = Some p'" and "sni_inv p" and "sp_server p = Returned (Some err)"
  shows "sp_server p' = Returned (Some err)" and "ev \<noteq> SniSignal \<Longrightarrow> sp_main p = AwaitingSignal \<Longrightarrow> sp_main p' = AwaitingSignal"
  using assms by (cases ev; auto simp: sni_step_def sni_inv_def split: if_splits)+

lemma sni_run_failed:
  "sni_run p evs = Some p' \<Longrightarrow> sni_inv p \<Longrightarrow> sp_server p = Returned (Some err) \<Longrightarrow>
   sp_server p' = Returned (Some err) \<and>
   (SniSignal \<notin> set evs \<longrightarrow> sp_main p = AwaitingSignal \<longrightarrow> sp_main p' = AwaitingSignal)"
proof (induction p evs rule: sni_run.induct)
  case (2 p ev evs)
  then obtain p1 where st: "sni_step p ev = Some p1" and run: "sni_run p1 evs = Some p'"
    by (auto split: option.splits)
  from "2.IH" [OF st run sni_step_inv [OF st "2.prems"(2)] sni_step_failed(1) [OF st "2.prems"(2,3)]]
    sni_step_failed(2) [OF st "2.prems"(2,3)]
  show ?case by auto
qed simp

section \<open>The admin process\<close>

datatype admin_end = RouterFailed string | Signalled

text \<open>The exit code and whether the connection to ClickHouse has been closed.\<close>

definition adminapi_main ::
  "'r redis_client \<Rightarrow> ('h, 'b) ch_client \<Rightarrow> environ \<Rightarrow> 'r \<Rightarrow> admin_end \<Rightarrow> nat \<times> bool" where
  "adminapi_main R H E r w =
     (case adminapi_start R H E r of
        Inl code \<Rightarrow> (code, False)
      | Inr svc \<Rightarrow>
          (case w of
             RouterFailed err \<Rightarrow> (1, False)
           | Signalled \<Rightarrow> (0, chdb svc)))"

section \<open>Properties\<close>

lemma sni_can_stop:
  assumes "sni_inv p" and "sp_cancelled p"
  shows "\<exists>evs p'. sni_run p evs = Some p' \<and> sp_main p' = SniStopped \<and> length evs \<le> 4"
proof (cases "sp_main p = SniStopped")
  case True
  then show ?thesis by (intro exI [of _ "[]"]) simp
next
  case False
  with assms have w: "sp_main p = AwaitingServer" by (cases "sp_main p") (auto simp: sni_inv_def)
  let ?evs = "case sp_listener p of NotListening \<Rightarrow> [SniListens, SniCtxDone, SniClosed, SniDone]
     | Serving \<Rightarrow> [SniCtxDone, SniClosed, SniDone] | ShutDown \<Rightarrow> [SniClosed, SniDone] | Ended \<Rightarrow> [SniDone]"
  have "sni_run p ?evs \<noteq> None \<and> sp_main (the (sni_run p ?evs)) = SniStopped \<and> length ?evs \<le> 4"
    using assms w by (cases "sp_listener p") (simp_all add: sni_step_def sni_inv_def)
  then show ?thesis by (intro exI [of _ ?evs]) auto
qed

text \<open>
  C39. The SNI proxy ends only after a signal, with its listener closed, and once it has been
  signalled it can end within four steps, whatever connections are open. But when it could not
  listen at all, the error is only logged: however it goes on, it never has a connection, and it
  does not end before somebody sends it a signal.
\<close>

theorem sniproxy_process:
  assumes "sni_run (sni_start E) evs = Some p"
  shows "(sp_main p = SniStopped \<longrightarrow> sp_cancelled p \<and> sp_listener p = Ended) \<and>
         (sp_cancelled p \<longrightarrow>
            (\<exists>evs' p'. sni_run p evs' = Some p' \<and> sp_main p' = SniStopped \<and> length evs' \<le> 4)) \<and>
         (sp_server p = Returned (Some err) \<and> sp_main p = AwaitingSignal \<longrightarrow>
            sni_run p evs'' = Some p'' \<longrightarrow>
            sp_conns p'' = [] \<and> (SniSignal \<notin> set evs'' \<longrightarrow> sp_main p'' = AwaitingSignal))"
proof (intro conjI impI)
  note inv = sni_run_inv [OF assms sni_inv_start]
  assume "sp_main p = SniStopped"
  with inv show "sp_cancelled p" "sp_listener p = Ended" by (simp_all add: sni_inv_def)
next
  assume "sp_cancelled p"
  with sni_can_stop [OF sni_run_inv [OF assms sni_inv_start]]
  show "\<exists>evs' p'. sni_run p evs' = Some p' \<and> sp_main p' = SniStopped \<and> length evs' \<le> 4" .
next
  note inv = sni_run_inv [OF assms sni_inv_start]
  assume failed: "sp_server p = Returned (Some err) \<and> sp_main p = AwaitingSignal" and run: "sni_run p evs'' = Some p''"
  from sni_run_failed [OF run inv] failed have f: "sp_server p'' = Returned (Some err)"
    and m: "SniSignal \<notin> set evs'' \<longrightarrow> sp_main p'' = AwaitingSignal" by auto
  show "sp_conns p'' = []" using sni_run_inv [OF run inv] f by (simp add: sni_inv_def)
  show "sp_main p'' = AwaitingSignal" if "SniSignal \<notin> set evs''" using m that by simp
qed

definition ex_sni_failed :: sni_proc where
  "ex_sni_failed = the (sni_run (sni_start (\<lambda>_. None)) [SniListenFails ''permission denied''])"

theorem sniproxy_process_witness:
  "sp_main ex_sni_failed = AwaitingSignal \<and> sp_server ex_sni_failed = Returned (Some ''permission denied'') \<and>
   {evs. SniSignal \<notin> set evs \<and> sni_run ex_sni_failed evs \<noteq> None}
     \<subseteq> {evs. sp_main (the (sni_run ex_sni_failed evs)) = AwaitingSignal}"
proof -
  have run: "sni_run (sni_start (\<lambda>_. None)) [SniListenFails ''permission denied''] = Some ex_sni_failed"
    by (simp add: ex_sni_failed_def sni_start_def sni_step_def)
  have f: "sp_server ex_sni_failed = Returned (Some ''permission denied'')" "sp_main ex_sni_failed = AwaitingSignal"
    by (simp_all add: ex_sni_failed_def sni_start_def sni_step_def)
  have "sp_main (the (sni_run ex_sni_failed evs)) = AwaitingSignal"
    if "SniSignal \<notin> set evs" "sni_run ex_sni_failed evs \<noteq> None" for evs
    using that f sniproxy_process [OF run, of "''permission denied''" evs] by auto
  with f show ?thesis by blast
qed

end
