(* ===== verification/Enforcement.thy ===== *)
theory Enforcement imports Startup Admin begin

text \<open>
  What keeps a new block rule in force in an edge process.

  After the event of a rule has been handled, the process goes on: it answers queries of this and
  other users, handles further events, flushes its log, and its libraries change their state.
  \<open>edge_later\<close> are the states it can come to while the rule stays in Redis, and \<open>never_passes\<close>
  is the invariant of its cache that every one of them keeps: under the key of the domain there is
  no decision to let it pass.
\<close>

section \<open>The runs after an event\<close>

text \<open>The rule is in the block list of the user, and the lookups of that user are answered.\<close>

definition rule_in_force :: "'r redis_client \<Rightarrow> ('r \<Rightarrow> string \<Rightarrow> string set) \<Rightarrow> string \<Rightarrow> string \<Rightarrow> 'r \<Rightarrow> bool" where
  "rule_in_force R sets_of u p r \<longleftrightarrow>
     p \<in> sets_of r (blocked_key u) \<and> (\<forall>d. snd (fst (checkRedis R r d u)) = None)"

inductive edge_later ::
  "('c, 'r, 'z, 'u) libs \<Rightarrow> 'w resp_writer \<Rightarrow> ('r \<Rightarrow> string \<Rightarrow> string set) \<Rightarrow> string \<Rightarrow> string \<Rightarrow>
   ('c, 'r, 'z, 'h, 'u, 'k) app \<Rightarrow> ('c, 'r, 'z, 'h, 'u, 'k) app \<Rightarrow> bool"
  for L :: "('c, 'r, 'z, 'u) libs" and W :: "'w resp_writer" and sets_of :: "'r \<Rightarrow> string \<Rightarrow> string set"
    and u :: string and p :: string and a0 :: "('c, 'r, 'z, 'h, 'u, 'k) app"
where
  now: "edge_later L W sets_of u p a0 a0"
| query: "edge_later L W sets_of u p a0 a \<Longrightarrow> (v = u \<Longrightarrow> rule_in_force (lib_redis L) sets_of u p (app_redis a)) \<Longrightarrow>
    ProcessQuery L W k a w v msg = (res, a', w') \<Longrightarrow> edge_later L W sets_of u p a0 a'"
| event: "edge_later L W sets_of u p a0 a \<Longrightarrow> edge_later L W sets_of u p a0
    (a\<lparr>app_rules := handleMessage (rule_ClearUserCache (lib_cache L) t) (app_rules a) payload\<rparr>)"
| other: "edge_later L W sets_of u p a0 a \<Longrightarrow> app_rules a' = app_rules a \<Longrightarrow> edge_later L W sets_of u p a0 a'"

section \<open>What a query does to the checker\<close>

lemma process_allowed_rules:
  assumes "process_allowed L W k a w v msg = (res, a', w')"
  shows "app_rules a' = app_rules a \<or>
    (\<exists>q qs x rules rd. m_Question msg = q # qs \<and> check_of L k a v (q_Name q) = (x, rules, rd) \<and>
       (app_rules a' = rules \<or> (\<exists>y rd'. redirect_of L k rules rd v (q_Name q) = (y, app_rules a', rd'))))"
proof (cases "m_Question msg")
  case Nil
  with assms show ?thesis by (simp add: process_allowed_def)
next
  case (Cons q qs)
  obtain x rules rd where ch: "check_of L k a v (q_Name q) = (x, rules, rd)" by (metis surj_pair)
  obtain ip ok rules' rd' where re: "redirect_of L k rules rd v (q_Name q) = ((ip, ok), rules', rd')" by (metis surj_pair)
  have "app_rules a' = rules \<or> app_rules a' = rules'"
    using assms Cons ch re by (auto simp: process_allowed_def Let_def split: sum.splits if_splits prod.splits)
  with Cons ch re show ?thesis by auto
qed

lemma ProcessQuery_rules:
  assumes "ProcessQuery L W k a w v msg = (res, a', w')"
  shows "app_rules a' = app_rules a \<or>
    (\<exists>q qs x rules rd. m_Question msg = q # qs \<and> check_of L k a v (q_Name q) = (x, rules, rd) \<and>
       (app_rules a' = rules \<or> (\<exists>y rd'. redirect_of L k rules rd v (q_Name q) = (y, app_rules a', rd'))))"
proof (cases "admits L k a v")
  case True
  obtain rl where "process_allowed L W k (a\<lparr>defaultRateLimiter := rl\<rparr>) w v msg = (res, a', w')"
    using ProcessQuery_admitted [OF True, of W w msg] assms by auto
  from process_allowed_rules [OF this] show ?thesis by simp
next
  case False
  then obtain rl rl' where "defaultRateLimiter a = Some rl"
    "AllowQuery (lib_zset L) (k_call k) (k_limiter k) (k_server_ms k) rl v
       (defaultRateLimitQueries a) (defaultRateLimitWindow a) = (Inr False, rl')"
    by (auto simp: admits_def split: option.splits) (metis prod.collapse)
  with assms show ?thesis by (auto simp: ProcessQuery_refused)
qed

section \<open>The invariant\<close>

definition never_passes :: "('c, cache_val) cache_ops \<Rightarrow> string \<Rightarrow> time \<Rightarrow> 'c rule_pkg \<Rightarrow> bool" where
  "never_passes C key t p \<longleftrightarrow>
     (\<forall>c t'. global p = Some c \<longrightarrow> t \<le> t' \<longrightarrow> cache_Get C (cache c) t' key \<in> {None, Some (CBool True)})"

lemma check_key_unique:
  assumes "CHR '':'' \<notin> set u" and "CHR '':'' \<notin> set d" and "check_cacheKey v x = check_cacheKey u d"
  shows "v = u \<and> x = d"
proof -
  have eq: "v @ CHR '':'' # x = u @ CHR '':'' # d" using assms(3) by (simp add: check_cacheKey_def)
  have "count_list (v @ CHR '':'' # x) CHR '':'' = 1" unfolding eq using assms(1,2) by simp
  then have "CHR '':'' \<notin> set v" by (auto simp: count_list_0_iff)
  with eq assms(1) show ?thesis by (simp add: append_sep_eq)
qed

context checker_env
begin

lemma never_passes_check:
  assumes inv: "never_passes C (check_cacheKey u d) t p" and u: "valid_user u" "CHR '':'' \<notin> set d"
    and force: "\<And>c. v = u \<Longrightarrow> global p = Some c \<Longrightarrow> blocked_spec (fallback c) (seen_blocklist R sets_of c r u (norm_domain name)) d"
    and run: "CheckRule C R t0 t1 p r v name = (res, p', r')"
  shows "never_passes C (check_cacheKey u d) t p'"
proof (cases "global p")
  case None
  with run inv show ?thesis by (auto simp: CheckRule_def never_passes_def Let_def)
next
  case (Some c)
  let ?n = "norm_domain name"
  obtain y c' r1 where ch: "Check C R t0 t1 c r v ?n = (y, c', r1)" by (metis surj_pair)
  have p': "global p' = Some c'" using run Some ch by (auto simp: CheckRule_def Let_def norm_domain_def)
  show ?thesis
  proof (cases "cache_Get C (cache c) t0 (check_cacheKey v (norm_domain ?n))")
    case None
    let ?b = "blocked_spec (fallback c) (seen_blocklist R sets_of c r v ?n) (norm_domain ?n)"
    have c': "c' = c\<lparr>cache := cache_Set C (cache c) t1 (check_cacheKey v (norm_domain ?n)) (CBool ?b) DefaultExpiration\<rparr>"
      using Check_miss [OF None refl, of t1 r] ch by auto
    show ?thesis
    proof (cases "check_cacheKey v (norm_domain ?n) = check_cacheKey u d")
      case True
      then have "v = u" "norm_domain ?n = d" using check_key_unique [of u d v] u by (auto simp: valid_user_def)
      then have "?b" using force [OF _ Some] by simp
      with True show ?thesis by (auto simp: never_passes_def p' c' Get_live entry_Set live_def)
    next
      case False
      with inv Some show ?thesis by (auto simp: never_passes_def p' c' Get_live entry_Set)
    qed
  next
    case hit: (Some val)
    then have "c' = c" using ch by (auto simp: Check_eq split: cache_val.splits)
    with inv Some show ?thesis by (simp add: never_passes_def p')
  qed
qed

lemma never_passes_redirect:
  assumes inv: "never_passes C (check_cacheKey u d) t p" and u: "valid_user u"
    and run: "GetRedirectDomain C R t0 t1 p r v name = (res, p', r')"
  shows "never_passes C (check_cacheKey u d) t p'"
proof (cases "global p")
  case None
  with run inv show ?thesis by (auto simp: GetRedirectDomain_def)
next
  case (Some c)
  obtain y c' r1 where g: "GetRedirect C R t0 t1 c r v name = (y, c', r1)" by (metis surj_pair)
  have p': "global p' = Some c'" using run Some g by (auto simp: GetRedirectDomain_def)
  have "c' = c \<or> (\<exists>ip. c' = c\<lparr>cache := cache_Set C (cache c) t1 (redirect_cacheKey v (norm_domain name)) (CStr ip) DefaultExpiration\<rparr>)"
    using g by (auto simp: GetRedirect_def Let_def norm_domain_def
        split: option.splits cache_val.splits if_splits prod.splits sum.splits)
  with inv Some check_redirect_key_neq [OF u, of d v "norm_domain name"] show ?thesis
    by (auto simp: never_passes_def p' Get_live entry_Set)
qed

lemma never_passes_evict:
  "never_passes C key t p \<Longrightarrow> never_passes C key t (rule_ClearUserCache C t' p v)"
  by (auto simp: never_passes_def rule_ClearUserCache_def Get_live entry_ClearUserCache split: option.splits)

lemma never_passes_event:
  "never_passes C key t p \<Longrightarrow> never_passes C key t (handleMessage (rule_ClearUserCache C t') p payload)"
  by (auto simp: handleMessage_def never_passes_evict split: sum.split)

lemma never_passes_events:
  "never_passes C key t p \<Longrightarrow> never_passes C key t (foldl (handleMessage (rule_ClearUserCache C t')) p msgs)"
  by (induction msgs arbitrary: p) (simp_all add: never_passes_event)

text \<open>A check that finds nothing or a block decision blocks, if the rules do.\<close>

lemma Check_blocks:
  assumes "cache_Get C (cache c) t0 (check_cacheKey u (norm_domain d)) \<in> {None, Some (CBool True)}"
    and "blocked_spec (fallback c) (seen_blocklist R sets_of c r u d) (norm_domain d)"
  shows "\<exists>c' r'. Check C R t0 t1 c r u d = (Inr 1, c', r')"
proof (cases "cache_Get C (cache c) t0 (check_cacheKey u (norm_domain d))")
  case None
  from Check_miss [OF None refl, of t1 r] assms(2) show ?thesis by auto
next
  case (Some val)
  with assms(1) show ?thesis by (simp add: Check_eq)
qed

text \<open>The event of the user establishes it, whatever was cached.\<close>

lemma never_passes_cleared: "never_passes C (check_cacheKey u d) t (rule_ClearUserCache C t p u)"
  by (auto simp: never_passes_def rule_ClearUserCache_def check_cacheKey_def Get_ClearUserCache split: option.splits)

lemma never_passes_subscribe:
  assumes "is_ascii u" and "u \<noteq> []" and "Encode \<lparr>ev_UserID = u, ev_Action = ActionClearCache\<rparr> \<in> set msgs"
  shows "never_passes C (check_cacheKey u d) t (subscribe (rule_ClearUserCache C t) (True, msgs) st)"
proof -
  let ?e = "\<lparr>ev_UserID = u, ev_Action = ActionClearCache\<rparr>"
  have "DecodeEvent (Encode ?e) = Inr ?e" using assms(1,2) by (simp add: DecodeEvent_Encode Validate_def)
  then have h: "handleMessage (rule_ClearUserCache C t) p (Encode ?e) = rule_ClearUserCache C t p u" for p
    by (simp add: handleMessage_def)
  obtain xs ys where "msgs = xs @ Encode ?e # ys" using assms(3) by (auto simp: in_set_conv_decomp)
  then show ?thesis by (simp add: subscribe_def h never_passes_events never_passes_cleared)
qed

end

section \<open>The states after the event\<close>

lemma rule_in_force_blocks:
  assumes "rule_in_force R sets_of u p r" and "enabled c" and "p = d \<or> wildcard_match p d"
  shows "blocked_spec fb (seen_blocklist R sets_of c r u name) d"
  using assms by (auto simp: rule_in_force_def seen_blocklist_def blocked_spec_def)

lemma edge_later_blocks:
  assumes E: "checker_env (lib_cache L) entry dflt (lib_redis L) sets_of hashes_of pub_log"
    and u: "valid_user u" "CHR '':'' \<notin> set d" and "match": "p = d \<or> wildcard_match p d"
    and a0: "never_passes (lib_cache L) (check_cacheKey u d) t (app_rules a0)" "global (app_rules a0) = Some c0" "enabled c0"
    and later: "edge_later L W sets_of u p a0 a"
  shows "never_passes (lib_cache L) (check_cacheKey u d) t (app_rules a) \<and> (\<exists>c. global (app_rules a) = Some c \<and> enabled c)"
  using later
proof induction
  case now
  with a0 show ?case by blast
next
  case (query a v k w msg res a' w')
  obtain c where c: "global (app_rules a) = Some c" "enabled c" using query.IH by blast
  have "config_kept a a'" using HandleDNSQuery_config [of L W k a v w msg] query.hyps(3) by (simp add: HandleDNSQuery_def)
  then have "\<exists>c. global (app_rules a') = Some c \<and> enabled c"
    using c by (auto simp: config_kept_def checker_like_def option_rel_Some1)
  moreover have "never_passes (lib_cache L) (check_cacheKey u d) t (app_rules a')"
    using ProcessQuery_rules [OF query.hyps(3)]
  proof (elim disjE exE conjE)
    assume "app_rules a' = app_rules a"
    with query.IH show ?thesis by simp
  next
    fix q qs x rules rd
    assume ch: "check_of L k a v (q_Name q) = (x, rules, rd)" and "app_rules a' = rules"
    moreover have "blocked_spec (fallback c1) (seen_blocklist (lib_redis L) sets_of c1 (app_redis a) u (norm_domain (q_Name q))) d"
      if "v = u" "global (app_rules a) = Some c1" for c1
      using that rule_in_force_blocks [OF query.hyps(2) _ "match"] c by simp
    ultimately show ?thesis using checker_env.never_passes_check [OF E _ u _ ch] query.IH by blast
  next
    fix q qs x rules rd y rd'
    assume ch: "check_of L k a v (q_Name q) = (x, rules, rd)"
      and re: "redirect_of L k rules rd v (q_Name q) = (y, app_rules a', rd')"
    have "blocked_spec (fallback c1) (seen_blocklist (lib_redis L) sets_of c1 (app_redis a) u (norm_domain (q_Name q))) d"
      if "v = u" "global (app_rules a) = Some c1" for c1
      using that rule_in_force_blocks [OF query.hyps(2) _ "match"] c by simp
    then have "never_passes (lib_cache L) (check_cacheKey u d) t rules"
      using checker_env.never_passes_check [OF E _ u _ ch] query.IH by blast
    then show ?thesis using checker_env.never_passes_redirect [OF E _ u(1) re] by blast
  qed
  ultimately show ?case by blast
next
  case (event a t' payload)
  obtain c where "global (app_rules a) = Some c" "enabled c" using event.IH by blast
  then have "\<exists>c. global (handleMessage (rule_ClearUserCache (lib_cache L) t') (app_rules a) payload) = Some c \<and> enabled c"
    using handleMessage_like [of "app_rules a" "lib_cache L" t' payload] by (auto simp: checker_like_def option_rel_Some1)
  with checker_env.never_passes_event [OF E] event.IH show ?case by simp
qed simp

end
