(* ===== verification/Spec2Isabelle.thy ===== *)
theory Spec2Isabelle imports Metrics Smoke_Test Programs Enforcement begin

text \<open>
  A verification development for edge-dns, a DNS resolver that filters queries per user.

  \<^bold>\<open>The program.\<close> An edge process (\<^verbatim>\<open>cmd/edgedns\<close>) serves DNS over UDP and TCP, over TLS and over
  HTTPS. Every query goes through the handler: the rate limiter (a Lua script on a Redis sorted
  set), the rule checker (block lists and redirects of the user in Redis, behind a cache, with a
  built-in list), and either an answer of its own or the upstream server; a log record goes to the
  aggregator, which writes batches to ClickHouse. The admin service (\<^verbatim>\<open>cmd/adminapi\<close>) changes the
  rules in Redis and publishes an event; the sync worker of each edge process reads it and evicts
  the user's cached decisions. The publisher (\<^verbatim>\<open>cmd/publisher\<close>) sends such events by hand. The SNI
  proxy (\<^verbatim>\<open>cmd/sniproxy\<close>) relays TLS connections by the name in their ClientHello.

  \<^bold>\<open>Theories\<close>, each importing those above it that it needs:
  \<^item> \<open>Prelude\<close>: Go's slices, panics and package \<^verbatim>\<open>strings\<close>; \<open>Wire\<close>: bytes, two-byte numbers,
    \<^verbatim>\<open>io.ReadFull\<close>; \<open>Strconv\<close>: decimal numbers; \<open>Net\<close>: addresses; \<open>Json\<close>: what \<^verbatim>\<open>encoding/json\<close>
    reads and writes for the events.
  \<^item> \<open>TTL_Cache\<close>, \<open>Redis_Client\<close>, \<open>Dns_Msg\<close>: the libraries the source calls (go-cache, go-redis,
    miekg/dns) as records of operations, with their documented behaviour as the locales \<open>ttl_cache\<close>,
    \<open>redis_server\<close> and \<open>dns_library\<close>, each with a concrete instance that satisfies it.
  \<^item> \<open>Rule\<close>, \<open>Rule_History\<close>, \<open>Rule_Concurrent\<close>: \<^verbatim>\<open>internal/rule\<close>. The record \<open>checker\<close> is
    \<^verbatim>\<open>Checker\<close>, \<open>rule_pkg\<close> the package variables; the locale \<open>checker_env\<close> puts cache and Redis
    together. The reference decision is \<open>blocked_spec\<close>; \<open>rule_reach\<close> are the runs of whole
    operations, \<open>sys_reach\<close> those of operations that interleave at each access to shared state.
  \<^item> \<open>Sni_Proxy\<close>: \<^verbatim>\<open>cmd/sniproxy/main.go\<close>. \<open>client_hello\<close> is the grammar the parser is measured
    against.
  \<^item> \<open>Ratelimit\<close>: \<^verbatim>\<open>internal/ratelimit\<close>, with the script over the locale \<open>zset_server\<close> and a sliding
    window log as its specification.
  \<^item> \<open>Analytics\<close>: \<^verbatim>\<open>internal/analytics\<close>, with ClickHouse as the locale \<open>clickhouse\<close>; \<open>worker_step\<close> is
    one turn of the worker, \<open>agg_reach\<close> its runs.
  \<^item> \<open>Upstream\<close>: \<^verbatim>\<open>internal/upstream\<close>. \<open>Handler\<close>: \<^verbatim>\<open>internal/handler\<close>; the record \<open>app\<close> is the state
    of an edge process, \<open>resp_writer\<close> the response writer a query arrives with.
  \<^item> \<open>Server\<close>: \<^verbatim>\<open>internal/server\<close>. \<open>tls_conn\<close> and \<open>http_writer\<close> are the two kinds of writers; the
    locale \<open>silent_reader\<close> says that answering leaves the input alone.
  \<^item> \<open>Sync\<close>: \<^verbatim>\<open>internal/sync\<close>, with the locale \<open>cache_evictor\<close> for the callback. \<open>Admin\<close>:
    \<^verbatim>\<open>internal/admin\<close>.
  \<^item> \<open>Startup\<close>: configuration and start of the programs, certificates, health endpoints, publisher;
    \<open>edge_reach\<close> are the runs of an edge process. \<open>Metrics\<close>: \<^verbatim>\<open>internal/metrics\<close> and its agreement
    with the log.
  \<^item> \<open>Lifecycle\<close>: the goroutines of an edge process and its shutdown (\<open>proc_step\<close>); \<open>Listeners\<close>:
    the same with \<^verbatim>\<open>RunStd\<close>, \<^verbatim>\<open>RunDoH\<close> and the metrics server in detail (\<open>edge_step\<close>), which refines it.
  \<^item> \<open>Programs\<close>: the processes of the SNI proxy and the admin service. \<open>Smoke_Test\<close>: \<^verbatim>\<open>cmd/test\<close>,
    run against the model of the server; the locale \<open>dns_questions\<close> is its client library.
  \<^item> \<open>Enforcement\<close>: what an edge process can do after an event (\<open>edge_later\<close>), and that while
    a rule is in force no decision to let its domains pass gets into the cache; this theory: what spans all of them, from a rule added by the admin service
    to the answer to a query.

  \<^bold>\<open>What is shown.\<close> The checker decides as the reference does, on lookups stored at most 60 seconds
  before, in every interleaving of its operations (for users without a colon in their names), and never
  on a store older than an eviction that has returned; an eviction that begins while no check of the
  user is in flight is effective, and one that does not need not be; patterns and redirects are exact
  and most specific. A confirmed rule, in lower case and published, is enforced from the event on, as
  long as it stays in Redis and Redis answers, the operations of the process taken one at a time. The
  rate limiter refines the sliding window log and does not exceed the limit, for one process with
  ordered clock readings; two processes on one Redis can. The handler answers every query with a
  question once and carries out the decision of the rules, cached or fresh: a query to block is not
  forwarded; redirected and forwarded queries are answered as specified; the metrics and the log
  describe the same queries. The aggregator conserves its records. The ClientHello parser accepts
  exactly the grammar and never panics; the proxy relays unchanged, in both directions. DoT answers
  pipelined queries in order, and closes the connection of a client that has ended; DoH answers both
  forms alike and rejects exactly what is no query, without effect. The admin service is closed
  without its key. Events survive their encoding and evict exactly the users they name. A process is
  well formed in every state; it ends cleanly and, once cancelled, can always end when its DoT clients
  leave, in the coarse and in the detailed view. The smoke test's block tests pass. Among the
  properties are also the behaviours that are surely not meant: each is a theorem about the code as it is.

  \<^bold>\<open>What the libraries may do.\<close> A Redis call may fail; a command whose reply is lost may have been run
  up to four times (the client sends it again three times), which \<open>Publish\<close> shows in the log of the
  channel, and the limiter's script as \<open>Retried\<close>. A connection may deliver its bytes in pieces of any
  size, end, break, or stay open (\<open>tc_end\<close>): then a read blocks for good, since the server sets no
  deadline. A message may be packed to any length. ClickHouse may fail at every call.

  \<^bold>\<open>Conventions.\<close> Times are integers in nanoseconds, and an operation that reads the clock takes the
  readings as arguments. Machine integers are words where they wrap (\<^verbatim>\<open>uint64\<close> counters, TLS and DNS
  fields) and integers elsewhere. Outside theory \<open>Rule_Concurrent\<close>
  an operation of a component is one step: the rate limiter's script is atomic in Redis, the
  aggregator shares only a channel and atomic counters, and of the handler's components only the
  rule checker keeps state that several goroutines read and write (the cache, without a lock; the
  package has none). The goroutines of the processes interleave in \<open>Lifecycle\<close>, \<open>Listeners\<close> and
  \<open>Programs\<close>. Fuel occurs only in
  \<open>read_value\<close> of theory \<open>Json\<close>: two units for each character of the input and two more, and
  \<open>json_parse_complete\<close> shows that more reads nothing else; the loop \<open>dot_loop\<close> takes a list of clock readings, and with more of them than
  input bytes it is shown to end, or to wait for a client that keeps the connection open. Everything else terminates by itself.

  \<^bold>\<open>Not modelled.\<close> Log lines and metrics export; the TLS and HTTP implementations, sockets and
  operating system calls, whose outcomes are arguments; \<^verbatim>\<open>time.ParseDuration\<close> (floating point), an
  argument of \<open>upstream_init\<close>; crypto, a parameter of \<open>GenerateSelfSigned\<close>; the binding of JSON
  bodies by the web framework, whose outcome is part of a \<open>request\<close>; text outside ASCII in events and
  in the conversion to lower case; the unused text form of a log record and of the handler's results.
\<close>

section \<open>From the admin service to the answer\<close>

text \<open>
  C3. A rule confirmed by the admin service is enforced by an edge process once its worker has
  handled the published event. Suppose the service confirmed a rule with 200 for a user (in
  ASCII, without a colon) and an event was published for it, and the worker of an edge process with
  Redis enabled has handled a batch of messages with that event in it. Then the rule is in the
  user's block list in Redis; and after that, whatever the process had cached before and
  whatever it has done since, a query of that user for a domain the rule matches (literally, or
  as a wildcard) is answered NXDOMAIN and not sent upstream, provided the rule has stayed in Redis
  and Redis has answered the lookups of that user, and the rate limiter lets the query pass. The
  operations of the process are taken one at a time: a check of the user that is between its
  lookup and its store while the event is handled is the subject of C5 and C15. A rule that is
  not in lower case or ends in a dot matches nothing (C36).
\<close>

theorem added_rule_is_enforced:
  assumes D: "dns_library (lib_dns L)"
    and E: "checker_env (lib_cache L) entry dflt (lib_redis L) sets_of hashes_of pub_log"
    and req: "rq_rule c = Inr req" and add: "addRule (lib_redis L) s c = ((200, b), s')"
    and pub: "pub_log (rdb s') = pub_log (rdb s) @ new" "(ConfigChannel, payload) \<in> set new"
    and u: "valid_user (rule_UserID req)" "is_ascii (rule_UserID req)" "rule_UserID req \<noteq> []"
    and rules: "app_rules a0 = subscribe (rule_ClearUserCache (lib_cache L) t) (True, msgs) st"
    and st: "global st = Some c0" "enabled c0" and m: "payload \<in> set msgs"
    and later: "edge_later L W sets_of (rule_UserID req) (rule_Domain req) a0 a"
    and redis: "rule_in_force (lib_redis L) sets_of (rule_UserID req) (rule_Domain req) (app_redis a)"
    and q: "m_Question msg = q # qs" "\<not> suffix ''..'' (q_Name q)" "CHR '':'' \<notin> set (norm_domain (q_Name q))"
    and "match": "rule_Domain req = norm_domain (q_Name q) \<or> wildcard_match (rule_Domain req) (norm_domain (q_Name q))"
    and late: "t \<le> fst (k_check k)" and adm: "admits L k a (rule_UserID req)"
  shows "rule_Domain req \<in> sets_of (rdb s') (blocked_key (rule_UserID req)) \<and>
     (\<exists>a' w' resp. ProcessQuery L W k a w (rule_UserID req) msg = (Inr (), a', w') \<and> wrote W w resp w' \<and>
        m_Id resp = m_Id msg \<and> m_Rcode resp = RcodeNameError \<and> app_upstream a' = app_upstream a)"
proof
  let ?u = "rule_UserID req" and ?d = "norm_domain (q_Name q)"
  have RS: "redis_server (lib_redis L) sets_of hashes_of pub_log" using E by (simp add: checker_env_def)
  show "rule_Domain req \<in> sets_of (rdb s') (blocked_key ?u)" using redis_server.addRule_ok [OF RS req add] by simp
  have "payload = Encode \<lparr>ev_UserID = ?u, ev_Action = ActionClearCache\<rparr>"
    using redis_server.addRule_published [OF RS req add] pub by auto
  note ev = m [unfolded this]
  obtain c1 where c1: "global (app_rules a0) = Some c1" "enabled c1"
    using subscribe_like [of st "lib_cache L" t "(True, msgs)"] st rules by (auto simp: checker_like_def option_rel_Some1)
  have "never_passes (lib_cache L) (check_cacheKey ?u ?d) t (app_rules a0)"
    unfolding rules by (rule checker_env.never_passes_subscribe [OF E u(2,3) ev])
  from edge_later_blocks [OF E u(1) q(3) "match" this c1 later] obtain c2 where
    inv: "never_passes (lib_cache L) (check_cacheKey ?u ?d) t (app_rules a)" and c2: "global (app_rules a) = Some c2" "enabled c2"
    by blast
  have spec: "blocked_spec (fallback c2) (seen_blocklist (lib_redis L) sets_of c2 (app_redis a) ?u ?d) ?d"
    using redis c2(2) "match" by (rule rule_in_force_blocks)
  have "cache_Get (lib_cache L) (cache c2) (fst (k_check k)) (check_cacheKey ?u (norm_domain ?d)) \<in> {None, Some (CBool True)}"
    "blocked_spec (fallback c2) (seen_blocklist (lib_redis L) sets_of c2 (app_redis a) ?u ?d) (norm_domain ?d)"
    using inv c2(1) late spec unfolding norm_domain_twice [OF q(2)] by (simp_all add: never_passes_def)
  then obtain c' rd where
    "Check (lib_cache L) (lib_redis L) (fst (k_check k)) (snd (k_check k)) c2 (app_redis a) ?u ?d = (Inr 1, c', rd)"
    using checker_env.Check_blocks [OF E] by blast
  from ProcessQuery_check_blocked [OF D adm q(1) c2(1) this, of W w]
  show "\<exists>a' w' resp. ProcessQuery L W k a w ?u msg = (Inr (), a', w') \<and> wrote W w resp w' \<and>
     m_Id resp = m_Id msg \<and> m_Rcode resp = RcodeNameError \<and> app_upstream a' = app_upstream a"
    by (elim exE conjE) blast
qed

subsection \<open>Witness\<close>

definition ex_add :: request where
  "ex_add = ex_request\<lparr>rq_rule := Inr \<lparr>rule_UserID = ''alice'', rule_Domain = ''*.bad.org'', rule_Action = ''block''\<rparr>\<rparr>"

definition ex_payload :: string where
  "ex_payload = Encode \<lparr>ev_UserID = ''alice'', ev_Action = ActionClearCache\<rparr>"

definition ex_added :: "mem_redis AdminService" where
  "ex_added = snd (addRule mem_redis_ops (ex_admin []) ex_add)"

text \<open>Before the query for the new rule, the process answers another one of the same user.\<close>

definition ex_edge0 :: "(cache_val mem_cache, mem_redis, mem_zset, mem_ch, mem_upstream, dns_msg mem_cache) app" where
  "ex_edge0 = ex_app\<lparr>app_redis := rdb ex_added,
     app_rules := subscribe (rule_ClearUserCache mem_cache_ops 4) (True, [ex_payload]) (app_rules ex_app)\<rparr>"

definition ex_between where
  "ex_between = ProcessQuery ex_libs list_writer_ops ex_clock ex_edge0 ex_writer ''alice'' (ex_msg 8 ''plain.org.'')"

definition ex_edge :: "(cache_val mem_cache, mem_redis, mem_zset, mem_ch, mem_upstream, dns_msg mem_cache) app" where
  "ex_edge = fst (snd ex_between)"

lemma ex_added_facts:
  "fst (addRule mem_redis_ops (ex_admin []) ex_add) = (200, Message ''rule added'')"
  "mr_log (rdb ex_added) = mr_log (rdb (ex_admin [])) @ [(ConfigChannel, ex_payload)]"
  "mr_faults (rdb ex_added) = []" "''*.bad.org'' \<in> mr_sets_of (rdb ex_added) (blocked_key ''alice'')"
  "mr_faults (app_redis ex_edge) = []" "''*.bad.org'' \<in> mr_sets_of (app_redis ex_edge) (blocked_key ''alice'')"
  "defaultRateLimiter ex_edge = None"
  "norm_domain ''www.Bad.org.'' = ''www.bad.org''"
  "enabled ex_checker" "\<not> suffix ''..'' ''www.Bad.org.''"
  by code_simp+

lemma ex_wildcard: "wildcard_match ''*.bad.org'' ''www.bad.org''"
  unfolding wildcard_match_def by (intro exI [of _ "''www''"] exI [of _ "''bad.org''"]) simp

lemma ex_payload_decodes: "DecodeEvent ex_payload = Inr \<lparr>ev_UserID = ''alice'', ev_Action = ActionClearCache\<rparr>"
  unfolding ex_payload_def by (subst DecodeEvent_Encode) (simp_all add: is_ascii_def Validate_def)

lemma mem_in_force:
  "mr_faults r = [] \<Longrightarrow> p \<in> mr_sets_of r (blocked_key u) \<Longrightarrow> rule_in_force mem_redis_ops mr_sets_of u p r"
  by (simp add: rule_in_force_def checkRedis_def mem_redis_ops_def mr_query_def mr_fails_def)

theorem added_rule_is_enforced_witness:
  "\<exists>a' w' resp. ProcessQuery ex_libs list_writer_ops ex_clock ex_edge ex_writer ''alice'' (ex_msg 9 ''www.Bad.org.'') =
     (Inr (), a', w') \<and> lw_sent w' = [resp] \<and> m_Id resp = 9 \<and> m_Rcode resp = RcodeNameError"
proof -
  let ?req = "\<lparr>rule_UserID = ''alice'', rule_Domain = ''*.bad.org'', rule_Action = ''block''\<rparr>"
  let ?q = "\<lparr>q_Name = ''www.Bad.org.'', q_Qtype = TypeA, q_Qclass = ClassINET\<rparr>"
  have D: "dns_library (lib_dns ex_libs)" by (simp add: ex_libs_def md.dns_library_axioms)
  have E: "checker_env (lib_cache ex_libs) mc_entry mc_default (lib_redis ex_libs) mr_sets_of mr_hashes_of mr_log"
    by (simp add: ex_libs_def mem.checker_env_axioms)
  have add: "addRule (lib_redis ex_libs) (ex_admin []) ex_add = ((200, Message ''rule added''), ex_added)"
    using ex_added_facts(1) by (simp add: ex_libs_def ex_added_def prod_eq_iff)
  have r: "rq_rule ex_add = Inr ?req" by (simp add: ex_add_def)
  have new: "(ConfigChannel, ex_payload) \<in> set [(ConfigChannel, ex_payload)]" by simp
  have u: "valid_user (rule_UserID ?req)" "is_ascii (rule_UserID ?req)" "rule_UserID ?req \<noteq> []"
    by (simp_all add: valid_user_def is_ascii_def)
  have st: "app_rules ex_edge0 = subscribe (rule_ClearUserCache (lib_cache ex_libs) 4) (True, [ex_payload]) (app_rules ex_app)"
    "global (app_rules ex_app) = Some ex_checker" "enabled ex_checker" "ex_payload \<in> set [ex_payload]"
    using ex_added_facts by (simp_all add: ex_edge0_def ex_libs_def ex_app_def)
  have f0: "rule_in_force mem_redis_ops mr_sets_of ''alice'' ''*.bad.org'' (rdb ex_added)"
    by (rule mem_in_force [OF ex_added_facts(3,4)])
  have f1: "rule_in_force mem_redis_ops mr_sets_of ''alice'' ''*.bad.org'' (app_redis ex_edge)"
    by (rule mem_in_force [OF ex_added_facts(5,6)])
  have run: "ProcessQuery ex_libs list_writer_ops ex_clock ex_edge0 ex_writer ''alice'' (ex_msg 8 ''plain.org.'') =
      (fst ex_between, ex_edge, snd (snd ex_between))" by (simp add: ex_between_def ex_edge_def)
  have later: "edge_later ex_libs list_writer_ops mr_sets_of (rule_UserID ?req) (rule_Domain ?req) ex_edge0 ex_edge"
    by (rule edge_later.query [OF edge_later.now _ run]) (use f0 in \<open>simp add: ex_libs_def ex_edge0_def\<close>)
  have f: "rule_in_force (lib_redis ex_libs) mr_sets_of (rule_UserID ?req) (rule_Domain ?req) (app_redis ex_edge)"
    using f1 by (simp add: ex_libs_def)
  have m: "m_Question (ex_msg 9 ''www.Bad.org.'') = ?q # []" by (simp add: ex_msg_def)
  have n: "\<not> suffix ''..'' (q_Name ?q)" "CHR '':'' \<notin> set (norm_domain (q_Name ?q))"
    "rule_Domain ?req = norm_domain (q_Name ?q) \<or> wildcard_match (rule_Domain ?req) (norm_domain (q_Name ?q))"
    using ex_added_facts(8,10) ex_wildcard by simp_all
  have adm: "(4 :: time) \<le> fst (k_check ex_clock)" "admits ex_libs ex_clock ex_edge (rule_UserID ?req)"
    using ex_added_facts(7) by (simp_all add: admits_def ex_clock_def)
  from added_rule_is_enforced [OF D E r add ex_added_facts(2) new u st later f m n adm, of ex_writer]
  have "\<exists>a' w' resp. ProcessQuery ex_libs list_writer_ops ex_clock ex_edge ex_writer ''alice'' (ex_msg 9 ''www.Bad.org.'') =
      (Inr (), a', w') \<and> wrote list_writer_ops ex_writer resp w' \<and> m_Id resp = m_Id (ex_msg 9 ''www.Bad.org.'') \<and>
      m_Rcode resp = RcodeNameError \<and> app_upstream a' = app_upstream ex_edge" by simp
  then show ?thesis by (elim exE conjE) (auto simp: wrote_def list_writer_ops_def ex_writer_def ex_msg_def)
qed

end
